(* ===== verification/Orbit_Prelude.thy ===== *)
theory Orbit_Prelude
  imports
    Main
    "HOL-Library.Word"
    "HOL-Library.List_Lexorder"
    "HOL-Library.Product_Lexorder"
    "HOL-Library.Monad_Syntax"
begin

text \<open>
  Shared vocabulary of the development.

  \<^item> Machine data: \<open>bytes\<close> is a Rust \<open>Vec<u8>\<close> or the UTF-8 bytes of a \<open>String\<close> (Rust compares,
    hashes and measures strings by their bytes); \<open>uuid\<close> is the 128-bit value of a \<open>uuid::Uuid\<close>;
    \<open>instant\<close> is a monotonic clock reading in nanoseconds. The widths of \<open>u32\<close>, \<open>u64\<close> and
    \<open>usize\<close> are the constants \<open>u32_max\<close> and \<open>u64_max\<close>.
  \<^item> Failure: \<open>'e + 'a\<close> is a Rust \<open>Result\<close> (\<open>Inl\<close> the error). \<open>'a option\<close> around an operation
    records an arithmetic panic or a failed \<open>expect\<close>: \<open>None\<close> means the code panicked.
    \<open>usub\<close> is the checked reading of Rust's \<open>-\<close> and \<open>-=\<close> on unsigned integers.
  \<^item> Maps: a \<open>BTreeMap\<close> is an association list strictly sorted by key (\<open>bt_insert\<close>,
    \<open>bt_remove\<close>, lookup by \<open>map_of\<close>). A \<open>HashMap\<close> that the code iterates over is kept the same
    way: every such iteration computes a sum, a count or a set, which no order changes.
  \<^item> Interfaces: the locale \<open>keyed_map\<close> is what the components use of a map, the locale
    \<open>invariant_system\<close> is what they use of a state machine.
\<close>

section \<open>Machine data\<close>

type_synonym byte = "8 word"
type_synonym bytes = "byte list"
type_synonym uuid = "128 word"
type_synonym instant = nat
type_synonym duration = nat

definition u16_max :: nat where
  "u16_max = 65535"

definition u32_max :: nat where
  "u32_max = 4294967295"

definition u64_max :: nat where
  "u64_max = 18446744073709551615"

definition isize_max :: nat where
  "isize_max = 9223372036854775807"

text \<open>The greatest \<open>Instant\<close> of the Linux standard library: an \<open>i64\<close> count of seconds.\<close>

definition instant_max :: nat where
  "instant_max = 9223372036854775807 * 1000000000 + 999999999"

text \<open>The bytes of an ASCII literal.\<close>

definition ascii :: "string \<Rightarrow> bytes" where
  "ascii s = map (\<lambda>c. word_of_nat (of_char c)) s"

named_theorems machine_defs "the limits of the machine integers"

lemmas [machine_defs] = u16_max_def u32_max_def u64_max_def isize_max_def instant_max_def

text \<open>\<open>Display\<close> of an unsigned integer: its decimal digits.\<close>

fun decimal :: "nat \<Rightarrow> bytes" where
  "decimal n = (if n < 10 then [word_of_nat (48 + n)] else decimal (n div 10) @ [word_of_nat (48 + n mod 10)])"

declare decimal.simps [simp del]

section \<open>Arithmetic of unsigned integers\<close>

definition usub :: "nat \<Rightarrow> nat \<Rightarrow> nat option" where
  "usub a b = (if b \<le> a then Some (a - b) else None)"

definition checked_add :: "nat \<Rightarrow> nat \<Rightarrow> nat option" where
  "checked_add a b = (if a + b \<le> u64_max then Some (a + b) else None)"

definition checked_mul :: "nat \<Rightarrow> nat \<Rightarrow> nat option" where
  "checked_mul a b = (if a * b \<le> u64_max then Some (a * b) else None)"

definition saturating_add :: "nat \<Rightarrow> nat \<Rightarrow> nat" where
  "saturating_add a b = min (a + b) u64_max"

definition checked_add_signed :: "nat \<Rightarrow> int \<Rightarrow> nat option" where
  "checked_add_signed a d =
     (if 0 \<le> int a + d \<and> int a + d \<le> int u64_max then Some (nat (int a + d)) else None)"

definition div_ceil :: "nat \<Rightarrow> nat \<Rightarrow> nat" where
  "div_ceil a b = a div b + (if a mod b = 0 then 0 else 1)"

definition checked_next_multiple_of :: "nat \<Rightarrow> nat \<Rightarrow> nat option" where
  "checked_next_multiple_of a b =
     (if b = 0 then None
      else if a mod b = 0 then Some a
      else checked_add a (b - a mod b))"

lemma usub_Some [simp]: "b \<le> a \<Longrightarrow> usub a b = Some (a - b)"
  by (simp add: usub_def)

lemma usub_eq_Some_iff: "usub a b = Some c \<longleftrightarrow> b \<le> a \<and> c = a - b"
  by (auto simp: usub_def)

lemma saturating_add_ge: "a \<le> u64_max \<Longrightarrow> a \<le> saturating_add a b"
  by (simp add: saturating_add_def)

lemma checked_next_multiple_of_Some:
  assumes "checked_next_multiple_of a b = Some c"
  shows "a \<le> c" and "c mod b = 0" and "c < a + b" and "0 < b"
proof -
  have b: "0 < b" using assms by (auto simp: checked_next_multiple_of_def split: if_splits)
  then have m: "a mod b < b" by simp
  show "0 < b" by (fact b)
  show "a \<le> c" and "c < a + b"
    using assms b m by (auto simp: checked_next_multiple_of_def checked_add_def split: if_splits)
  show "c mod b = 0"
  proof (cases "a mod b = 0")
    case True
    then show ?thesis using assms b by (auto simp: checked_next_multiple_of_def)
  next
    case False
    then have "c = a + (b - a mod b)"
      using assms b by (auto simp: checked_next_multiple_of_def checked_add_def split: if_splits)
    also have "\<dots> = (a div b) * b + b"
      using m div_mult_mod_eq [of a b] by linarith
    finally show ?thesis by simp
  qed
qed

lemma div_ceil_mult_ge: "0 < b \<Longrightarrow> a \<le> div_ceil a b * b"
proof -
  assume "0 < b"
  then have "a mod b < b" by simp
  moreover have "a div b * b + a mod b = a" by simp
  moreover have "(a div b + 1) * b = a div b * b + b" by (simp add: algebra_simps)
  ultimately show ?thesis unfolding div_ceil_def
    by (metis add.right_neutral le_refl nat_add_left_cancel_le less_imp_le)
qed

lemma div_ceil_pos: "0 < b \<Longrightarrow> 0 < a \<Longrightarrow> 0 < div_ceil a b"
  by (metis div_ceil_mult_ge gr0I leD mult_is_0)

section \<open>Results\<close>

definition rbind :: "'e + 'a \<Rightarrow> ('a \<Rightarrow> 'e + 'b) \<Rightarrow> 'e + 'b" where
  "rbind m f = (case m of Inl e \<Rightarrow> Inl e | Inr x \<Rightarrow> f x)"

definition ok_or :: "'a option \<Rightarrow> 'e \<Rightarrow> 'e + 'a" where
  "ok_or m e = (case m of None \<Rightarrow> Inl e | Some x \<Rightarrow> Inr x)"

lemma rbind_simps [simp]: "rbind (Inl e) f = Inl e" "rbind (Inr x) f = f x"
  by (simp_all add: rbind_def)

lemma rbind_eq_Inr_iff: "rbind m f = Inr y \<longleftrightarrow> (\<exists>x. m = Inr x \<and> f x = Inr y)"
  by (cases m) auto

lemma rbind_eq_Inl_iff: "rbind m f = Inl e \<longleftrightarrow> m = Inl e \<or> (\<exists>x. m = Inr x \<and> f x = Inl e)"
  by (cases m) auto

lemma ok_or_simps [simp]: "ok_or None e = Inl e" "ok_or (Some x) e = Inr x"
  by (simp_all add: ok_or_def)

lemma ok_or_eq_Inr_iff: "ok_or m e = Inr x \<longleftrightarrow> m = Some x"
  by (cases m) auto

text \<open>\<open>iter().map(f).collect::<Result<Vec<_>, _>>()\<close>: the first error wins.\<close>

fun traverse :: "('a \<Rightarrow> 'e + 'b) \<Rightarrow> 'a list \<Rightarrow> 'e + 'b list" where
  "traverse f [] = Inr []"
| "traverse f (x # xs) = rbind (f x) (\<lambda>y. rbind (traverse f xs) (\<lambda>ys. Inr (y # ys)))"

lemma traverse_Inr_iff: "traverse f xs = Inr ys \<longleftrightarrow> list_all2 (\<lambda>x y. f x = Inr y) xs ys"
proof (induction xs arbitrary: ys)
  case Nil
  then show ?case by auto
next
  case (Cons x xs)
  then show ?case
    by (auto simp: rbind_eq_Inr_iff list_all2_Cons1)
qed

section \<open>Sorted association maps\<close>

type_synonym ('k, 'v) btree = "('k \<times> 'v) list"

definition bt_wf :: "('k::linorder, 'v) btree \<Rightarrow> bool" where
  "bt_wf m \<longleftrightarrow> sorted_wrt (<) (map fst m)"

fun bt_insert :: "'k::linorder \<Rightarrow> 'v \<Rightarrow> ('k, 'v) btree \<Rightarrow> ('k, 'v) btree" where
  "bt_insert k v [] = [(k, v)]"
| "bt_insert k v ((l, w) # m) =
     (if k < l then (k, v) # (l, w) # m
      else if k = l then (k, v) # m
      else (l, w) # bt_insert k v m)"

definition bt_remove :: "'k \<Rightarrow> ('k, 'v) btree \<Rightarrow> ('k, 'v) btree" where
  "bt_remove k m = filter (\<lambda>e. fst e \<noteq> k) m"

definition bt_keys :: "('k, 'v) btree \<Rightarrow> 'k list" where
  "bt_keys m = map fst m"

definition bt_values :: "('k, 'v) btree \<Rightarrow> 'v list" where
  "bt_values m = map snd m"

lemma bt_wf_Nil [simp]: "bt_wf []"
  by (simp add: bt_wf_def)

lemma bt_wf_Cons: "bt_wf ((k, v) # m) \<longleftrightarrow> (\<forall>l \<in> set (map fst m). k < l) \<and> bt_wf m"
  by (auto simp: bt_wf_def)

lemma bt_wf_distinct: "bt_wf m \<Longrightarrow> distinct (map fst m)"
  unfolding bt_wf_def using strict_sorted_iff by blast

lemma map_of_bt_insert [simp]: "map_of (bt_insert k v m) = (map_of m)(k \<mapsto> v)"
  by (induction k v m rule: bt_insert.induct) (auto simp: fun_eq_iff)

lemma set_keys_bt_insert [simp]: "fst ` set (bt_insert k v m) = insert k (fst ` set m)"
  by (induction k v m rule: bt_insert.induct) auto

lemma bt_wf_insert [simp]: "bt_wf m \<Longrightarrow> bt_wf (bt_insert k v m)"
  by (induction k v m rule: bt_insert.induct) (auto simp: bt_wf_Cons)

lemma map_of_bt_remove [simp]: "map_of (bt_remove k m) = (map_of m)(k := None)"
  by (induction m) (auto simp: bt_remove_def fun_eq_iff)

lemma bt_wf_filter: "bt_wf m \<Longrightarrow> bt_wf (filter P m)"
  by (induction m) (auto simp: bt_wf_Cons)

lemma bt_wf_remove [simp]: "bt_wf m \<Longrightarrow> bt_wf (bt_remove k m)"
  by (simp add: bt_remove_def bt_wf_filter)

lemma set_bt_remove: "set (bt_remove k m) = {e \<in> set m. fst e \<noteq> k}"
  by (auto simp: bt_remove_def)

lemma bt_wf_map_value: "bt_wf (map (\<lambda>(k, v). (k, f k v)) m) = bt_wf m"
  by (simp add: bt_wf_def comp_def case_prod_unfold)

lemma map_of_map_value:
  "map_of (map (\<lambda>(k, v). (k, f k v)) m) k = map_option (f k) (map_of m k)"
  by (induction m) auto

lemma in_set_iff_map_of: "bt_wf m \<Longrightarrow> (k, v) \<in> set m \<longleftrightarrow> map_of m k = Some v"
  by (simp add: bt_wf_distinct map_of_eq_Some_iff)

lemma set_bt_insert: "bt_wf m \<Longrightarrow> set (bt_insert k v m) = insert (k, v) {e \<in> set m. fst e \<noteq> k}"
proof -
  assume wf: "bt_wf m"
  have "(l, w) \<in> set (bt_insert k v m) \<longleftrightarrow> (l, w) \<in> insert (k, v) {e \<in> set m. fst e \<noteq> k}" for l w
    using wf by (auto simp: in_set_iff_map_of)
  then show ?thesis by auto
qed

text \<open>Two well-formed maps with the same lookups are the same list.\<close>

lemma bt_ext:
  assumes "bt_wf m" and "bt_wf n" and eq: "map_of m = map_of n"
  shows "m = n"
proof -
  have "set m = set n"
    using assms by (auto simp: in_set_iff_map_of)
  moreover have "sorted_wrt (\<lambda>a b. fst a < fst b) m" "sorted_wrt (\<lambda>a b. fst a < fst b) n"
    using assms by (simp_all add: bt_wf_def sorted_wrt_map)
  ultimately show ?thesis
  proof (induction m arbitrary: n)
    case Nil
    then show ?case by simp
  next
    case (Cons a m)
    then obtain b n' where n: "n = b # n'" by (cases n) auto
    have "a = b"
    proof (rule ccontr)
      assume "a \<noteq> b"
      then have "a \<in> set n'" and "b \<in> set m" using Cons.prems n by auto
      then show False using Cons.prems n by (auto dest!: order.asym)
    qed
    moreover have "set m = set n'"
      using Cons.prems n \<open>a = b\<close> by auto
    ultimately show ?case using Cons n by simp
  qed
qed

lemma bt_insert_twice [simp]: "bt_insert k v (bt_insert k w m) = bt_insert k v m"
  by (induction k w m rule: bt_insert.induct) auto

lemma bt_insert_remove_same:
  assumes "bt_wf m" and "map_of m k = Some v"
  shows "bt_insert k v (bt_remove k m) = m"
  using assms by (intro bt_ext) (auto simp: fun_eq_iff)

subsection \<open>Sums over maps\<close>

definition bt_sum :: "('k \<Rightarrow> 'v \<Rightarrow> nat) \<Rightarrow> ('k, 'v) btree \<Rightarrow> nat" where
  "bt_sum f m = sum_list (map (\<lambda>(k, v). f k v) m)"

lemma bt_sum_Nil [simp]: "bt_sum f [] = 0"
  by (simp add: bt_sum_def)

lemma bt_sum_Cons [simp]: "bt_sum f ((k, v) # m) = f k v + bt_sum f m"
  by (simp add: bt_sum_def)

lemma bt_sum_remove:
  "bt_wf m \<Longrightarrow> bt_sum f m = bt_sum f (bt_remove k m) + (case map_of m k of None \<Rightarrow> 0 | Some v \<Rightarrow> f k v)"
proof (induction m)
  case Nil
  then show ?case by (simp add: bt_remove_def)
next
  case (Cons e m)
  obtain l w where e: "e = (l, w)" by (cases e)
  show ?case
  proof (cases "l = k")
    case True
    then have "bt_remove k m = m"
      using Cons.prems e by (auto simp: bt_remove_def bt_wf_Cons filter_id_conv)
    then show ?thesis using True e by (simp add: bt_remove_def)
  next
    case False
    then show ?thesis using Cons e by (simp add: bt_remove_def bt_wf_Cons)
  qed
qed

lemma bt_sum_insert:
  assumes "bt_wf m"
  shows "bt_sum f (bt_insert k v m) = bt_sum f (bt_remove k m) + f k v"
proof -
  have "bt_remove k (bt_insert k v m) = bt_remove k m"
    using assms by (intro bt_ext) (auto simp: fun_eq_iff)
  then show ?thesis using bt_sum_remove [OF bt_wf_insert [OF assms], of f k v k] by simp
qed

lemma bt_sum_insert_new:
  assumes "bt_wf m" and "map_of m k = None"
  shows "bt_sum f (bt_insert k v m) = bt_sum f m + f k v"
  using assms bt_sum_remove [OF assms(1), of f k] by (simp add: bt_sum_insert)

lemma bt_sum_insert_old:
  assumes "bt_wf m" and "map_of m k = Some w" and "f k w = f k v"
  shows "bt_sum f (bt_insert k v m) = bt_sum f m"
  using assms bt_sum_remove [OF assms(1), of f k] by (simp add: bt_sum_insert)

lemma bt_sum_replace:
  assumes "bt_wf m" and "map_of m k = Some w"
  shows "bt_sum f (bt_insert k v m) + f k w = bt_sum f m + f k v"
  using bt_sum_remove [OF assms(1), of f k] bt_sum_insert [OF assms(1), of f k v] assms(2) by simp

lemma bt_sum_cong:
  "(\<And>k v. (k, v) \<in> set m \<Longrightarrow> f k v = g k v) \<Longrightarrow> bt_sum f m = bt_sum g m"
  by (induction m) auto

lemma bt_sum_keys: "bt_sum (\<lambda>k _. f k) m = sum_list (map f (bt_keys m))"
  by (induction m) (auto simp: bt_keys_def)

lemma bt_sum_ge:
  assumes "bt_wf m" and "map_of m k = Some w"
  shows "f k w \<le> bt_sum f m"
  using bt_sum_remove [OF assms(1), of f k] assms(2) by simp

lemma bt_sum_map_value:
  "(\<And>k v. (k, v) \<in> set m \<Longrightarrow> g k (h k v) = f k v) \<Longrightarrow>
   bt_sum g (map (\<lambda>(k, v). (k, h k v)) m) = bt_sum f m"
  by (induction m) auto

lemmas bt_specs = map_of_bt_insert map_of_bt_remove bt_wf_insert bt_wf_remove bt_wf_Nil

section \<open>The map interface\<close>

text \<open>
  What a client relies on of a map: lookup after insertion and removal, and that both keep the
  representation invariant. The client lemma is the meaning of a batch of keyed updates, each of
  which replaces or deletes one key when a guard on the current value allows it.
\<close>

locale keyed_map =
  fixes get :: "'m \<Rightarrow> 'k \<Rightarrow> 'v option"
    and put :: "'k \<Rightarrow> 'v \<Rightarrow> 'm \<Rightarrow> 'm"
    and del :: "'k \<Rightarrow> 'm \<Rightarrow> 'm"
    and invar :: "'m \<Rightarrow> bool"
  assumes get_put: "invar m \<Longrightarrow> get (put k v m) l = (if l = k then Some v else get m l)"
    and get_del: "invar m \<Longrightarrow> get (del k m) l = (if l = k then None else get m l)"
    and invar_put: "invar m \<Longrightarrow> invar (put k v m)"
    and invar_del: "invar m \<Longrightarrow> invar (del k m)"
begin

lemmas map_laws = get_put get_del invar_put invar_del

lemma fold_put_invar: "invar m \<Longrightarrow> invar (fold (\<lambda>(k, v). put k v) es m)"
  by (induction es arbitrary: m) (auto simp: invar_put)

lemma fold_put_get:
  "invar m \<Longrightarrow> get (fold (\<lambda>(k, v). put k v) es m) l =
     (case map_of (rev es) l of None \<Rightarrow> get m l | Some v \<Rightarrow> Some v)"
proof (induction es arbitrary: m)
  case Nil
  then show ?case by simp
next
  case (Cons e es)
  obtain k v where e: "e = (k, v)" by (cases e)
  show ?case
    using Cons.prems Cons.IH [OF invar_put [OF Cons.prems], of k v] e
    by (auto simp: get_put map_add_def split: option.splits)
qed

lemma put_put_get: "invar m \<Longrightarrow> get (put k v (put k w m)) l = get (put k v m) l"
  by (simp add: map_laws)

lemma del_put_get: "invar m \<Longrightarrow> get (del k (put k w m)) l = get (del k m) l"
  by (simp add: map_laws)

end

interpretation bt: keyed_map "\<lambda>m. map_of m" bt_insert bt_remove bt_wf
  by unfold_locales auto

section \<open>State machines\<close>

text \<open>
  A component whose operations are steps: an initial state, the steps, and an invariant that holds
  initially and is kept by every step. The client lemma lifts it to every state of a run.
\<close>

inductive reach :: "('s \<Rightarrow> bool) \<Rightarrow> ('s \<Rightarrow> 's \<Rightarrow> bool) \<Rightarrow> 's \<Rightarrow> bool"
  for start :: "'s \<Rightarrow> bool" and step :: "'s \<Rightarrow> 's \<Rightarrow> bool" where
  reach_start: "start s \<Longrightarrow> reach start step s"
| reach_step: "reach start step s \<Longrightarrow> step s t \<Longrightarrow> reach start step t"

locale invariant_system =
  fixes start :: "'s \<Rightarrow> bool"
    and step :: "'s \<Rightarrow> 's \<Rightarrow> bool"
    and inv :: "'s \<Rightarrow> bool"
  assumes inv_start: "start s \<Longrightarrow> inv s"
    and inv_step: "inv s \<Longrightarrow> step s t \<Longrightarrow> inv t"
begin

lemma reach_inv: "reach start step s \<Longrightarrow> inv s"
  by (induction rule: reach.induct) (auto intro: inv_start inv_step)

lemma steps_inv: "inv s \<Longrightarrow> step\<^sup>*\<^sup>* s t \<Longrightarrow> inv t"
  by (rotate_tac, induction rule: rtranclp_induct) (auto intro: inv_step)

end

section \<open>Integers as bytes\<close>

text \<open>\<open>to_le_bytes\<close>, \<open>from_le_bytes\<close> and \<open>to_be_bytes\<close> of an unsigned integer of \<open>n\<close> bytes.\<close>

fun le_bytes :: "nat \<Rightarrow> nat \<Rightarrow> bytes" where
  "le_bytes 0 x = []"
| "le_bytes (Suc n) x = word_of_nat (x mod 256) # le_bytes n (x div 256)"

fun le_nat :: "bytes \<Rightarrow> nat" where
  "le_nat [] = 0"
| "le_nat (b # bs) = unat b + 256 * le_nat bs"

definition be_bytes :: "nat \<Rightarrow> nat \<Rightarrow> bytes" where
  "be_bytes n x = rev (le_bytes n x)"

lemma length_le_bytes [simp]: "length (le_bytes n x) = n"
  by (induction n arbitrary: x) auto

lemma length_be_bytes [simp]: "length (be_bytes n x) = n"
  by (simp add: be_bytes_def)

lemma unat_byte_mod [simp]: "unat (word_of_nat (x mod 256) :: byte) = x mod 256"
  by (simp add: unat_of_nat)

lemma le_nat_le_bytes: "x < 256 ^ n \<Longrightarrow> le_nat (le_bytes n x) = x"
proof (induction n arbitrary: x)
  case 0
  then show ?case by simp
next
  case (Suc n)
  then have "x div 256 < 256 ^ n" by (simp add: less_mult_imp_div_less mult.commute)
  then show ?case by (simp add: Suc.IH del: of_nat_mod)
qed

lemma le_nat_bound: "le_nat bs < 256 ^ length bs"
proof (induction bs)
  case Nil
  then show ?case by simp
next
  case (Cons b bs)
  have "unat b < 256" using unsigned_less [of b, where ?'a = nat] by simp
  with Cons show ?case by simp
qed

lemma le_bytes_le_nat: "le_bytes (length bs) (le_nat bs) = bs"
proof (induction bs)
  case Nil
  then show ?case by simp
next
  case (Cons b bs)
  have b: "unat b < 256" using unsigned_less [of b, where ?'a = nat] by simp
  then have "(unat b + 256 * le_nat bs) mod 256 = unat b"
    and "(unat b + 256 * le_nat bs) div 256 = le_nat bs" by simp_all
  then show ?case using Cons by (simp del: of_nat_mod of_nat_add)
qed

lemma le_bytes_inject:
  "x < 256 ^ n \<Longrightarrow> y < 256 ^ n \<Longrightarrow> le_bytes n x = le_bytes n y \<longleftrightarrow> x = y"
  by (metis le_nat_le_bytes)

lemma be_bytes_inject:
  "x < 256 ^ n \<Longrightarrow> y < 256 ^ n \<Longrightarrow> be_bytes n x = be_bytes n y \<longleftrightarrow> x = y"
  by (simp add: be_bytes_def le_bytes_inject)

section \<open>Sorted slices\<close>

text \<open>
  \<open>sort_unstable\<close> followed by \<open>dedup\<close>, and the search loop of \<open>slice::binary_search_by\<close>: the
  window \<open>[base, base + size)\<close> is halved until one element is left.
\<close>

definition sort_dedup :: "'a::linorder list \<Rightarrow> 'a list" where
  "sort_dedup xs = remdups_adj (sort xs)"

function bsearch_loop :: "'a::linorder list \<Rightarrow> 'a \<Rightarrow> nat \<Rightarrow> nat \<Rightarrow> nat" where
  "bsearch_loop xs x base len =
     (if len \<le> 1 then base
      else let half = len div 2; mid = base + half
           in bsearch_loop xs x (if xs ! mid > x then base else mid) (len - half))"
  by pat_completeness auto
termination
  by (relation "measure (\<lambda>(xs, x, base, len). len)") auto

declare bsearch_loop.simps [simp del]

definition binary_search :: "'a::linorder list \<Rightarrow> 'a \<Rightarrow> bool" where
  "binary_search xs x = (xs \<noteq> [] \<and> xs ! bsearch_loop xs x 0 (length xs) = x)"

lemma set_sort_dedup [simp]: "set (sort_dedup xs) = set xs"
  by (simp add: sort_dedup_def)

lemma sorted_wrt_less_sort_dedup: "sorted_wrt (<) (sort_dedup xs)"
proof -
  have "sorted ys \<Longrightarrow> sorted_wrt (<) (remdups_adj ys)" for ys :: "'a list"
    by (induction ys rule: remdups_adj.induct) (auto simp: less_le)
  then show ?thesis by (simp add: sort_dedup_def)
qed

lemma strict_sorted_eqI:
  fixes xs :: "'a::linorder list"
  shows "sorted_wrt (<) xs \<Longrightarrow> sorted_wrt (<) ys \<Longrightarrow> set xs = set ys \<Longrightarrow> xs = ys"
  by (metis sorted_distinct_set_unique strict_sorted_iff)

lemma sort_dedup_cong: "set xs = set ys \<Longrightarrow> sort_dedup xs = sort_dedup ys"
  by (rule strict_sorted_eqI) (auto intro: sorted_wrt_less_sort_dedup)

lemma sort_dedup_id: "sorted_wrt (<) xs \<Longrightarrow> sort_dedup xs = xs"
  by (rule strict_sorted_eqI) (auto intro: sorted_wrt_less_sort_dedup)

text \<open>The loop keeps the searched element inside its window.\<close>

lemma bsearch_loop_finds:
  assumes sorted: "sorted_wrt (<) xs" and x: "xs ! i = x"
    and win: "base \<le> i" "i < base + len" "base + len \<le> length xs"
  shows "bsearch_loop xs x base len = i"
  using win
proof (induction len arbitrary: base rule: less_induct)
  case (less len)
  show ?case
  proof (cases "len \<le> 1")
    case True
    then show ?thesis using less.prems by (simp add: bsearch_loop.simps)
  next
    case False
    define half where "half = len div 2"
    have half: "0 < half" "half < len" using False by (auto simp: half_def)
    have "xs ! (base + half) > x \<longleftrightarrow> i < base + half"
    proof
      show "i < base + half" if "xs ! (base + half) > x"
      proof (rule ccontr)
        assume "\<not> i < base + half"
        then have "base + half = i \<or> xs ! (base + half) < xs ! i"
          using sorted_wrt_nth_less [OF sorted, of "base + half" i] less.prems by linarith
        then show False using that x by auto
      qed
      show "xs ! (base + half) > x" if "i < base + half"
        using that sorted_wrt_nth_less [OF sorted that] less.prems half x by simp
    qed
    moreover have "bsearch_loop xs x base len =
        bsearch_loop xs x (if xs ! (base + half) > x then base else base + half) (len - half)"
      using False by (subst bsearch_loop.simps) (simp add: half_def Let_def)
    ultimately show ?thesis
      using less.IH [of "len - half"] less.prems half False half_def by auto
  qed
qed

lemma bsearch_loop_bound: "0 < len \<Longrightarrow> bsearch_loop xs x base len < base + len"
proof (induction len arbitrary: base rule: less_induct)
  case (less len)
  show ?case
  proof (cases "len \<le> 1")
    case True
    then show ?thesis using less.prems by (simp add: bsearch_loop.simps)
  next
    case False
    define half where "half = len div 2"
    have half: "0 < half" "half < len" using False by (auto simp: half_def)
    have "bsearch_loop xs x base (len - half) < base + (len - half)"
      and "bsearch_loop xs x (base + half) (len - half) < base + half + (len - half)"
      using less.IH [of "len - half" base] less.IH [of "len - half" "base + half"] half by auto
    moreover have "bsearch_loop xs x base len =
        bsearch_loop xs x (if xs ! (base + half) > x then base else base + half) (len - half)"
      using False by (subst bsearch_loop.simps) (simp add: half_def Let_def)
    ultimately show ?thesis using half by auto
  qed
qed

lemma binary_search_iff:
  assumes "sorted_wrt (<) xs"
  shows "binary_search xs x \<longleftrightarrow> x \<in> set xs"
proof
  assume "binary_search xs x"
  then show "x \<in> set xs"
    unfolding binary_search_def
    using bsearch_loop_bound [of "length xs" xs x 0] nth_mem [of "bsearch_loop xs x 0 (length xs)" xs]
    by auto
next
  assume "x \<in> set xs"
  then obtain i where "i < length xs" "xs ! i = x" by (auto simp: in_set_conv_nth)
  then show "binary_search xs x"
    unfolding binary_search_def using bsearch_loop_finds [OF assms, of i x 0 "length xs"] by auto
qed

end
