(* ===== verification/State_Identity.thy ===== *)
theory State_Identity
  imports Orbit_Prelude
begin

text \<open>
  The crate \<open>orbitkv-state\<close> without its recovery contracts: storage identity and cache keys
  (\<open>key.rs\<close>), state components (\<open>component.rs\<close>), storage and state formats (\<open>format.rs\<close>),
  inventory scopes and records (\<open>inventory.rs\<close>), replica locations and the discovery bounds
  (\<open>discovery.rs\<close>).

  SHA-256 and the JSON serializer are parameters \<open>sha\<close> and \<open>json\<close>; the compiler's
  \<open>size_of\<close> values are parameters as well. Structures the program orders (\<open>derive(Ord)\<close>)
  are instances of \<open>linorder\<close> with the derived order: by declaration order of the constructors,
  then field by field.
\<close>

section \<open>Components and formats\<close>

datatype state_component =
    AttentionKv
  | MlaKv
  | RecurrentCheckpoint
  | ConvolutionState
  | SlidingWindowKv
  | DraftKv
  | IndexerState
  | OpaqueComponent bytes

datatype scalar16 = Bf16 | Fp16

datatype attention_role = KeyRole | ValueRole | KeyValue | PackedKeyValue

datatype storage_format =
    Exact
  | Fp8FromBf16
  | Fp8FromFp16
  | Attention scalar16 attention_role nat nat nat
  | Ans
  | Ans16
  | AnsFp8
  | Fp8Native
  | TurboQuant scalar16 attention_role nat nat nat

datatype state_dtype = Fp8E4M3 | Fp8E5M2 | DBf16 | DFp16 | DFp32 | DInt8 | OpaqueDType bytes

datatype state_layout =
  MhaLayerFirst | MhaPageFirst | MlaCompressed | Recurrent | OpaqueLayout bytes

record state_format =
  model_digest :: bytes
  implementation_digest :: bytes
  dtype :: state_dtype
  layout :: state_layout
  block_tokens :: nat
  tensor_parallel_size :: nat
  pipeline_parallel_size :: nat
  context_parallel_size :: nat

text \<open>The derived order of \<open>StorageFormat\<close>, as the lexicographic order of a key.\<close>

fun scalar16_key :: "scalar16 \<Rightarrow> nat" where
  "scalar16_key Bf16 = 0"
| "scalar16_key Fp16 = 1"

fun attention_role_key :: "attention_role \<Rightarrow> nat" where
  "attention_role_key KeyRole = 0"
| "attention_role_key ValueRole = 1"
| "attention_role_key KeyValue = 2"
| "attention_role_key PackedKeyValue = 3"

fun storage_format_key :: "storage_format \<Rightarrow> nat list" where
  "storage_format_key Exact = [0]"
| "storage_format_key Fp8FromBf16 = [1]"
| "storage_format_key Fp8FromFp16 = [2]"
| "storage_format_key (Attention s r d i n) = [3, scalar16_key s, attention_role_key r, d, i, n]"
| "storage_format_key Ans = [4]"
| "storage_format_key Ans16 = [5]"
| "storage_format_key AnsFp8 = [6]"
| "storage_format_key Fp8Native = [7]"
| "storage_format_key (TurboQuant s r d i n) = [8, scalar16_key s, attention_role_key r, d, i, n]"

lemma scalar16_key_inject [simp]: "scalar16_key a = scalar16_key b \<longleftrightarrow> a = b"
  by (cases a; cases b) simp_all

lemma attention_role_key_inject [simp]: "attention_role_key a = attention_role_key b \<longleftrightarrow> a = b"
  by (cases a; cases b) simp_all

lemma storage_format_key_inject [simp]: "storage_format_key a = storage_format_key b \<longleftrightarrow> a = b"
  by (cases a; cases b) auto

section \<open>Storage identity\<close>

datatype storage_slot =
  StorageSlot (slot_format: storage_format) (slot_layer: bytes) (slot_group: nat)
    (slot_tp_rank: nat) (slot_pp_rank: nat) (slot_segment_bytes: nat)
    (slot_padded_block_bytes: nat) (slot_split: bool)

definition storage_slot_key ::
  "storage_slot \<Rightarrow> nat list \<times> bytes \<times> nat \<times> nat \<times> nat \<times> nat \<times> nat \<times> bool" where
  "storage_slot_key s =
     (storage_format_key (slot_format s), slot_layer s, slot_group s, slot_tp_rank s,
      slot_pp_rank s, slot_segment_bytes s, slot_padded_block_bytes s, slot_split s)"

lemma storage_slot_key_inject [simp]: "storage_slot_key a = storage_slot_key b \<longleftrightarrow> a = b"
  by (cases a; cases b) (simp add: storage_slot_key_def)

instantiation storage_slot :: linorder
begin

definition less_eq_storage_slot :: "storage_slot \<Rightarrow> storage_slot \<Rightarrow> bool" where
  "less_eq_storage_slot a b = (storage_slot_key a \<le> storage_slot_key b)"

definition less_storage_slot :: "storage_slot \<Rightarrow> storage_slot \<Rightarrow> bool" where
  "less_storage_slot a b = (storage_slot_key a < storage_slot_key b)"

instance
  by standard
    (auto simp: less_eq_storage_slot_def less_storage_slot_def less_le_not_le
      dest: order.antisym)

end

text \<open>Lower-case hexadecimal digits of a digest (\<open>{:x}\<close>).\<close>

definition hex_digit :: "nat \<Rightarrow> byte" where
  "hex_digit n = (if n < 10 then word_of_nat (48 + n) else word_of_nat (87 + n))"

definition hex_bytes :: "bytes \<Rightarrow> bytes" where
  "hex_bytes bs = concat (map (\<lambda>b. [hex_digit (unat b div 16), hex_digit (unat b mod 16)]) bs)"

definition storage_namespace ::
  "(bytes \<Rightarrow> bytes) \<Rightarrow> (bytes \<times> bool \<times> storage_slot list \<Rightarrow> bytes) \<Rightarrow>
   bytes \<Rightarrow> bool \<Rightarrow> storage_slot list \<Rightarrow> bytes" where
  "storage_namespace sha json identity page_first slots =
     ascii ''orbitkv:v2:'' @
     hex_bytes (sha (ascii ''orbitkv.storage-identity.v2'' @ [0] @
       json (identity, page_first, sort_dedup slots)))"

definition generation_hash :: "(bytes \<Rightarrow> bytes) \<Rightarrow> bytes \<Rightarrow> bytes \<Rightarrow> bytes" where
  "generation_hash sha h generation =
     sha (ascii ''orbitkv.prefix-generation.v1'' @ [0] @ generation @ le_bytes 8 (length h) @ h)"

definition strip_prefix :: "bytes \<Rightarrow> bytes \<Rightarrow> bytes option" where
  "strip_prefix p s = (if take (length p) s = p then Some (drop (length p) s) else None)"

definition is_hex_byte :: "byte \<Rightarrow> bool" where
  "is_hex_byte b \<longleftrightarrow> (48 \<le> unat b \<and> unat b \<le> 57) \<or> (97 \<le> unat b \<and> unat b \<le> 102)"

definition is_storage_namespace :: "bytes \<Rightarrow> bool" where
  "is_storage_namespace ns =
     (case strip_prefix (ascii ''orbitkv:v2:'') ns of
        None \<Rightarrow> False
      | Some digest \<Rightarrow> length digest = 64 \<and> list_all is_hex_byte digest)"

section \<open>Token ranges and keys\<close>

record token_range =
  range_start :: nat
  range_end :: nat

datatype contract_error = InvalidTokenRange nat nat

definition token_range_new :: "nat \<Rightarrow> nat \<Rightarrow> contract_error + token_range" where
  "token_range_new s e =
     (if e < s then Inl (InvalidTokenRange s e) else Inr \<lparr>range_start = s, range_end = e\<rparr>)"

definition token_range_len :: "token_range \<Rightarrow> nat option" where
  "token_range_len r = usub (range_end r) (range_start r)"

definition token_range_is_empty :: "token_range \<Rightarrow> bool" where
  "token_range_is_empty r = (range_start r = range_end r)"

record state_descriptor =
  content :: bytes
  span :: token_range
  component :: state_component
  format :: state_format

datatype state_key = StateKey (namespace: bytes) (hash: bytes)

instantiation state_key :: linorder
begin

definition less_eq_state_key :: "state_key \<Rightarrow> state_key \<Rightarrow> bool" where
  "less_eq_state_key a b = ((namespace a, hash a) \<le> (namespace b, hash b))"

definition less_state_key :: "state_key \<Rightarrow> state_key \<Rightarrow> bool" where
  "less_state_key a b = ((namespace a, hash a) < (namespace b, hash b))"

instance
proof
  fix a b :: state_key
  show "a \<le> b \<Longrightarrow> b \<le> a \<Longrightarrow> a = b"
    unfolding less_eq_state_key_def by (metis order.antisym prod.inject state_key.expand)
qed (auto simp: less_eq_state_key_def less_state_key_def less_le_not_le
      simp del: less_eq_prod_simp less_prod_simp)

end

definition group_hash :: "bytes \<Rightarrow> nat \<Rightarrow> bytes" where
  "group_hash h group_id =
     ascii ''OKS'' @ [1] @ le_bytes 4 group_id @ le_bytes 8 (length h) @ h"

section \<open>Replicas\<close>

datatype discovery_coverage = CompleteAtWatermarks | PartialHints | Unavailable

record cache_owner =
  endpoint :: bytes
  incarnation :: uuid

datatype replica_medium = UnknownMedium | Dram | Ssd | Hbm

fun replica_medium_key :: "replica_medium \<Rightarrow> nat" where
  "replica_medium_key UnknownMedium = 0"
| "replica_medium_key Dram = 1"
| "replica_medium_key Ssd = 2"
| "replica_medium_key Hbm = 3"

lemma replica_medium_key_inject [simp]: "replica_medium_key a = replica_medium_key b \<longleftrightarrow> a = b"
  by (cases a; cases b) simp_all

instantiation replica_medium :: linorder
begin

definition less_eq_replica_medium :: "replica_medium \<Rightarrow> replica_medium \<Rightarrow> bool" where
  "less_eq_replica_medium a b = (replica_medium_key a \<le> replica_medium_key b)"

definition less_replica_medium :: "replica_medium \<Rightarrow> replica_medium \<Rightarrow> bool" where
  "less_replica_medium a b = (replica_medium_key a < replica_medium_key b)"

instance
  by standard
    (auto simp: less_eq_replica_medium_def less_replica_medium_def less_le_not_le
      dest: order.antisym)

end

datatype replica_representation =
  UnknownRepresentation | Raw | AnsRepresentation | Fp8 | TurboQuantRepresentation | Mixed

fun representation_of :: "storage_format \<Rightarrow> replica_representation" where
  "representation_of Ans = AnsRepresentation"
| "representation_of Ans16 = AnsRepresentation"
| "representation_of AnsFp8 = AnsRepresentation"
| "representation_of Fp8FromBf16 = Fp8"
| "representation_of Fp8FromFp16 = Fp8"
| "representation_of (TurboQuant _ _ _ _ _) = TurboQuantRepresentation"
| "representation_of _ = Raw"

record replica_metadata =
  medium :: replica_medium
  representation :: replica_representation
  stored_bytes :: "nat option"

record replica_location =
  loc_owner :: cache_owner
  loc_sequence :: nat
  loc_metadata :: replica_metadata

record block_candidates =
  cand_key :: state_key
  cand_replicas :: "replica_location list"
  cand_coverage :: discovery_coverage

definition DISCOVERY_MAX_KEYS :: nat where "DISCOVERY_MAX_KEYS = 128"
definition DISCOVERY_MAX_BYTES :: nat where "DISCOVERY_MAX_BYTES = 65536"
definition DISCOVERY_MAX_REPLICAS_PER_MEDIUM :: nat where "DISCOVERY_MAX_REPLICAS_PER_MEDIUM = 4"

text \<open>The byte count of a discovery query, with the overflow check of each addition.\<close>

fun discovery_query_bytes :: "nat \<Rightarrow> bytes list \<Rightarrow> string + nat" where
  "discovery_query_bytes n [] = Inr n"
| "discovery_query_bytes n (h # hs) =
     (if h = [] then Inl ''empty discovery hash''
      else rbind (ok_or (checked_add n (length h)) ''discovery size overflow'')
             (\<lambda>m. discovery_query_bytes m hs))"

definition validate_discovery_query :: "bytes \<Rightarrow> bytes list \<Rightarrow> string + unit" where
  "validate_discovery_query ns hashes =
     (if ns = [] \<or> hashes = [] \<or> length hashes > DISCOVERY_MAX_KEYS
      then Inl ''invalid discovery key count or namespace''
      else rbind (discovery_query_bytes (length ns) hashes)
             (\<lambda>n. if n > DISCOVERY_MAX_BYTES
                  then Inl ''discovery query byte limit exceeded'' else Inr ()))"

section \<open>Inventory scopes and records\<close>

definition INVENTORY_BATCH_BYTES :: nat where "INVENTORY_BATCH_BYTES = 524288"
definition INVENTORY_BATCH_RECORDS :: nat where "INVENTORY_BATCH_RECORDS = 1024"
definition INVENTORY_OPEN_MAX_BYTES :: nat where "INVENTORY_OPEN_MAX_BYTES = 65536"
definition INVENTORY_SCOPE_MAX_NAMESPACES :: nat where "INVENTORY_SCOPE_MAX_NAMESPACES = 256"

definition INVENTORY_SCOPE_DOMAIN :: bytes where
  "INVENTORY_SCOPE_DOMAIN = ascii ''orbitkv/inventory-scope/v1'' @ [0]"

datatype inventory_scope = AllNamespaces | ExactNamespaces "bytes list"

fun scope_canonical_bytes :: "inventory_scope \<Rightarrow> bytes" where
  "scope_canonical_bytes AllNamespaces = INVENTORY_SCOPE_DOMAIN @ [0]"
| "scope_canonical_bytes (ExactNamespaces nss) =
     INVENTORY_SCOPE_DOMAIN @ [1] @ be_bytes 4 (length nss) @
     concat (map (\<lambda>ns. be_bytes 4 (length ns) @ ns) nss)"

definition scope_exact :: "bytes list \<Rightarrow> string + inventory_scope" where
  "scope_exact nss =
     (if [] \<in> set nss then Inl ''inventory scope contains an empty namespace''
      else let ns = sort_dedup nss in
        if length ns > INVENTORY_SCOPE_MAX_NAMESPACES
        then Inl ''inventory scope exceeds 256 namespaces''
        else let s = ExactNamespaces ns in
          if length (scope_canonical_bytes s) > INVENTORY_OPEN_MAX_BYTES
          then Inl ''inventory scope descriptor exceeds 65536 bytes''
          else Inr s)"

fun scope_contains :: "inventory_scope \<Rightarrow> bytes \<Rightarrow> bool" where
  "scope_contains AllNamespaces ns = True"
| "scope_contains (ExactNamespaces nss) ns = binary_search nss ns"

fun scope_namespaces :: "inventory_scope \<Rightarrow> bytes list option" where
  "scope_namespaces AllNamespaces = None"
| "scope_namespaces (ExactNamespaces nss) = Some nss"

definition scope_digest :: "(bytes \<Rightarrow> bytes) \<Rightarrow> inventory_scope \<Rightarrow> bytes" where
  "scope_digest sha s = sha (scope_canonical_bytes s)"

fun scope_label :: "inventory_scope \<Rightarrow> string" where
  "scope_label AllNamespaces = ''all_namespaces''"
| "scope_label (ExactNamespaces nss) = (if nss = [] then ''no_namespaces'' else ''exact_namespaces'')"

record inventory_record =
  rec_key :: state_key
  rec_sequence :: nat
  rec_present :: bool
  rec_metadata :: "replica_metadata option"

text \<open>\<open>size_of::<InventoryRecord>()\<close> is the parameter \<open>sz\<close>.\<close>

definition record_estimated_size :: "nat \<Rightarrow> inventory_record \<Rightarrow> nat" where
  "record_estimated_size sz r = sz + length (namespace (rec_key r)) + length (hash (rec_key r))"

section \<open>Lemmas\<close>

lemma length_ascii [simp]: "length (ascii s) = length s"
  by (simp add: ascii_def)

lemma length_hex_bytes [simp]: "length (hex_bytes bs) = 2 * length bs"
  by (induction bs) (auto simp: hex_bytes_def)

lemma is_hex_byte_hex_digit: "n < 16 \<Longrightarrow> is_hex_byte (hex_digit n)"
  by (auto simp: is_hex_byte_def hex_digit_def unat_of_nat simp del: of_nat_add)

lemma list_all_hex_bytes: "list_all is_hex_byte (hex_bytes bs)"
proof (induction bs)
  case Nil
  then show ?case by (simp add: hex_bytes_def)
next
  case (Cons b bs)
  have "unat b < 256" using unsigned_less [of b, where ?'a = nat] by simp
  then have "unat b div 16 < 16" by simp
  then show ?case using Cons by (simp add: hex_bytes_def is_hex_byte_hex_digit)
qed

text \<open>Length-framed strings are a uniquely decodable code.\<close>

lemma framed_concat_inject:
  assumes "length xs = length ys"
    and "\<forall>x \<in> set xs \<union> set ys. length x < 256 ^ 4"
    and "concat (map (\<lambda>x. be_bytes 4 (length x) @ x) xs) =
         concat (map (\<lambda>x. be_bytes 4 (length x) @ x) (ys :: bytes list))"
  shows "xs = ys"
  using assms
proof (induction xs ys rule: list_induct2)
  case Nil
  then show ?case by simp
next
  case (Cons x xs y ys)
  then have "length x = length y"
    by (simp add: append_eq_append_conv be_bytes_inject)
  then show ?case using Cons by simp
qed

lemma scope_exact_Inr:
  assumes "scope_exact nss = Inr s"
  shows "s = ExactNamespaces (sort_dedup nss)" and "[] \<notin> set nss"
    and "length (sort_dedup nss) \<le> INVENTORY_SCOPE_MAX_NAMESPACES"
    and "length (scope_canonical_bytes s) \<le> INVENTORY_OPEN_MAX_BYTES"
  using assms by (auto simp: scope_exact_def Let_def split: if_splits)

lemma discovery_query_bytes_Inr:
  "discovery_query_bytes n hs = Inr m \<Longrightarrow> m = n + sum_list (map length hs) \<and> [] \<notin> set hs"
proof (induction n hs rule: discovery_query_bytes.induct)
  case (1 n)
  then show ?case by simp
next
  case (2 n h hs)
  then have "h \<noteq> []" and "discovery_query_bytes (n + length h) hs = Inr m"
    by (auto simp: rbind_eq_Inr_iff ok_or_eq_Inr_iff checked_add_def split: if_splits)
  with "2.IH" [of "n + length h"] show ?case by auto
qed

lemma discovery_query_bytes_complete:
  "[] \<notin> set hs \<Longrightarrow> n + sum_list (map length hs) \<le> u64_max \<Longrightarrow>
   discovery_query_bytes n hs = Inr (n + sum_list (map length hs))"
  by (induction n hs rule: discovery_query_bytes.induct) (auto simp: checked_add_def)

section \<open>Properties\<close>

text \<open>
  C32. the cache key of a group's page determines the engine's hash and the group: for 32-bit group
  ids, no two distinct (hash, group) pairs share an encoding, whatever their lengths.
\<close>

theorem group_hash_injective:
  assumes "g < 2 ^ 32" and "g' < 2 ^ 32"
    and "length h \<le> isize_max" and "length h' \<le> isize_max"
  shows "group_hash h g = group_hash h' g' \<longleftrightarrow> h = h' \<and> g = g'"
proof
  assume "group_hash h g = group_hash h' g'"
  then have "le_bytes 4 g = le_bytes 4 g'" and "h = h'"
    by (simp_all add: group_hash_def append_eq_append_conv)
  then show "h = h' \<and> g = g'"
    using assms by (simp add: le_bytes_inject)
qed simp

theorem group_hash_injective_witness:
  "group_hash [1, 2] 0 \<noteq> group_hash [1, 2] 1"
  using group_hash_injective [of 0 1 "[1, 2]" "[1, 2]"] by (simp add: isize_max_def)

text \<open>
  C33. a scope built from a list of namespaces contains exactly those namespaces (the binary search
  over the sorted, deduplicated list is membership in the input), and does not depend on the
  input's order or repetitions.
\<close>

theorem scope_exact_contains:
  assumes "scope_exact nss = Inr s"
  shows "(\<forall>ns. scope_contains s ns \<longleftrightarrow> ns \<in> set nss) \<and>
    (\<forall>nss'. set nss' = set nss \<longrightarrow> scope_exact nss' = Inr s)"
proof (intro conjI allI impI)
  note s = scope_exact_Inr [OF assms]
  show "scope_contains s ns \<longleftrightarrow> ns \<in> set nss" for ns
    by (simp add: s(1) binary_search_iff sorted_wrt_less_sort_dedup)
  fix nss' assume "set nss' = set nss"
  then have "sort_dedup nss' = sort_dedup nss" by (rule sort_dedup_cong)
  then show "scope_exact nss' = Inr s"
    using s \<open>set nss' = set nss\<close> by (simp add: scope_exact_def)
qed

theorem scope_exact_contains_witness:
  "\<exists>s. scope_exact [[2], [1], [2]] = Inr s \<and> scope_contains s [1] \<and> \<not> scope_contains s [3] \<and>
       scope_exact [[1], [2]] = Inr s"
proof -
  have e: "scope_exact [[2], [1], [2]] = Inr (ExactNamespaces [[1], [2]])"
    by (simp add: scope_exact_def sort_dedup_def INVENTORY_SCOPE_MAX_NAMESPACES_def
        INVENTORY_OPEN_MAX_BYTES_def INVENTORY_SCOPE_DOMAIN_def)
  have "set [[1], [2]] = set [[2], [1], [2 :: byte]]" by auto
  with e scope_exact_contains [OF e] show ?thesis by fastforce
qed

text \<open>
  C31. the canonical descriptor that owners and consumers hash into the scope digest identifies the
  scope: two scopes with the same bytes are equal.
\<close>

theorem scope_canonical_bytes_injective:
  assumes "scope_exact nss = Inr s" and "scope_exact nss' = Inr s'"
  shows "(scope_canonical_bytes s = scope_canonical_bytes s' \<longleftrightarrow> s = s') \<and>
    scope_canonical_bytes s \<noteq> scope_canonical_bytes AllNamespaces"
proof (rule conjI)
  note s = scope_exact_Inr [OF assms(1)] and s' = scope_exact_Inr [OF assms(2)]
  have small: "length x < 256 ^ 4"
    if "x \<in> set xs" and "length (scope_canonical_bytes (ExactNamespaces xs)) \<le> INVENTORY_OPEN_MAX_BYTES"
    for x xs
  proof -
    have "length x \<le> length (concat (map (\<lambda>ns. be_bytes 4 (length ns) @ ns) xs))"
      using that(1) by (induction xs) auto
    then show ?thesis using that(2) by (simp add: INVENTORY_OPEN_MAX_BYTES_def)
  qed
  have len: "length xs < 256 ^ 4" if "length xs \<le> INVENTORY_SCOPE_MAX_NAMESPACES" for xs :: "bytes list"
    using that by (simp add: INVENTORY_SCOPE_MAX_NAMESPACES_def)
  show "scope_canonical_bytes s = scope_canonical_bytes s' \<longleftrightarrow> s = s'"
  proof
    assume eq: "scope_canonical_bytes s = scope_canonical_bytes s'"
    then have "length (sort_dedup nss) = length (sort_dedup nss')"
      using len [OF s(3)] len [OF s'(3)] by (simp add: s(1) s'(1) append_eq_append_conv be_bytes_inject)
    moreover have "\<forall>x \<in> set (sort_dedup nss) \<union> set (sort_dedup nss'). length x < 256 ^ 4"
      using small [OF _ s(4) [unfolded s(1)]] small [OF _ s'(4) [unfolded s'(1)]] by blast
    moreover have "concat (map (\<lambda>x. be_bytes 4 (length x) @ x) (sort_dedup nss)) =
        concat (map (\<lambda>x. be_bytes 4 (length x) @ x) (sort_dedup nss'))"
      using eq by (simp add: s(1) s'(1) append_eq_append_conv)
    ultimately have "sort_dedup nss = sort_dedup nss'"
      by (rule framed_concat_inject)
    then show "s = s'" by (simp add: s(1) s'(1))
  qed simp
  show "scope_canonical_bytes s \<noteq> scope_canonical_bytes AllNamespaces"
    by (simp add: s(1))
qed

theorem scope_canonical_bytes_injective_witness:
  "\<exists>s s'. scope_exact [[1]] = Inr s \<and> scope_exact [[2]] = Inr s' \<and>
     scope_canonical_bytes s \<noteq> scope_canonical_bytes s'"
proof -
  have e: "scope_exact [[1]] = Inr (ExactNamespaces [[1]])"
    "scope_exact [[2]] = Inr (ExactNamespaces [[2]])"
    by (simp_all add: scope_exact_def sort_dedup_def INVENTORY_SCOPE_MAX_NAMESPACES_def
        INVENTORY_OPEN_MAX_BYTES_def INVENTORY_SCOPE_DOMAIN_def)
  from scope_canonical_bytes_injective [OF e] e show ?thesis by fastforce
qed

text \<open>
  C39. the storage namespace bound at registration is well formed, and depends on the registered
  slots as a set: neither their order nor repetitions change it.
\<close>

theorem storage_namespace_canonical:
  assumes "\<And>m. length (sha m) = 32"
  shows "is_storage_namespace (storage_namespace sha json identity page_first slots) \<and>
    (\<forall>slots'. set slots' = set slots \<longrightarrow>
       storage_namespace sha json identity page_first slots' =
       storage_namespace sha json identity page_first slots)"
proof (intro conjI allI impI)
  show "is_storage_namespace (storage_namespace sha json identity page_first slots)"
    by (simp add: is_storage_namespace_def storage_namespace_def strip_prefix_def assms
        list_all_hex_bytes)
  fix slots' assume "set slots' = set slots"
  then show "storage_namespace sha json identity page_first slots' =
      storage_namespace sha json identity page_first slots"
    by (simp add: storage_namespace_def sort_dedup_cong [of slots' slots])
qed

theorem storage_namespace_canonical_witness:
  "is_storage_namespace (storage_namespace (\<lambda>_. replicate 32 0) (\<lambda>_. []) [] True [])"
  using storage_namespace_canonical [of "\<lambda>_. replicate 32 0" "\<lambda>_. []" "[]" True "[]"] by simp

text \<open>
  C40. a discovery query is accepted exactly when it names between 1 and 128 non-empty hashes under a
  non-empty namespace and their total size is at most 64 KiB.
\<close>

theorem validate_discovery_query_iff:
  assumes "length ns + sum_list (map length hashes) \<le> u64_max"
  shows "validate_discovery_query ns hashes = Inr () \<longleftrightarrow>
    ns \<noteq> [] \<and> hashes \<noteq> [] \<and> length hashes \<le> 128 \<and> [] \<notin> set hashes \<and>
    length ns + sum_list (map length hashes) \<le> 65536"
proof (cases "[] \<in> set hashes")
  case True
  then show ?thesis
    by (auto simp: validate_discovery_query_def rbind_eq_Inr_iff dest: discovery_query_bytes_Inr)
next
  case False
  then show ?thesis
    using discovery_query_bytes_complete [OF False assms]
    by (auto simp: validate_discovery_query_def DISCOVERY_MAX_KEYS_def DISCOVERY_MAX_BYTES_def)
qed

theorem validate_discovery_query_iff_witness:
  "validate_discovery_query [1] [[2], [3]] = Inr ()"
  by (subst validate_discovery_query_iff) (simp_all add: u64_max_def)

end
