(* ===== verification/Recovery.thy ===== *)
theory Recovery
  imports State_Identity
begin

text \<open>
  Recovery contracts (\<open>orbitkv-state/src/bundle.rs\<close>): the rules a registration declares for its
  cache groups are compiled into a page demand per group; evidence of leased pages is checked
  against it; the legal recovery boundaries of several ranks are intersected.

  Token positions and page counts are \<open>u64\<close>, group ids \<open>u32\<close>, both as \<open>nat\<close>; every subtraction of
  the code stands behind the comparison that keeps it from underflowing. \<open>IndexPanic\<close> is the
  panic of indexing a map with a missing key.
\<close>

datatype recovery_rule = Prefix | Window nat | Checkpoint

record state_requirement =
  req_group :: nat
  req_components :: "state_component list"
  req_rule :: recovery_rule

record bundle_component =
  bc_group :: nat
  bc_page_ends :: "nat list"

record state_bundle =
  sb_namespace :: bytes
  sb_span :: token_range
  sb_components :: "bundle_component list"

record recovery_demand =
  rd_page_tokens :: nat
  rd_span :: token_range
  rd_groups :: "(nat \<times> token_range) list"

datatype recovery_error =
    InvalidContract string
  | IncompatibleNamespace
  | InvalidSpan
  | InvalidGroup nat
  | InvalidCoverage nat
  | IndexPanic

definition is_multiple_of :: "nat \<Rightarrow> nat \<Rightarrow> bool" where
  "is_multiple_of a b \<longleftrightarrow> a mod b = 0"

section \<open>Validation of a transmitted demand\<close>

fun validate_groups ::
  "recovery_demand \<Rightarrow> nat \<Rightarrow> nat option \<Rightarrow> nat option \<Rightarrow> (nat \<times> token_range) list \<Rightarrow>
   recovery_error + nat option" where
  "validate_groups d grp previous selected [] = Inr selected"
| "validate_groups d grp previous selected ((gid, rg) # rest) =
     (if (case previous of None \<Rightarrow> False | Some p \<Rightarrow> gid \<le> p) then Inl (InvalidGroup gid)
      else if range_start rg < range_start (rd_span d)
            \<or> range_start rg > range_end rg
            \<or> range_end rg \<noteq> range_end (rd_span d)
            \<or> \<not> is_multiple_of (range_start rg) (rd_page_tokens d)
            \<or> (token_range_is_empty rg \<and> \<not> token_range_is_empty (rd_span d))
           then Inl (InvalidCoverage gid)
      else validate_groups d grp (Some gid)
             (if gid = grp then Some ((range_end rg - range_start rg) div rd_page_tokens d)
              else selected) rest)"

definition demand_validate :: "recovery_demand \<Rightarrow> nat \<Rightarrow> nat \<Rightarrow> recovery_error + unit" where
  "demand_validate d grp blocks =
     (if rd_page_tokens d = 0
         \<or> range_end (rd_span d) < range_start (rd_span d)
         \<or> \<not> is_multiple_of (range_start (rd_span d)) (rd_page_tokens d)
         \<or> \<not> is_multiple_of (range_end (rd_span d)) (rd_page_tokens d)
      then Inl InvalidSpan
      else if (case rd_groups d of [] \<Rightarrow> True | g # _ \<Rightarrow> g \<noteq> (0, rd_span d)) then Inl (InvalidGroup 0)
      else rbind (validate_groups d grp None None (rd_groups d)) (\<lambda>selected.
           rbind (ok_or selected (InvalidGroup grp)) (\<lambda>pages.
             if blocks \<noteq> pages then Inl (InvalidCoverage grp) else Inr ())))"

section \<open>Compiling a contract\<close>

record recovery_contract =
  rc_namespace :: bytes
  rc_page_tokens :: nat
  rc_requirements :: "(nat, nat option) btree"

fun compatible :: "recovery_rule \<Rightarrow> state_component \<Rightarrow> bool" where
  "compatible Prefix AttentionKv = True"
| "compatible Prefix MlaKv = True"
| "compatible (Window _) SlidingWindowKv = True"
| "compatible Checkpoint RecurrentCheckpoint = True"
| "compatible Checkpoint ConvolutionState = True"
| "compatible _ _ = False"

fun rule_pages :: "nat \<Rightarrow> recovery_rule \<Rightarrow> nat option" where
  "rule_pages page_tokens Prefix = None"
| "rule_pages page_tokens (Window tokens) = Some (div_ceil tokens page_tokens)"
| "rule_pages page_tokens Checkpoint = Some 1"

fun compile_rules ::
  "nat \<Rightarrow> state_requirement list \<Rightarrow> (nat, nat option) btree \<Rightarrow>
   recovery_error + (nat, nat option) btree" where
  "compile_rules page_tokens [] rules = Inr rules"
| "compile_rules page_tokens (r # rs) rules =
     (if req_components r = [] then Inl (InvalidContract ''group has no state components'')
      else if \<not> list_all (compatible (req_rule r)) (req_components r)
           then Inl (InvalidContract ''unsupported component/recovery rule'')
      else if (case req_rule r of
                 Window tokens \<Rightarrow> tokens = 0 \<or> checked_add tokens (page_tokens - 1) = None
               | _ \<Rightarrow> False)
           then Inl (InvalidContract ''invalid sliding window'')
      else if map_of rules (req_group r) \<noteq> None then Inl (InvalidGroup (req_group r))
      else compile_rules page_tokens rs
             (bt_insert (req_group r) (rule_pages page_tokens (req_rule r)) rules))"

definition contract_compile ::
  "bytes \<Rightarrow> nat \<Rightarrow> state_requirement list \<Rightarrow> recovery_error + recovery_contract" where
  "contract_compile ns page_tokens requirements =
     (if ns = [] \<or> page_tokens = 0 \<or> requirements = []
      then Inl (InvalidContract ''empty identity, page size or requirements'')
      else rbind (compile_rules page_tokens requirements []) (\<lambda>rules.
        if map_of rules 0 \<noteq> Some None
        then Inl (InvalidContract ''group zero must supply the attention prefix'')
        else Inr \<lparr>rc_namespace = ns, rc_page_tokens = page_tokens, rc_requirements = rules\<rparr>))"

section \<open>Demand\<close>

definition validate_span ::
  "recovery_contract \<Rightarrow> bytes \<Rightarrow> token_range \<Rightarrow> recovery_error + unit" where
  "validate_span c ns sp =
     (if ns \<noteq> rc_namespace c then Inl IncompatibleNamespace
      else if range_end sp < range_start sp
            \<or> \<not> is_multiple_of (range_start sp) (rc_page_tokens c)
            \<or> \<not> is_multiple_of (range_end sp) (rc_page_tokens c)
           then Inl InvalidSpan
      else Inr ())"

definition required_span :: "recovery_contract \<Rightarrow> token_range \<Rightarrow> nat option \<Rightarrow> token_range" where
  "required_span c sp pages =
     (let count = min ((range_end sp - range_start sp) div rc_page_tokens c)
                      (case pages of None \<Rightarrow> u64_max | Some n \<Rightarrow> n)
      in \<lparr>range_start = range_end sp - count * rc_page_tokens c, range_end = range_end sp\<rparr>)"

definition required_ranges ::
  "recovery_contract \<Rightarrow> bytes \<Rightarrow> token_range \<Rightarrow> recovery_error + (nat \<times> token_range) list" where
  "required_ranges c ns sp =
     rbind (validate_span c ns sp) (\<lambda>_.
       Inr (map (\<lambda>(grp, pages). (grp, required_span c sp pages)) (rc_requirements c)))"

definition contract_demand ::
  "recovery_contract \<Rightarrow> bytes \<Rightarrow> token_range \<Rightarrow> recovery_error + recovery_demand" where
  "contract_demand c ns sp =
     rbind (required_ranges c ns sp) (\<lambda>groups.
       Inr \<lparr>rd_page_tokens = rc_page_tokens c, rd_span = sp, rd_groups = groups\<rparr>)"

definition read_range ::
  "recovery_contract \<Rightarrow> bytes \<Rightarrow> token_range \<Rightarrow> nat \<Rightarrow> nat \<Rightarrow> recovery_error + (nat \<times> nat)" where
  "read_range c ns sp grp batch_len =
     rbind (validate_span c ns sp) (\<lambda>_.
     rbind (ok_or (map_of (rc_requirements c) grp) (InvalidGroup grp)) (\<lambda>pages.
       let needed = required_span c sp pages;
           first = (range_start needed - range_start sp) div rc_page_tokens c;
           last = (range_end needed - range_start sp) div rc_page_tokens c
       in if last > batch_len then Inl InvalidSpan else Inr (first, last)))"

section \<open>Legal boundaries of one rank\<close>

fun check_page_ends ::
  "recovery_contract \<Rightarrow> token_range \<Rightarrow> nat \<Rightarrow> nat \<Rightarrow> nat list \<Rightarrow> recovery_error + unit" where
  "check_page_ends c sp grp previous [] = Inr ()"
| "check_page_ends c sp grp previous (e # es) =
     (if e \<le> previous \<or> e > range_end sp \<or> \<not> is_multiple_of e (rc_page_tokens c)
      then Inl (InvalidCoverage grp)
      else check_page_ends c sp grp e es)"

fun build_coverage ::
  "recovery_contract \<Rightarrow> token_range \<Rightarrow> bundle_component list \<Rightarrow> (nat, nat list) btree \<Rightarrow>
   recovery_error + (nat, nat list) btree" where
  "build_coverage c sp [] coverage = Inr coverage"
| "build_coverage c sp (b # bs) coverage =
     (if map_of (rc_requirements c) (bc_group b) = None \<or> map_of coverage (bc_group b) \<noteq> None
      then Inl (InvalidGroup (bc_group b))
      else rbind (check_page_ends c sp (bc_group b) (range_start sp) (bc_page_ends b)) (\<lambda>_.
             build_coverage c sp bs (bt_insert (bc_group b) (bc_page_ends b) coverage)))"

fun first_uncovered :: "nat list \<Rightarrow> (nat, nat list) btree \<Rightarrow> nat option" where
  "first_uncovered [] coverage = None"
| "first_uncovered (g # gs) coverage =
     (if map_of coverage g = None then Some g else first_uncovered gs coverage)"

text \<open>\<open>slice::partition_point\<close> of the predicate \<open>end <= bound\<close> on an ascending slice.\<close>

definition partition_point :: "nat list \<Rightarrow> nat \<Rightarrow> nat" where
  "partition_point es bound = length (takeWhile (\<lambda>e. e \<le> bound) es)"

definition group_complete ::
  "recovery_contract \<Rightarrow> token_range \<Rightarrow> nat \<Rightarrow> nat option \<Rightarrow> nat list \<Rightarrow> bool" where
  "group_complete c sp boundary pages es =
     (let needed = required_span c \<lparr>range_start = range_start sp, range_end = boundary\<rparr> pages;
          first = partition_point es (range_start needed);
          last = partition_point es (range_end needed)
      in last - first = (range_end needed - range_start needed) div rc_page_tokens c)"

text \<open>\<open>coverage[group]\<close> of a required group: \<open>first_uncovered\<close> has found none missing.\<close>

definition boundary_complete ::
  "recovery_contract \<Rightarrow> token_range \<Rightarrow> (nat, nat list) btree \<Rightarrow> nat \<Rightarrow> bool" where
  "boundary_complete c sp coverage boundary =
     list_all (\<lambda>(grp, pages).
       case map_of coverage grp of
         None \<Rightarrow> False
       | Some es \<Rightarrow> group_complete c sp boundary pages es) (rc_requirements c)"

fun boundary_loop ::
  "recovery_contract \<Rightarrow> token_range \<Rightarrow> (nat, nat list) btree \<Rightarrow> nat \<Rightarrow> nat list \<Rightarrow> nat list" where
  "boundary_loop c sp coverage index [] = []"
| "boundary_loop c sp coverage index (b # bs) =
     (if (b - range_start sp) div rc_page_tokens c \<noteq> index + 1 then []
      else (if boundary_complete c sp coverage b then [b] else []) @
           boundary_loop c sp coverage (index + 1) bs)"

definition restorable_boundaries :: "recovery_contract \<Rightarrow> state_bundle \<Rightarrow> recovery_error + nat list" where
  "restorable_boundaries c b =
     rbind (validate_span c (sb_namespace b) (sb_span b)) (\<lambda>_.
     rbind (build_coverage c (sb_span b) (sb_components b) []) (\<lambda>coverage.
       case first_uncovered (bt_keys (rc_requirements c)) coverage of
         Some g \<Rightarrow> Inl (InvalidGroup g)
       | None \<Rightarrow>
           (case map_of coverage 0 of
              None \<Rightarrow> Inl IndexPanic
            | Some es \<Rightarrow> Inr (boundary_loop c (sb_span b) coverage 0 es))))"

section \<open>Boundaries common to all ranks\<close>

definition position_end :: "recovery_contract \<Rightarrow> token_range \<Rightarrow> nat \<Rightarrow> nat \<Rightarrow> recovery_error + nat" where
  "position_end c sp grp position =
     ok_or (do {
       n \<leftarrow> checked_add position 1;
       m \<leftarrow> checked_mul n (rc_page_tokens c);
       checked_add m (range_start sp) }) (InvalidCoverage grp)"

definition shard_component ::
  "recovery_contract \<Rightarrow> token_range \<Rightarrow> nat \<times> nat list \<Rightarrow> recovery_error + bundle_component" where
  "shard_component c sp gp =
     rbind (traverse (position_end c sp (fst gp)) (snd gp)) (\<lambda>ends.
       Inr \<lparr>bc_group = fst gp, bc_page_ends = ends\<rparr>)"

definition shard_boundaries ::
  "recovery_contract \<Rightarrow> bytes \<Rightarrow> token_range \<Rightarrow> (nat \<times> nat list) list \<Rightarrow> recovery_error + nat list" where
  "shard_boundaries c ns sp groups =
     rbind (traverse (shard_component c sp) groups) (\<lambda>components.
       restorable_boundaries c
         \<lparr>sb_namespace = ns, sb_span = sp, sb_components = components\<rparr>)"

fun common_loop ::
  "recovery_contract \<Rightarrow> bytes \<Rightarrow> token_range \<Rightarrow> nat list option \<Rightarrow> (nat \<times> nat list) list list \<Rightarrow>
   recovery_error + nat list option" where
  "common_loop c ns sp common [] = Inr common"
| "common_loop c ns sp common (groups # shards) =
     rbind (shard_boundaries c ns sp groups) (\<lambda>legal.
       common_loop c ns sp
         (Some (case common of
                  Some cs \<Rightarrow> filter (\<lambda>e. e \<in> set legal) cs
                | None \<Rightarrow> sort_dedup legal)) shards)"

definition common_boundaries ::
  "recovery_contract \<Rightarrow> bytes \<Rightarrow> token_range \<Rightarrow> (nat \<times> nat list) list list \<Rightarrow>
   recovery_error + nat list" where
  "common_boundaries c ns sp shards =
     rbind (validate_span c ns sp) (\<lambda>_.
     rbind (common_loop c ns sp None shards) (\<lambda>common.
       Inr (case common of None \<Rightarrow> [] | Some cs \<Rightarrow> cs)))"

definition select_boundary ::
  "recovery_contract \<Rightarrow> bytes \<Rightarrow> token_range \<Rightarrow> (nat \<times> nat list) list list \<Rightarrow> nat \<Rightarrow>
   recovery_error + nat option" where
  "select_boundary c ns sp shards limit =
     rbind (common_boundaries c ns sp shards) (\<lambda>bs.
       Inr (find (\<lambda>e. e \<le> limit) (rev bs)))"

section \<open>Pages of a span\<close>

text \<open>The ends of the pages of \<open>t\<close> tokens in the half-open interval from \<open>a\<close> to \<open>b\<close>.\<close>

definition page_set :: "nat \<Rightarrow> nat \<Rightarrow> nat \<Rightarrow> nat set" where
  "page_set t a b = {p. a < p \<and> p \<le> b \<and> t dvd p}"

lemma finite_page_set [simp]: "finite (page_set t a b)"
  by (rule finite_subset [of _ "{..b}"]) (auto simp: page_set_def)

lemma page_set_image:
  assumes "0 < t" and "t dvd a" and "t dvd b"
  shows "page_set t a b = (\<lambda>i. a + i * t) ` {1..(b - a) div t}"
proof
  show "page_set t a b \<subseteq> (\<lambda>i. a + i * t) ` {1..(b - a) div t}"
  proof
    fix p assume "p \<in> page_set t a b"
    then have p: "a < p" "p \<le> b" "t dvd p - a"
      using assms by (auto simp: page_set_def)
    then obtain i where i: "p - a = i * t" by (metis dvd_def mult.commute)
    then have "p = a + i * t" using p by simp
    moreover have "1 \<le> i" using i p by (cases i) auto
    moreover have "i \<le> (b - a) div t"
      using i p assms(1) by (metis diff_le_mono div_le_mono nonzero_mult_div_cancel_right not_gr_zero)
    ultimately show "p \<in> (\<lambda>i. a + i * t) ` {1..(b - a) div t}" by auto
  qed
  show "(\<lambda>i. a + i * t) ` {1..(b - a) div t} \<subseteq> page_set t a b"
  proof
    fix p assume "p \<in> (\<lambda>i. a + i * t) ` {1..(b - a) div t}"
    then obtain i where i: "1 \<le> i" "i \<le> (b - a) div t" "p = a + i * t" by auto
    have "i * t \<le> b - a" using i(2) by (meson le_trans mult_le_mono1 div_times_less_eq_dividend)
    then have "p \<le> b" using i assms(1) by (cases "a \<le> b") auto
    then show "p \<in> page_set t a b" using i assms by (auto simp: page_set_def)
  qed
qed

lemma card_page_set:
  assumes "0 < t" and "t dvd a" and "t dvd b"
  shows "card (page_set t a b) = (b - a) div t"
proof -
  have "inj_on (\<lambda>i. a + i * t) {1..(b - a) div t}"
    using assms(1) by (auto simp: inj_on_def)
  then show ?thesis by (simp add: page_set_image [OF assms] card_image)
qed

lemma page_set_step:
  assumes "0 < t" and "t dvd a" and "a + t \<le> b"
  shows "page_set t a b = insert (a + t) (page_set t (a + t) b)"
proof -
  have "p = a + t \<or> a + t < p" if "a < p" "t dvd p" for p
  proof -
    have "t dvd p - a" using that assms(2) by simp
    then have "t \<le> p - a" using that by (simp add: dvd_imp_le)
    then show ?thesis using that by linarith
  qed
  then show ?thesis using assms by (auto simp: page_set_def)
qed

section \<open>Counting by partition points\<close>

lemma takeWhile_sorted:
  "sorted_wrt (<) xs \<Longrightarrow> takeWhile (\<lambda>x. x \<le> n) xs = filter (\<lambda>x. x \<le> n) (xs :: nat list)"
proof (induction xs)
  case (Cons x xs)
  then have "filter (\<lambda>x. x \<le> n) xs = []" if "\<not> x \<le> n"
    using that by (auto simp: filter_empty_conv)
  then show ?case using Cons by simp
qed simp

lemma partition_point_diff:
  assumes "sorted_wrt (<) es" and "a \<le> b"
  shows "partition_point es b - partition_point es a = card {x \<in> set es. a < x \<and> x \<le> b}"
proof -
  have "length (filter (\<lambda>x. x \<le> b) es) =
      length (filter (\<lambda>x. x \<le> a) es) + length (filter (\<lambda>x. a < x \<and> x \<le> b) es)"
    using assms(2) by (induction es) auto
  moreover have "length (filter (\<lambda>x. a < x \<and> x \<le> b) es) = card {x \<in> set es. a < x \<and> x \<le> b}"
    using assms(1) by (metis distinct_card distinct_filter set_filter strict_sorted_iff)
  ultimately show ?thesis using assms(1) by (simp add: partition_point_def takeWhile_sorted)
qed

text \<open>Evidence for one group: ascending page ends inside the queried span.\<close>

definition ends_ok :: "nat \<Rightarrow> token_range \<Rightarrow> nat list \<Rightarrow> bool" where
  "ends_ok t sp es \<longleftrightarrow>
     sorted_wrt (<) es \<and> (\<forall>e \<in> set es. range_start sp < e \<and> e \<le> range_end sp \<and> t dvd e)"

lemma check_page_ends_Inr_iff:
  "check_page_ends c sp g previous es = Inr () \<longleftrightarrow>
     sorted_wrt (<) es \<and>
     (\<forall>e \<in> set es. previous < e \<and> e \<le> range_end sp \<and> rc_page_tokens c dvd e)"
  by (induction c sp g previous es rule: check_page_ends.induct)
    (auto simp: is_multiple_of_def dvd_eq_mod_eq_0)

lemma check_page_ends_ends_ok:
  "check_page_ends c sp g (range_start sp) es = Inr () \<longleftrightarrow> ends_ok (rc_page_tokens c) sp es"
  by (simp add: check_page_ends_Inr_iff ends_ok_def)

text \<open>Two partition points differ by the page count exactly when no page is missing.\<close>

lemma count_all_pages_iff:
  assumes es: "ends_ok t sp es" and t: "0 < t" "t dvd a" "t dvd b" "a \<le> b"
  shows "partition_point es b - partition_point es a = (b - a) div t \<longleftrightarrow> page_set t a b \<subseteq> set es"
proof -
  have sub: "{x \<in> set es. a < x \<and> x \<le> b} \<subseteq> page_set t a b"
    using es by (auto simp: ends_ok_def page_set_def)
  have "partition_point es b - partition_point es a = (b - a) div t \<longleftrightarrow>
      card {x \<in> set es. a < x \<and> x \<le> b} = card (page_set t a b)"
    using es t by (simp add: ends_ok_def partition_point_diff card_page_set)
  also have "\<dots> \<longleftrightarrow> {x \<in> set es. a < x \<and> x \<le> b} = page_set t a b"
    by (rule iffI [OF card_subset_eq [OF finite_page_set sub] arg_cong [of _ _ card]])
  also have "\<dots> \<longleftrightarrow> page_set t a b \<subseteq> set es"
    using sub by (auto simp: page_set_def)
  finally show ?thesis .
qed

section \<open>Contracts\<close>

definition contract_wf :: "recovery_contract \<Rightarrow> bool" where
  "contract_wf c \<longleftrightarrow>
     rc_namespace c \<noteq> [] \<and> 0 < rc_page_tokens c \<and> bt_wf (rc_requirements c) \<and>
     map_of (rc_requirements c) 0 = Some None \<and>
     (\<forall>(g, pages) \<in> set (rc_requirements c). pages \<noteq> Some 0)"

lemma compile_rules_wf:
  assumes "compile_rules t rs rules = Inr rules'" and "0 < t" and "bt_wf rules"
    and "\<forall>(g, pages) \<in> set rules. pages \<noteq> Some 0"
  shows "bt_wf rules' \<and> (\<forall>(g, pages) \<in> set rules'. pages \<noteq> Some 0)"
  using assms
proof (induction t rs rules rule: compile_rules.induct)
  case (1 t rules)
  then show ?case by simp
next
  case (2 t r rs rules)
  have "rule_pages t (req_rule r) \<noteq> Some 0"
    using "2.prems" div_ceil_pos [of t]
    by (auto split: if_splits recovery_rule.splits)
  then have "\<forall>(g, pages) \<in> set (bt_insert (req_group r) (rule_pages t (req_rule r)) rules). pages \<noteq> Some 0"
    using "2.prems" by (auto simp: set_bt_insert)
  then show ?case using 2 by (simp split: if_splits)
qed

lemma contract_compile_wf: "contract_compile ns t rs = Inr c \<Longrightarrow> contract_wf c"
  using compile_rules_wf [of t rs "[]"]
  by (auto simp: contract_compile_def contract_wf_def rbind_eq_Inr_iff split: if_splits)

lemma validate_span_Inr_iff:
  "validate_span c ns sp = Inr () \<longleftrightarrow>
     ns = rc_namespace c \<and> range_start sp \<le> range_end sp \<and>
     rc_page_tokens c dvd range_start sp \<and> rc_page_tokens c dvd range_end sp"
  by (auto simp: validate_span_def is_multiple_of_def dvd_eq_mod_eq_0)

lemma required_span_bounds:
  assumes "0 < rc_page_tokens c" and "range_start sp \<le> range_end sp"
    and "rc_page_tokens c dvd range_start sp" and "rc_page_tokens c dvd range_end sp"
  shows "range_end (required_span c sp pages) = range_end sp"
    and "range_start sp \<le> range_start (required_span c sp pages)"
    and "range_start (required_span c sp pages) \<le> range_end sp"
    and "rc_page_tokens c dvd range_start (required_span c sp pages)"
proof -
  let ?t = "rc_page_tokens c"
  let ?n = "min ((range_end sp - range_start sp) div ?t) (case pages of None \<Rightarrow> u64_max | Some n \<Rightarrow> n)"
  have "?n * ?t \<le> (range_end sp - range_start sp) div ?t * ?t" by simp
  then have le: "?n * ?t \<le> range_end sp - range_start sp"
    using div_times_less_eq_dividend le_trans by blast
  show "range_end (required_span c sp pages) = range_end sp"
    and "range_start (required_span c sp pages) \<le> range_end sp"
    by (simp_all add: required_span_def Let_def)
  show "range_start sp \<le> range_start (required_span c sp pages)"
    using le assms(2) by (simp add: required_span_def Let_def)
  show "?t dvd range_start (required_span c sp pages)"
    using assms(4) by (simp add: required_span_def Let_def)
qed

lemma group_complete_iff:
  assumes "0 < rc_page_tokens c" and "rc_page_tokens c dvd range_start sp"
    and "ends_ok (rc_page_tokens c) sp es"
    and "range_start sp \<le> b" and "rc_page_tokens c dvd b"
  shows "group_complete c sp b pages es \<longleftrightarrow>
    page_set (rc_page_tokens c)
      (range_start (required_span c \<lparr>range_start = range_start sp, range_end = b\<rparr> pages)) b \<subseteq> set es"
proof -
  let ?needed = "required_span c \<lparr>range_start = range_start sp, range_end = b\<rparr> pages"
  have needed: "range_end ?needed = b" "range_start ?needed \<le> b"
    "rc_page_tokens c dvd range_start ?needed"
    using required_span_bounds [of c "\<lparr>range_start = range_start sp, range_end = b\<rparr>" pages] assms
    by auto
  show ?thesis
    unfolding group_complete_def Let_def needed(1)
    by (rule count_all_pages_iff) (use assms needed in auto)
qed

text \<open>A prefix group needs every page of the span (token positions are \<open>u64\<close>).\<close>

lemma required_span_prefix:
  assumes "0 < rc_page_tokens c" and "range_start sp \<le> range_end sp" and "range_end sp \<le> u64_max"
    and "rc_page_tokens c dvd range_start sp" and "rc_page_tokens c dvd range_end sp"
  shows "range_start (required_span c sp None) = range_start sp"
proof -
  let ?n = "(range_end sp - range_start sp) div rc_page_tokens c"
  have "?n \<le> u64_max"
    using assms(3) by (meson div_le_dividend diff_le_self le_trans)
  moreover have "?n * rc_page_tokens c = range_end sp - range_start sp"
    using assms by (simp add: dvd_div_mult_self)
  ultimately show ?thesis using assms(2) by (simp add: required_span_def Let_def min_absorb1)
qed

section \<open>The boundary loop\<close>

lemma boundary_loop_set:
  assumes "0 < rc_page_tokens c"
    and "rc_page_tokens c dvd range_start sp"
    and "sorted_wrt (<) ys"
    and "\<forall>y \<in> set ys. range_start sp + i * rc_page_tokens c < y \<and> rc_page_tokens c dvd y"
  shows "e \<in> set (boundary_loop c sp coverage i ys) \<longleftrightarrow>
    e \<in> set ys \<and> boundary_complete c sp coverage e \<and>
    page_set (rc_page_tokens c) (range_start sp + i * rc_page_tokens c) e \<subseteq> set ys"
  using assms(3,4)
proof (induction ys arbitrary: i)
  case Nil
  then show ?case by simp
next
  case (Cons b bs)
  let ?t = "rc_page_tokens c" and ?s = "range_start sp"
  let ?a = "?s + i * ?t"
  have a: "?t dvd ?a" using assms(2) by simp
  have ab: "?a < b" "?t dvd b" using Cons.prems by auto
  obtain k where k: "b = ?s + k * ?t"
  proof -
    have "?t dvd b - ?s" using ab assms(2) by simp
    then obtain k where "b - ?s = ?t * k" by (auto simp: dvd_def)
    then show thesis using ab that [of k] by (simp add: mult.commute)
  qed
  have ik: "i < k" using ab k assms(1) by simp
  have index: "(b - ?s) div ?t = k" using k assms(1) by simp
  show ?case
  proof (cases "k = i + 1")
    case True
    have b: "b = ?a + ?t" using True k by simp
    have IH: "e \<in> set (boundary_loop c sp coverage (i + 1) bs) \<longleftrightarrow>
        e \<in> set bs \<and> boundary_complete c sp coverage e \<and> page_set ?t b e \<subseteq> set bs"
      using Cons.IH [of "i + 1"] Cons.prems b by (auto simp: algebra_simps)
    have step: "page_set ?t ?a e = insert b (page_set ?t b e)" if "b \<le> e"
      using page_set_step [OF assms(1) a] that b by simp
    have "b \<notin> set bs" "\<forall>y \<in> set bs. b < y" using Cons.prems by auto
    moreover have "b \<notin> page_set ?t b e" "page_set ?t b b = {}" by (auto simp: page_set_def)
    ultimately show ?thesis
      using IH step True index by (cases "e = b") (auto simp: less_imp_le)
  next
    case False
    have "(i + 1) * ?t < k * ?t" using False ik assms(1) by (intro mult_less_mono1) simp
    then have "?a + ?t < b" unfolding k by simp
    then have "?a + ?t \<notin> set (b # bs)" using Cons.prems by auto
    moreover have "?a + ?t \<in> page_set ?t ?a e" if "e \<in> set (b # bs)"
    proof -
      have "b \<le> e" using that Cons.prems by auto
      then show ?thesis using \<open>?a + ?t < b\<close> a assms(1) by (simp add: page_set_def)
    qed
    ultimately show ?thesis using False index by auto
  qed
qed

lemma boundary_loop_sorted:
  "sorted_wrt (<) ys \<Longrightarrow> sorted_wrt (<) (boundary_loop c sp coverage i ys)"
proof (induction ys arbitrary: i)
  case (Cons b bs)
  have "set (boundary_loop c sp coverage j zs) \<subseteq> set zs" for j zs
    by (induction zs arbitrary: j) auto
  then show ?case using Cons by fastforce
qed simp

section \<open>Compiled rules and evidence\<close>

lemma map_of_fold_bt_insert:
  assumes "bt_wf m" and "distinct (map f xs)"
  shows "map_of (fold (\<lambda>x. bt_insert (f x) (g x)) xs m) = map_of m ++ map_of (map (\<lambda>x. (f x, g x)) xs)
    \<and> bt_wf (fold (\<lambda>x. bt_insert (f x) (g x)) xs m)"
  using assms
proof (induction xs arbitrary: m)
  case (Cons x xs)
  have "f x \<notin> dom (map_of (map (\<lambda>x. (f x, g x)) xs))"
    using Cons.prems by (auto dest!: map_of_SomeD)
  moreover have "bt_wf (bt_insert (f x) (g x) m)" using Cons.prems by simp
  ultimately show ?case
    using Cons.IH [of "bt_insert (f x) (g x) m"] Cons.prems(2) 
    by (auto simp: fun_eq_iff map_add_def split: option.splits)
qed simp

lemma compile_rules_Inr:
  assumes "compile_rules t rs rules = Inr rules'" and "bt_wf rules"
  shows "distinct (map req_group rs) \<and> (\<forall>r \<in> set rs. map_of rules (req_group r) = None) \<and>
    rules' = fold (\<lambda>r. bt_insert (req_group r) (rule_pages t (req_rule r))) rs rules"
  using assms
proof (induction t rs rules rule: compile_rules.induct)
  case (2 t r rs rules)
  then show ?case
    by (auto simp: map_of_bt_insert split: if_splits)
qed simp

lemma build_coverage_Inr_iff:
  assumes "bt_wf coverage"
  shows "build_coverage c sp bs coverage = Inr coverage' \<longleftrightarrow>
    distinct (map bc_group bs) \<and>
    (\<forall>b \<in> set bs. map_of (rc_requirements c) (bc_group b) \<noteq> None \<and>
       map_of coverage (bc_group b) = None \<and> ends_ok (rc_page_tokens c) sp (bc_page_ends b)) \<and>
    coverage' = fold (\<lambda>b. bt_insert (bc_group b) (bc_page_ends b)) bs coverage"
  using assms
proof (induction bs arbitrary: coverage)
  case (Cons b bs)
  have IH: "build_coverage c sp bs (bt_insert (bc_group b) (bc_page_ends b) coverage) = Inr coverage' \<longleftrightarrow>
    distinct (map bc_group bs) \<and>
    (\<forall>b' \<in> set bs. map_of (rc_requirements c) (bc_group b') \<noteq> None \<and>
       ((map_of coverage)(bc_group b \<mapsto> bc_page_ends b)) (bc_group b') = None \<and>
       ends_ok (rc_page_tokens c) sp (bc_page_ends b')) \<and>
    coverage' = fold (\<lambda>b. bt_insert (bc_group b) (bc_page_ends b)) bs
      (bt_insert (bc_group b) (bc_page_ends b) coverage)"
    using Cons by simp
  have fresh: "(\<forall>b' \<in> set bs. P b' \<and> ((map_of coverage)(bc_group b \<mapsto> v)) (bc_group b') = None \<and> Q b') \<longleftrightarrow>
      bc_group b \<notin> bc_group ` set bs \<and> (\<forall>b' \<in> set bs. P b' \<and> map_of coverage (bc_group b') = None \<and> Q b')"
    for P Q v by (auto simp: image_iff split: if_splits)
  show ?case
    unfolding build_coverage.simps
    by (auto simp add: rbind_eq_Inr_iff check_page_ends_ends_ok IH fresh simp del: fun_upd_apply)
qed auto

lemma first_uncovered_None_iff:
  "first_uncovered gs coverage = None \<longleftrightarrow> (\<forall>g \<in> set gs. map_of coverage g \<noteq> None)"
  by (induction gs) auto

section \<open>What a legal boundary is\<close>

text \<open>
  Which pages a rule asks for at a boundary \<open>e\<close>, read off the declared rule alone: a prefix needs
  every page, a sliding window of \<open>w\<close> tokens the pages holding any of the last \<open>w\<close> tokens, a
  checkpoint the page that ends at the boundary.
\<close>

fun needs_page :: "recovery_rule \<Rightarrow> nat \<Rightarrow> nat \<Rightarrow> bool" where
  "needs_page Prefix e p = True"
| "needs_page (Window w) e p = (e < p + w)"
| "needs_page Checkpoint e p = (p = e)"

definition legal_boundary ::
  "nat \<Rightarrow> state_requirement list \<Rightarrow> token_range \<Rightarrow> (nat \<Rightarrow> nat set) \<Rightarrow> nat \<Rightarrow> bool" where
  "legal_boundary t rs sp pages e \<longleftrightarrow>
     range_start sp < e \<and> e \<le> range_end sp \<and> t dvd e \<and>
     (\<forall>r \<in> set rs. \<forall>p. range_start sp < p \<and> p \<le> e \<and> t dvd p \<and> needs_page (req_rule r) e p
        \<longrightarrow> p \<in> pages (req_group r))"

definition evidence :: "bundle_component list \<Rightarrow> nat \<Rightarrow> nat set" where
  "evidence bs g = {p. \<exists>b \<in> set bs. bc_group b = g \<and> p \<in> set (bc_page_ends b)}"

definition bundle_valid ::
  "bytes \<Rightarrow> nat \<Rightarrow> state_requirement list \<Rightarrow> state_bundle \<Rightarrow> bool" where
  "bundle_valid ns t rs b \<longleftrightarrow>
     sb_namespace b = ns \<and>
     range_start (sb_span b) \<le> range_end (sb_span b) \<and>
     t dvd range_start (sb_span b) \<and> t dvd range_end (sb_span b) \<and>
     distinct (map bc_group (sb_components b)) \<and>
     bc_group ` set (sb_components b) = req_group ` set rs \<and>
     (\<forall>x \<in> set (sb_components b). ends_ok t (sb_span b) (bc_page_ends x))"

lemma less_div_ceil_mult:
  assumes "0 < t" and "t dvd d" shows "d < div_ceil w t * t \<longleftrightarrow> d < (w :: nat)"
proof -
  obtain k where k: "d = k * t" using assms(2) by (auto simp: dvd_def mult.commute)
  define q r where "q = w div t" and "r = w mod t"
  have w: "w = q * t + r" "r < t" using assms(1) by (simp_all add: q_def r_def)
  have "k * t < q * t + r \<longleftrightarrow> k < q + (if r = 0 then 0 else 1)"
  proof (cases "k \<le> q")
    case True
    then have "k = q \<or> k * t < q * t" using assms(1) by auto
    then show ?thesis using True assms(1) by (auto simp: trans_less_add1)
  next
    case False
    then have "(q + 1) * t \<le> k * t" by (intro mult_le_mono1) simp
    then have "q * t + t \<le> k * t" by simp
    then show ?thesis using False w(2) by auto
  qed
  then have "k * t < w \<longleftrightarrow> k < div_ceil w t"
    unfolding w(1) [symmetric] by (simp add: div_ceil_def q_def r_def)
  then show ?thesis using k assms(1) by simp
qed

text \<open>The pages a compiled rule counts are those the declared rule asks for.\<close>

lemma required_pages:
  assumes "0 < rc_page_tokens c" and "range_start sp \<le> e" and "e \<le> u64_max"
    and "rc_page_tokens c dvd range_start sp" and "rc_page_tokens c dvd e"
  shows "page_set (rc_page_tokens c)
      (range_start (required_span c \<lparr>range_start = range_start sp, range_end = e\<rparr>
         (rule_pages (rc_page_tokens c) rule))) e =
    {p. range_start sp < p \<and> p \<le> e \<and> rc_page_tokens c dvd p \<and> needs_page rule e p}"
proof -
  let ?t = "rc_page_tokens c" and ?s = "range_start sp"
  let ?sp = "\<lparr>range_start = ?s, range_end = e\<rparr>"
  define k where "k = (e - ?s) div ?t"
  have k: "k * ?t = e - ?s" unfolding k_def using assms by simp
  have bounded: "range_start (required_span c ?sp (Some n)) < p \<longleftrightarrow> e < p + n * ?t"
    if "?s < p" "p \<le> e" for n p
  proof (cases "n \<le> k")
    case True
    then have "n * ?t \<le> k * ?t" by (intro mult_le_mono1)
    then have "n * ?t \<le> e - ?s" unfolding k .
    then show ?thesis using True k_def by (auto simp: required_span_def Let_def min_def)
  next
    case False
    then have "k * ?t \<le> n * ?t" by (intro mult_le_mono1) simp
    then have "e - ?s \<le> n * ?t" unfolding k .
    then show ?thesis using False k k_def that assms(2)
      by (auto simp: required_span_def Let_def min_def)
  qed
  have low: "?s < p" if "range_start (required_span c ?sp n) < p" for n p
    using required_span_bounds(2) [of c ?sp n] assms that by simp
  have after: "range_start (required_span c ?sp (Some n)) < p \<longleftrightarrow> ?s < p \<and> e < p + n * ?t"
    if "p \<le> e" for n p
    using bounded [OF _ that] low by blast
  have gap: "e < p + div_ceil w ?t * ?t \<longleftrightarrow> e < p + w" if "p \<le> e" "?t dvd p" for w p
    using less_div_ceil_mult [of ?t "e - p" w] that assms by auto
  have one: "e < p + ?t \<longleftrightarrow> p = e" if "p \<le> e" "?t dvd p" for p
  proof -
    have "?t dvd e - p" using that assms by simp
    then have "e - p < ?t \<longleftrightarrow> e - p = 0"
      using assms(1) by (auto dest: dvd_imp_le)
    then show ?thesis using that assms(1) by auto
  qed
  show ?thesis
  proof (cases rule)
    case Prefix
    then show ?thesis using required_span_prefix [of c ?sp] assms by (auto simp: page_set_def)
  next
    case (Window w)
    then show ?thesis
      by (auto simp: page_set_def after gap)
  next
    case Checkpoint
    then show ?thesis
      using after [of _ 1] assms(1) by (auto simp: page_set_def one)
  qed
qed


lemma evidence_map_of:
  assumes "distinct (map bc_group bs)"
    and "map_of (map (\<lambda>b. (bc_group b, bc_page_ends b)) bs) g = Some es"
  shows "evidence bs g = set es"
proof -
  obtain b where b: "b \<in> set bs" "bc_group b = g" "bc_page_ends b = es"
    using assms(2) by (auto dest!: map_of_SomeD)
  then have "\<forall>b' \<in> set bs. bc_group b' = g \<longrightarrow> b' = b"
    using assms(1) unfolding distinct_map inj_on_def by blast
  then show ?thesis using b unfolding evidence_def by blast
qed

lemma contract_compile_Inr:
  assumes "contract_compile ns t rs = Inr c"
  shows "contract_wf c \<and> rc_namespace c = ns \<and> rc_page_tokens c = t \<and> distinct (map req_group rs) \<and>
    map_of (rc_requirements c) = map_of (map (\<lambda>r. (req_group r, rule_pages t (req_rule r))) rs)"
proof -
  have "compile_rules t rs [] = Inr (rc_requirements c) \<and> rc_namespace c = ns \<and> rc_page_tokens c = t"
    using assms by (auto simp: contract_compile_def rbind_eq_Inr_iff split: if_splits)
  then show ?thesis
    using contract_compile_wf [OF assms] compile_rules_Inr [of t rs "[]"]
      map_of_fold_bt_insert [of "[]" req_group rs "\<lambda>r. rule_pages t (req_rule r)"]
    by auto
qed

lemma requirements_set:
  assumes "contract_compile ns t rs = Inr c"
  shows "set (rc_requirements c) = (\<lambda>r. (req_group r, rule_pages t (req_rule r))) ` set rs"
proof -
  have "(g, v) \<in> set (rc_requirements c) \<longleftrightarrow>
      (g, v) \<in> (\<lambda>r. (req_group r, rule_pages t (req_rule r))) ` set rs" for g v
    using contract_compile_Inr [OF assms]
    by (auto simp: in_set_iff_map_of contract_wf_def map_of_eq_Some_iff comp_def)
  then show ?thesis by auto
qed

lemma boundary_complete_iff:
  assumes "contract_compile ns t rs = Inr c"
    and "t dvd range_start sp" and "range_start sp \<le> e" and "t dvd e" and "e \<le> u64_max"
    and "distinct (map bc_group bs)" and "req_group ` set rs \<subseteq> bc_group ` set bs"
    and "\<forall>b \<in> set bs. ends_ok t sp (bc_page_ends b)"
    and "map_of coverage = map_of (map (\<lambda>b. (bc_group b, bc_page_ends b)) bs)"
  shows "boundary_complete c sp coverage e \<longleftrightarrow>
    (\<forall>r \<in> set rs. \<forall>p. range_start sp < p \<and> p \<le> e \<and> t dvd p \<and> needs_page (req_rule r) e p
        \<longrightarrow> p \<in> evidence bs (req_group r))"
proof -
  have c: "rc_page_tokens c = t" "0 < rc_page_tokens c"
    using contract_compile_Inr [OF assms(1)] by (auto simp: contract_wf_def)
  have "(case map_of coverage (req_group r) of None \<Rightarrow> False
         | Some es \<Rightarrow> group_complete c sp e (rule_pages t (req_rule r)) es) \<longleftrightarrow>
      (\<forall>p. range_start sp < p \<and> p \<le> e \<and> t dvd p \<and> needs_page (req_rule r) e p
        \<longrightarrow> p \<in> evidence bs (req_group r))" if r: "r \<in> set rs" for r
  proof -
    obtain b where b: "b \<in> set bs" "bc_group b = req_group r" using assms(7) r by (auto simp: image_iff)
    then have m: "map_of coverage (req_group r) = Some (bc_page_ends b)"
      using assms(6,9) by (auto simp: map_of_eq_Some_iff comp_def image_iff intro!: bexI [of _ b])
    have "group_complete c sp e (rule_pages t (req_rule r)) (bc_page_ends b) \<longleftrightarrow>
        {p. range_start sp < p \<and> p \<le> e \<and> t dvd p \<and> needs_page (req_rule r) e p} \<subseteq> set (bc_page_ends b)"
      using group_complete_iff [of c sp "bc_page_ends b" e "rule_pages t (req_rule r)"]
        assms(2-4,8) b(1) c(2)
      unfolding c(1) required_pages [of c sp e "req_rule r", unfolded c(1), OF c(2) [unfolded c(1)]
        assms(3,5,2,4)] by blast
    then show ?thesis using m evidence_map_of [OF assms(6)] assms(9) by auto
  qed
  then show ?thesis
    by (simp add: boundary_complete_def list_all_iff requirements_set [OF assms(1)])
qed

lemma prefix_requirement:
  assumes "contract_compile ns t rs = Inr c"
  shows "\<exists>r \<in> set rs. req_group r = 0 \<and> req_rule r = Prefix"
proof -
  have "(0, None) \<in> set (rc_requirements c)"
    using contract_compile_wf [OF assms] by (simp add: contract_wf_def in_set_iff_map_of)
  then obtain r where "r \<in> set rs" "req_group r = 0" "rule_pages t (req_rule r) = None"
    using requirements_set [OF assms] by auto
  then show ?thesis by (cases "req_rule r") auto
qed

lemma boundary_loop_legal:
  assumes compiled: "contract_compile ns t rs = Inr c"
    and valid: "bundle_valid ns t rs b" and "range_end (sb_span b) \<le> u64_max"
    and coverage: "map_of coverage = map_of (map (\<lambda>b. (bc_group b, bc_page_ends b)) (sb_components b))"
    and es: "map_of coverage 0 = Some es"
  shows "boundary_loop c (sb_span b) coverage 0 es =
    sorted_list_of_set {e. legal_boundary t rs (sb_span b) (evidence (sb_components b)) e}"
    (is "?loop = sorted_list_of_set ?legal")
proof -
  let ?sp = "sb_span b" and ?ev = "evidence (sb_components b)"
  have t: "rc_page_tokens c = t" "0 < t"
    using contract_compile_Inr [OF compiled] by (auto simp: contract_wf_def)
  have v: "t dvd range_start ?sp" "distinct (map bc_group (sb_components b))"
    "req_group ` set rs \<subseteq> bc_group ` set (sb_components b)"
    "\<forall>x \<in> set (sb_components b). ends_ok t ?sp (bc_page_ends x)"
    using valid by (auto simp: bundle_valid_def)
  have ev: "?ev 0 = set es" using evidence_map_of [OF v(2)] coverage es by simp
  have ok: "ends_ok t ?sp es"
    using es coverage v(4) by (auto dest!: map_of_SomeD)
  have complete: "boundary_complete c ?sp coverage e \<longleftrightarrow>
      (\<forall>r \<in> set rs. \<forall>p. range_start ?sp < p \<and> p \<le> e \<and> t dvd p \<and> needs_page (req_rule r) e p
        \<longrightarrow> p \<in> ?ev (req_group r))" if "range_start ?sp < e" "e \<le> range_end ?sp" "t dvd e" for e
    using boundary_complete_iff [OF compiled v(1) _ _ _ v(2-4) coverage] that assms(3) by simp
  have loop: "e \<in> set ?loop \<longleftrightarrow>
      e \<in> set es \<and> boundary_complete c ?sp coverage e \<and> page_set t (range_start ?sp) e \<subseteq> set es" for e
    using boundary_loop_set [of c ?sp es 0 e coverage] t v(1) ok by (simp add: ends_ok_def)
  obtain r where r: "r \<in> set rs" "req_group r = 0" "req_rule r = Prefix"
    using prefix_requirement [OF compiled] by blast
  have "set ?loop = ?legal"
  proof (intro set_eqI iffI)
    fix e assume "e \<in> set ?loop"
    then have e: "e \<in> set es" "boundary_complete c ?sp coverage e" using loop by blast+
    moreover have "range_start ?sp < e" "e \<le> range_end ?sp" "t dvd e"
      using ok e(1) by (auto simp: ends_ok_def)
    ultimately show "e \<in> ?legal" using complete unfolding legal_boundary_def by blast
  next
    fix e assume "e \<in> ?legal"
    then have e: "range_start ?sp < e" "e \<le> range_end ?sp" "t dvd e" "boundary_complete c ?sp coverage e"
      using complete by (auto simp: legal_boundary_def)
    then have "page_set t (range_start ?sp) e \<subseteq> set es"
      using complete r ev by (auto simp: page_set_def)
    then show "e \<in> set ?loop" using loop e by (auto simp: page_set_def)
  qed
  moreover have "sorted_wrt (<) ?loop" using ok by (simp add: boundary_loop_sorted ends_ok_def)
  ultimately show ?thesis
    using sorted_list_of_set.idem_if_sorted_distinct [of ?loop] by (simp add: strict_sorted_iff)
qed

lemma bundle_coverage:
  assumes compiled: "contract_compile ns t rs = Inr c"
  shows "(\<exists>coverage. validate_span c (sb_namespace b) (sb_span b) = Inr () \<and>
      build_coverage c (sb_span b) (sb_components b) [] = Inr coverage \<and>
      first_uncovered (bt_keys (rc_requirements c)) coverage = None \<and> P coverage) \<longleftrightarrow>
    bundle_valid ns t rs b \<and>
      P (fold (\<lambda>b. bt_insert (bc_group b) (bc_page_ends b)) (sb_components b) [])"
proof -
  let ?bs = "sb_components b"
  let ?cov = "fold (\<lambda>b. bt_insert (bc_group b) (bc_page_ends b)) ?bs []"
  have c: "rc_page_tokens c = t" "rc_namespace c = ns" "bt_wf (rc_requirements c)"
    using contract_compile_Inr [OF compiled] by (auto simp: contract_wf_def)
  have keys: "set (bt_keys (rc_requirements c)) = req_group ` set rs"
    using requirements_set [OF compiled] by (force simp: bt_keys_def)
  then have known: "map_of (rc_requirements c) g \<noteq> None \<longleftrightarrow> g \<in> req_group ` set rs" for g
    by (metis bt_keys_def map_of_eq_None_iff set_map)
  have "first_uncovered (bt_keys (rc_requirements c)) ?cov = None \<longleftrightarrow>
      req_group ` set rs \<subseteq> bc_group ` set ?bs" if "distinct (map bc_group ?bs)"
  proof -
    have "map_of ?cov g \<noteq> None \<longleftrightarrow> g \<in> bc_group ` set ?bs" for g
      using map_of_fold_bt_insert [OF bt_wf_Nil that, of bc_page_ends]
      by (simp add: map_of_eq_None_iff image_image)
    then show ?thesis unfolding first_uncovered_None_iff keys by blast
  qed
  then show ?thesis
    unfolding build_coverage_Inr_iff [OF bt_wf_Nil] validate_span_Inr_iff bundle_valid_def known c
    by (auto 0 3)
qed

lemma restorable_boundaries_iff:
  assumes compiled: "contract_compile ns t rs = Inr c" and "range_end (sb_span b) \<le> u64_max"
  shows "restorable_boundaries c b = Inr bs \<longleftrightarrow>
    bundle_valid ns t rs b \<and>
    bs = sorted_list_of_set {e. legal_boundary t rs (sb_span b) (evidence (sb_components b)) e}"
proof -
  let ?cov = "fold (\<lambda>b. bt_insert (bc_group b) (bc_page_ends b)) (sb_components b) []"
  define P where "P = (\<lambda>cov. \<exists>es. map_of cov 0 = Some es \<and> bs = boundary_loop c (sb_span b) cov 0 es)"
  have "restorable_boundaries c b = Inr bs \<longleftrightarrow>
     (\<exists>coverage. validate_span c (sb_namespace b) (sb_span b) = Inr () \<and>
      build_coverage c (sb_span b) (sb_components b) [] = Inr coverage \<and>
      first_uncovered (bt_keys (rc_requirements c)) coverage = None \<and> P coverage)"
    by (cases "validate_span c (sb_namespace b) (sb_span b)";
        cases "build_coverage c (sb_span b) (sb_components b) []")
      (auto simp: restorable_boundaries_def P_def split: option.splits)
  also have "\<dots> \<longleftrightarrow> bundle_valid ns t rs b \<and> P ?cov" by (rule bundle_coverage [OF compiled])
  also have "\<dots> \<longleftrightarrow> bundle_valid ns t rs b \<and>
    bs = sorted_list_of_set {e. legal_boundary t rs (sb_span b) (evidence (sb_components b)) e}"
  proof (rule conj_cong [OF refl])
    assume valid: "bundle_valid ns t rs b"
    then have cov: "map_of ?cov = map_of (map (\<lambda>b. (bc_group b, bc_page_ends b)) (sb_components b))"
      using map_of_fold_bt_insert [OF bt_wf_Nil, of bc_group "sb_components b" bc_page_ends]
      by (simp add: bundle_valid_def)
    have "0 \<in> bc_group ` set (sb_components b)"
      using valid prefix_requirement [OF compiled] by (force simp: bundle_valid_def)
    then obtain es where es: "map_of ?cov 0 = Some es"
      unfolding cov by (metis (no_types, lifting) image_eqI list.set_map map_of_eq_None_iff
          not_None_eq fst_conv image_iff)
    show "P ?cov \<longleftrightarrow>
        bs = sorted_list_of_set {e. legal_boundary t rs (sb_span b) (evidence (sb_components b)) e}"
      unfolding P_def boundary_loop_legal [OF compiled valid assms(2) cov es, symmetric] es by simp
  qed
  finally show ?thesis .
qed

section \<open>Agreement of all ranks\<close>

definition shard_pages :: "nat \<Rightarrow> token_range \<Rightarrow> (nat \<times> nat list) list \<Rightarrow> nat \<Rightarrow> nat set" where
  "shard_pages t sp groups g =
     {p. \<exists>ps q. (g, ps) \<in> set groups \<and> q \<in> set ps \<and> p = (q + 1) * t + range_start sp}"

lemma position_end_Inr:
  "position_end c sp g q = Inr p \<Longrightarrow> p = (q + 1) * rc_page_tokens c + range_start sp"
  by (auto simp: position_end_def ok_or_eq_Inr_iff bind_eq_Some_conv checked_add_def checked_mul_def
      split: if_splits)

lemma shard_component_Inr:
  assumes "shard_component c sp gp = Inr b"
  shows "bc_group b = fst gp \<and>
    set (bc_page_ends b) = (\<lambda>q. (q + 1) * rc_page_tokens c + range_start sp) ` set (snd gp)"
proof -
  obtain ends where ends: "list_all2 (\<lambda>q p. position_end c sp (fst gp) q = Inr p) (snd gp) ends"
    and b: "b = \<lparr>bc_group = fst gp, bc_page_ends = ends\<rparr>"
    using assms by (auto simp: shard_component_def rbind_eq_Inr_iff traverse_Inr_iff)
  have "list_all2 (\<lambda>q p. p = (q + 1) * rc_page_tokens c + range_start sp) (snd gp) ends"
    by (rule list_all2_mono [OF ends position_end_Inr])
  then have "ends = map (\<lambda>q. (q + 1) * rc_page_tokens c + range_start sp) (snd gp)"
    by (induction rule: list_all2_induct) simp_all
  then show ?thesis using b by simp
qed

lemma evidence_shard:
  assumes "traverse (shard_component c sp) groups = Inr bs"
  shows "evidence bs = shard_pages (rc_page_tokens c) sp groups"
proof -
  have "list_all2 (\<lambda>gp b. shard_component c sp gp = Inr b) groups bs"
    using assms by (simp add: traverse_Inr_iff)
  then have "evidence bs g = shard_pages (rc_page_tokens c) sp groups g" for g
  proof (induction rule: list_all2_induct)
    case Nil
    then show ?case by (simp add: evidence_def shard_pages_def)
  next
    case (Cons gp gps b bs)
    have "evidence (b # bs) g = (if bc_group b = g then set (bc_page_ends b) else {}) \<union> evidence bs g"
      by (auto simp: evidence_def)
    moreover have "shard_pages (rc_page_tokens c) sp (gp # gps) g =
        (if fst gp = g then (\<lambda>q. (q + 1) * rc_page_tokens c + range_start sp) ` set (snd gp) else {}) \<union>
        shard_pages (rc_page_tokens c) sp gps g"
      by (cases gp) (auto simp: shard_pages_def)
    ultimately show ?case using Cons shard_component_Inr [of c sp gp b] by simp
  qed
  then show ?thesis ..
qed

lemma shard_boundaries_Inr:
  assumes compiled: "contract_compile ns t rs = Inr c" and "range_end sp \<le> u64_max"
    and "shard_boundaries c ns' sp groups = Inr bs"
  shows "sorted_wrt (<) bs \<and> set bs = {e. legal_boundary t rs sp (shard_pages t sp groups) e}"
proof -
  have t: "rc_page_tokens c = t" using contract_compile_Inr [OF compiled] by simp
  obtain comps where comps: "traverse (shard_component c sp) groups = Inr comps"
    and bs: "restorable_boundaries c \<lparr>sb_namespace = ns', sb_span = sp, sb_components = comps\<rparr> = Inr bs"
    using assms(3) by (auto simp: shard_boundaries_def rbind_eq_Inr_iff)
  have "bs = sorted_list_of_set {e. legal_boundary t rs sp (shard_pages t sp groups) e}"
    using restorable_boundaries_iff [OF compiled, THEN iffD1, OF _ bs] assms(2)
      evidence_shard [OF comps] t by simp
  moreover have "finite {e. legal_boundary t rs sp (shard_pages t sp groups) e}"
    by (rule finite_subset [of _ "{..range_end sp}"]) (auto simp: legal_boundary_def)
  ultimately show ?thesis by simp
qed

lemma common_loop_Some:
  assumes "common_loop c ns sp (Some cs) shards = Inr r"
    and "\<And>groups bs. shard_boundaries c ns sp groups = Inr bs \<Longrightarrow> set bs = L groups"
  shows "r = Some (filter (\<lambda>e. \<forall>groups \<in> set shards. e \<in> L groups) cs)"
  using assms(1)
proof (induction shards arbitrary: cs)
  case (Cons groups shards)
  then obtain bs where bs: "shard_boundaries c ns sp groups = Inr bs"
    and "common_loop c ns sp (Some (filter (\<lambda>e. e \<in> set bs) cs)) shards = Inr r"
    by (auto simp: rbind_eq_Inr_iff)
  then have "r = Some (filter (\<lambda>e. \<forall>groups \<in> set shards. e \<in> L groups) (filter (\<lambda>e. e \<in> set bs) cs))"
    using Cons.IH by blast
  then show ?case using assms(2) [OF bs] by (simp add: filter_filter conj_commute)
qed simp

definition common_legal ::
  "nat \<Rightarrow> state_requirement list \<Rightarrow> token_range \<Rightarrow> (nat \<times> nat list) list list \<Rightarrow> nat set" where
  "common_legal t rs sp shards =
     {e. \<forall>groups \<in> set shards. legal_boundary t rs sp (shard_pages t sp groups) e}"

lemma common_boundaries_Inr:
  assumes compiled: "contract_compile ns t rs = Inr c" and "range_end sp \<le> u64_max"
    and "common_boundaries c ns' sp shards = Inr bs" and "shards \<noteq> []"
  shows "sorted_wrt (<) bs \<and> set bs = common_legal t rs sp shards"
proof -
  obtain groups rest where shards: "shards = groups # rest" using assms(4) by (cases shards) auto
  obtain legal r where legal: "shard_boundaries c ns' sp groups = Inr legal"
    and r: "common_loop c ns' sp (Some (sort_dedup legal)) rest = Inr r"
    and bs: "bs = (case r of None \<Rightarrow> [] | Some cs \<Rightarrow> cs)"
    using assms(3) shards by (auto simp: common_boundaries_def rbind_eq_Inr_iff)
  let ?L = "\<lambda>groups. {e. legal_boundary t rs sp (shard_pages t sp groups) e}"
  have "r = Some (filter (\<lambda>e. \<forall>groups \<in> set rest. e \<in> ?L groups) legal)"
    using common_loop_Some [OF r, of ?L] shard_boundaries_Inr [OF compiled assms(2)] legal
    by (simp add: sort_dedup_id)
  then show ?thesis
    using bs shards shard_boundaries_Inr [OF compiled assms(2) legal]
    by (auto simp: common_legal_def sorted_wrt_filter)
qed

lemma find_rev_sorted:
  fixes xs :: "nat list"
  assumes "sorted_wrt (<) xs"
  shows "find (\<lambda>e. e \<le> n) (rev xs) =
    (if {e \<in> set xs. e \<le> n} = {} then None else Some (Max {e \<in> set xs. e \<le> n}))"
  using assms
proof (induction xs rule: rev_induct)
  case (snoc x xs)
  have below: "\<forall>y \<in> set xs. y < x" using snoc.prems by (auto simp: sorted_wrt_append)
  show ?case
  proof (cases "x \<le> n")
    case True
    have "Max {e \<in> set (xs @ [x]). e \<le> n} = x"
      using True below by (intro Max_eqI) (auto simp: less_imp_le)
    then show ?thesis using True by auto
  next
    case False
    then have "{e \<in> set (xs @ [x]). e \<le> n} = {e \<in> set xs. e \<le> n}" by auto
    then show ?thesis using False snoc by (auto simp: sorted_wrt_append)
  qed
qed simp

section \<open>The demand a read is validated against\<close>

lemma validate_groups_requirements:
  assumes "0 < rc_page_tokens c" and "range_start sp \<le> range_end sp"
    and "rc_page_tokens c dvd range_start sp" and "rc_page_tokens c dvd range_end sp"
    and d: "rd_page_tokens d = rc_page_tokens c" "rd_span d = sp"
    and "bt_wf m" and "\<forall>(g, pages) \<in> set m. pages \<noteq> Some 0"
    and "\<forall>p. previous = Some p \<longrightarrow> (\<forall>g \<in> fst ` set m. p < g)"
  shows "validate_groups d g previous selected (map (\<lambda>(g, pages). (g, required_span c sp pages)) m) =
    Inr (case map_of m g of
           None \<Rightarrow> selected
         | Some pages \<Rightarrow> Some ((range_end sp - range_start (required_span c sp pages)) div rc_page_tokens c))"
  using assms(7-9)
proof (induction m arbitrary: previous selected)
  case (Cons gp m)
  obtain k pages where gp: "gp = (k, pages)" by (cases gp)
  note span = required_span_bounds [OF assms(1-4), of pages]
  have later: "\<forall>g \<in> fst ` set m. k < g" and wf: "bt_wf m" using Cons.prems(1) gp by (auto simp: bt_wf_Cons)
  have nonempty: "range_start (required_span c sp pages) < range_end sp" if "range_start sp < range_end sp"
  proof -
    have "rc_page_tokens c \<le> range_end sp - range_start sp"
      using assms(3,4) that by (intro dvd_imp_le) auto
    then have "0 < (range_end sp - range_start sp) div rc_page_tokens c"
      using assms(1) by (simp add: div_greater_zero_iff)
    moreover have "pages \<noteq> Some 0" using Cons.prems(2) gp by auto
    ultimately show ?thesis
      using assms(1) that by (cases pages) (auto simp: required_span_def Let_def machine_defs)
  qed
  then have empty: "range_start sp = range_end sp" if "range_start (required_span c sp pages) = range_end sp"
    using assms(2) that by force
  have "k \<notin> fst ` set m" using later by blast
  then have "map_of m k = None" by (simp add: map_of_eq_None_iff)
  then show ?case
    using Cons.IH [of "Some k"] later wf Cons.prems gp span empty
    by (auto simp: d is_multiple_of_def dvd_eq_mod_eq_0 [symmetric] token_range_is_empty_def
        split: option.splits)
qed simp

lemma head_of_requirements:
  assumes "contract_wf c"
  shows "\<exists>rest. rc_requirements c = (0, None) # rest"
proof -
  have wf: "bt_wf (rc_requirements c)" and zero: "(0, None) \<in> set (rc_requirements c)"
    using assms by (auto simp: contract_wf_def in_set_iff_map_of)
  then obtain k v rest where m: "rc_requirements c = (k, v) # rest" by (cases "rc_requirements c") auto
  then have "\<forall>l \<in> fst ` set rest. k < l" using wf by (simp add: bt_wf_Cons)
  then have "(0, None) \<notin> set rest" by force
  then show ?thesis using m zero by auto
qed

text \<open>A hybrid model used by the witnesses: full attention, a sliding window and a checkpoint.\<close>

definition hybrid_requirements :: "state_requirement list" where
  "hybrid_requirements =
     [\<lparr>req_group = 1, req_components = [SlidingWindowKv], req_rule = Window 6\<rparr>,
      \<lparr>req_group = 0, req_components = [AttentionKv], req_rule = Prefix\<rparr>,
      \<lparr>req_group = 2, req_components = [RecurrentCheckpoint], req_rule = Checkpoint\<rparr>]"

definition hybrid_contract :: recovery_contract where
  "hybrid_contract = \<lparr>rc_namespace = [1], rc_page_tokens = 4,
     rc_requirements = [(0, None), (1, Some 2), (2, Some 1)]\<rparr>"

definition hybrid_bundle :: state_bundle where
  "hybrid_bundle = \<lparr>sb_namespace = [1], sb_span = \<lparr>range_start = 4, range_end = 20\<rparr>,
     sb_components =
       [\<lparr>bc_group = 0, bc_page_ends = [8, 12, 16]\<rparr>, \<lparr>bc_group = 1, bc_page_ends = [8, 12, 20]\<rparr>,
        \<lparr>bc_group = 2, bc_page_ends = [12, 16]\<rparr>]\<rparr>"

definition hybrid_shards :: "(nat \<times> nat list) list list" where
  "hybrid_shards = [[(0, [0, 1, 2]), (1, [0, 1]), (2, [0, 1])], [(2, [1]), (1, [0, 1]), (0, [0, 1])]]"

lemma hybrid_compiled: "contract_compile [1] 4 hybrid_requirements = Inr hybrid_contract"
  by (simp add: contract_compile_def hybrid_requirements_def hybrid_contract_def checked_add_def
      div_ceil_def machine_defs)

lemmas hybrid_defs = hybrid_contract_def hybrid_bundle_def hybrid_shards_def

lemmas recovery_defs = validate_span_def is_multiple_of_def required_span_def group_complete_def
  boundary_complete_def partition_point_def restorable_boundaries_def machine_defs bt_keys_def

section \<open>Properties\<close>

text \<open>
  C9. For every contract compiled from declared requirements, \<open>restorable_boundaries\<close> accepts
  exactly the well-formed evidence bundles and returns, in ascending order and without repetition,
  exactly the legal boundaries: the page-aligned positions of the span at which every group holds
  every page its declared rule asks for.
\<close>

theorem restorable_boundaries_exact:
  assumes "contract_compile ns t rs = Inr c" and "range_end (sb_span b) \<le> u64_max"
  shows "restorable_boundaries c b = Inr bs \<longleftrightarrow>
    bundle_valid ns t rs b \<and>
    bs = sorted_list_of_set {e. legal_boundary t rs (sb_span b) (evidence (sb_components b)) e}"
  using assms by (rule restorable_boundaries_iff)

theorem restorable_boundaries_exact_witness:
  "restorable_boundaries hybrid_contract hybrid_bundle = Inr [12] \<and>
   bundle_valid [1] 4 hybrid_requirements hybrid_bundle \<and>
   [12] = sorted_list_of_set
     {e. legal_boundary 4 hybrid_requirements (sb_span hybrid_bundle)
           (evidence (sb_components hybrid_bundle)) e}"
proof -
  have "restorable_boundaries hybrid_contract hybrid_bundle = Inr [12]"
    by (simp add: hybrid_defs recovery_defs)
  then show ?thesis
    using restorable_boundaries_exact [OF hybrid_compiled, of hybrid_bundle "[12]"]
    by (simp add: hybrid_bundle_def machine_defs)
qed

text \<open>
  C10. \<open>select_boundary\<close> returns the greatest position below the limit that is legal for every rank,
  the evidence of a rank being its leased page positions, and nothing when there is none.
\<close>

theorem select_boundary_greatest:
  assumes "contract_compile ns t rs = Inr c" and "range_end sp \<le> u64_max" and "shards \<noteq> []"
    and "select_boundary c ns' sp shards limit = Inr r"
  shows "r = (if {e \<in> common_legal t rs sp shards. e \<le> limit} = {} then None
              else Some (Max {e \<in> common_legal t rs sp shards. e \<le> limit}))"
proof -
  obtain bs where "common_boundaries c ns' sp shards = Inr bs" and r: "r = find (\<lambda>e. e \<le> limit) (rev bs)"
    using assms(4) by (auto simp: select_boundary_def rbind_eq_Inr_iff)
  then have "sorted_wrt (<) bs \<and> set bs = common_legal t rs sp shards"
    using common_boundaries_Inr assms(1-3) by blast
  then show ?thesis using r find_rev_sorted [of bs limit] by simp
qed

theorem select_boundary_greatest_witness:
  "select_boundary hybrid_contract [1] \<lparr>range_start = 4, range_end = 20\<rparr> hybrid_shards 15 = Inr (Some 12) \<and>
   Some 12 =
     (let legal = {e \<in> common_legal 4 hybrid_requirements \<lparr>range_start = 4, range_end = 20\<rparr> hybrid_shards.
                   e \<le> 15}
      in if legal = {} then None else Some (Max legal))"
proof -
  have "select_boundary hybrid_contract [1] \<lparr>range_start = 4, range_end = 20\<rparr> hybrid_shards 15 =
      Inr (Some 12)"
    by (simp add: hybrid_defs recovery_defs select_boundary_def common_boundaries_def shard_boundaries_def
        shard_component_def position_end_def checked_add_def checked_mul_def sort_dedup_def)
  then show ?thesis
    using select_boundary_greatest [OF hybrid_compiled,
        of "\<lparr>range_start = 4, range_end = 20\<rparr>" hybrid_shards "[1]" 15 "Some 12"]
    by (simp add: hybrid_shards_def machine_defs Let_def)
qed

text \<open>
  C25. The demand a contract computes for a span is accepted by the receiving side for every group,
  with the number of blocks the contract's own read range selects for that group.
\<close>

theorem contract_demand_validates:
  assumes "contract_compile ns t rs = Inr c" and "range_end sp \<le> u64_max"
    and "contract_demand c ns' sp = Inr d" and "read_range c ns' sp g batch_len = Inr (lo, hi)"
  shows "demand_validate d g (hi - lo) = Inr ()"
proof -
  have wf: "contract_wf c" using contract_compile_wf [OF assms(1)] .
  have v: "0 < rc_page_tokens c" "range_start sp \<le> range_end sp"
    "rc_page_tokens c dvd range_start sp" "rc_page_tokens c dvd range_end sp"
    using assms(3) wf
    by (auto simp: contract_demand_def required_ranges_def rbind_eq_Inr_iff validate_span_Inr_iff
        contract_wf_def)
  have d: "d = \<lparr>rd_page_tokens = rc_page_tokens c, rd_span = sp,
      rd_groups = map (\<lambda>(g, pages). (g, required_span c sp pages)) (rc_requirements c)\<rparr>"
    using assms(3) by (auto simp: contract_demand_def required_ranges_def rbind_eq_Inr_iff)
  obtain pages where pages: "map_of (rc_requirements c) g = Some pages"
    and lo: "lo = (range_start (required_span c sp pages) - range_start sp) div rc_page_tokens c"
    and hi: "hi = (range_end (required_span c sp pages) - range_start sp) div rc_page_tokens c"
    using assms(4) by (auto simp: read_range_def rbind_eq_Inr_iff ok_or_eq_Inr_iff Let_def split: if_splits)
  note span = required_span_bounds [OF v, of pages]
  have "hi - lo = (range_end sp - range_start (required_span c sp pages)) div rc_page_tokens c"
    unfolding lo hi span(1) using v span by (auto elim!: dvdE simp: diff_mult_distrib2 [symmetric])
  moreover obtain rest where "rc_requirements c = (0, None) # rest" using head_of_requirements [OF wf] by blast
  moreover have "required_span c sp None = sp"
    using required_span_prefix [OF v(1,2) assms(2) v(3,4)] required_span_bounds(1) [OF v, of None]
    by (simp add: token_range.equality)
  ultimately show ?thesis
    using validate_groups_requirements [OF v, of d "rc_requirements c" None g None] wf pages v
    by (simp add: demand_validate_def d is_multiple_of_def dvd_eq_mod_eq_0 contract_wf_def)
qed

theorem contract_demand_validates_witness:
  "\<exists>d. contract_demand hybrid_contract [1] \<lparr>range_start = 4, range_end = 20\<rparr> = Inr d \<and>
       read_range hybrid_contract [1] \<lparr>range_start = 4, range_end = 20\<rparr> 1 4 = Inr (2, 4) \<and>
       demand_validate d 1 (4 - 2) = Inr ()"
proof -
  have "read_range hybrid_contract [1] \<lparr>range_start = 4, range_end = 20\<rparr> 1 4 = Inr (2, 4)"
    by (simp add: hybrid_defs recovery_defs read_range_def)
  moreover have "\<exists>d. contract_demand hybrid_contract [1] \<lparr>range_start = 4, range_end = 20\<rparr> = Inr d"
    by (simp add: hybrid_defs recovery_defs contract_demand_def required_ranges_def)
  ultimately show ?thesis
    using contract_demand_validates [OF hybrid_compiled, of "\<lparr>range_start = 4, range_end = 20\<rparr>" "[1]"]
    by (fastforce simp: machine_defs)
qed

end
