(* ===== verification/Membership.thy ===== *)
theory Membership
  imports State_Identity
begin

text \<open>
  The membership view (\<open>orbitkv-catalog/src/membership.rs\<close>): the members the control plane last
  reported, the runtime's conservative registration deadline and the fence. Every operation that
  reads the clock takes the reading \<open>now\<close> as an argument. The map of members is never iterated, so
  it is a partial function. The update operations are the labels of a trace of clocked steps.
\<close>

record membership_state =
  mem_members :: "uuid \<rightharpoonup> cache_owner"
  mem_ready :: bool
  mem_valid_until :: "instant option"
  mem_fenced :: bool

record membership_view =
  mem_owner :: cache_owner
  mem_state :: membership_state

definition membership_new :: "cache_owner \<Rightarrow> membership_view" where
  "membership_new owner =
     \<lparr>mem_owner = owner,
      mem_state = \<lparr>mem_members = Map.empty, mem_ready = False, mem_valid_until = None,
                   mem_fenced = False\<rparr>\<rparr>"

definition resolve :: "membership_view \<Rightarrow> instant \<Rightarrow> uuid \<Rightarrow> cache_owner option" where
  "resolve m now inc =
     (let state = mem_state m in
      if mem_fenced state \<or> \<not> mem_ready state
         \<or> (case mem_valid_until state of None \<Rightarrow> True | Some limit \<Rightarrow> now \<ge> limit)
      then None
      else mem_members state inc)"

definition instant_add :: "instant \<Rightarrow> duration \<Rightarrow> instant option" where
  "instant_add t d = (if t + d \<le> instant_max then Some (t + d) else None)"

definition renew :: "membership_view \<Rightarrow> instant \<Rightarrow> instant \<Rightarrow> duration \<Rightarrow> membership_view \<times> bool" where
  "renew m now sent_at ttl =
     (let state = mem_state m; deadline = instant_add sent_at (ttl div 2) in
      if mem_fenced state
         \<or> (case mem_valid_until state of None \<Rightarrow> False | Some limit \<Rightarrow> now \<ge> limit)
         \<or> (case deadline of None \<Rightarrow> True | Some limit \<Rightarrow> now \<ge> limit)
      then (m\<lparr>mem_state := state\<lparr>mem_fenced := True\<rparr>\<rparr>, False)
      else (m\<lparr>mem_state := state\<lparr>mem_valid_until := deadline\<rparr>\<rparr>, True))"

definition replace_members :: "membership_view \<Rightarrow> (bytes \<times> cache_owner) list \<Rightarrow> membership_view" where
  "replace_members m members =
     (let table = fold (\<lambda>(_, owner) t. t(incarnation owner \<mapsto> owner)) members Map.empty;
          state = (mem_state m)\<lparr>mem_members := table, mem_ready := True\<rparr>
      in if table (incarnation (mem_owner m)) \<noteq> Some (mem_owner m)
         then m\<lparr>mem_state := state\<lparr>mem_fenced := True\<rparr>\<rparr>
         else m\<lparr>mem_state := state\<rparr>)"

definition invalidate_snapshot :: "membership_view \<Rightarrow> membership_view" where
  "invalidate_snapshot m =
     m\<lparr>mem_state := (mem_state m)\<lparr>mem_ready := False, mem_members := Map.empty\<rparr>\<rparr>"

definition fence :: "membership_view \<Rightarrow> membership_view" where
  "fence m = m\<lparr>mem_state := (mem_state m)\<lparr>mem_fenced := True\<rparr>\<rparr>"

definition registration_valid :: "membership_view \<Rightarrow> instant \<Rightarrow> bool" where
  "registration_valid m now \<longleftrightarrow>
     \<not> mem_fenced (mem_state m)
     \<and> (case mem_valid_until (mem_state m) of None \<Rightarrow> False | Some limit \<Rightarrow> now < limit)"

definition permits :: "membership_view \<Rightarrow> instant \<Rightarrow> cache_owner \<Rightarrow> bool" where
  "permits m now owner \<longleftrightarrow>
     \<not> mem_fenced (mem_state m)
     \<and> mem_ready (mem_state m)
     \<and> (case mem_valid_until (mem_state m) of None \<Rightarrow> False | Some limit \<Rightarrow> now < limit)
     \<and> mem_members (mem_state m) (incarnation owner) = Some owner"

section \<open>Traces\<close>

datatype membership_op =
    Renew instant duration
  | ReplaceMembers "(bytes \<times> cache_owner) list"
  | InvalidateSnapshot
  | Fence

fun membership_step :: "membership_view \<Rightarrow> instant \<times> membership_op \<Rightarrow> membership_view" where
  "membership_step m (now, Renew sent_at ttl) = fst (renew m now sent_at ttl)"
| "membership_step m (now, ReplaceMembers members) = replace_members m members"
| "membership_step m (now, InvalidateSnapshot) = invalidate_snapshot m"
| "membership_step m (now, Fence) = fence m"

definition membership_run :: "membership_view \<Rightarrow> (instant \<times> membership_op) list \<Rightarrow> membership_view" where
  "membership_run = foldl membership_step"

text \<open>The registration is over at time \<open>t\<close>: fenced, or past its deadline.\<close>

definition expired :: "membership_view \<Rightarrow> instant \<Rightarrow> bool" where
  "expired m t \<longleftrightarrow>
     mem_fenced (mem_state m)
     \<or> (case mem_valid_until (mem_state m) of None \<Rightarrow> False | Some limit \<Rightarrow> limit \<le> t)"

text \<open>The last renewal of a trace that the view accepted.\<close>

fun accepted_renewals ::
  "membership_view \<Rightarrow> (instant \<times> membership_op) list \<Rightarrow> (instant \<times> duration) list" where
  "accepted_renewals m [] = []"
| "accepted_renewals m ((now, op) # ops) =
     (case op of
        Renew sent_at ttl \<Rightarrow> (if snd (renew m now sent_at ttl) then [(sent_at, ttl)] else [])
      | _ \<Rightarrow> []) @ accepted_renewals (membership_step m (now, op)) ops"

lemma membership_run_simps [simp]:
  "membership_run m [] = m"
  "membership_run m (op # ops) = membership_run (membership_step m op) ops"
  by (simp_all add: membership_run_def)

lemmas membership_defs = renew_def replace_members_def invalidate_snapshot_def fence_def Let_def

lemma expired_step: "expired m t \<Longrightarrow> t \<le> now \<Longrightarrow> expired (membership_step m (now, op)) t"
  by (cases op) (auto simp: expired_def membership_defs split: option.splits)

lemma expired_run:
  "expired m t \<Longrightarrow> \<forall>(now, op) \<in> set ops. t \<le> now \<Longrightarrow> expired (membership_run m ops) t"
proof (induction ops arbitrary: m)
  case (Cons op ops)
  obtain now lab where "op = (now, lab)" by (cases op)
  then show ?case using Cons expired_step [of m t now lab] by simp
qed simp

lemma expired_rejects:
  "expired m t \<Longrightarrow> t \<le> now \<Longrightarrow>
     resolve m now inc = None \<and> \<not> permits m now owner \<and> \<not> registration_valid m now"
  by (auto simp: expired_def resolve_def permits_def registration_valid_def Let_def
      split: option.splits)

lemma valid_until_step:
  "mem_valid_until (mem_state (membership_step m (now, op))) =
     (case op of
        Renew sent_at ttl \<Rightarrow>
          (if snd (renew m now sent_at ttl) then Some (sent_at + ttl div 2)
           else mem_valid_until (mem_state m))
      | _ \<Rightarrow> mem_valid_until (mem_state m))"
  by (cases op) (auto simp: membership_defs instant_add_def split: option.splits if_splits)

lemma valid_until_run:
  "mem_valid_until (mem_state (membership_run m ops)) =
     (case accepted_renewals m ops of
        [] \<Rightarrow> mem_valid_until (mem_state m)
      | rs \<Rightarrow> (case last rs of (sent_at, ttl) \<Rightarrow> Some (sent_at + ttl div 2)))"
proof (induction ops arbitrary: m)
  case (Cons op ops)
  obtain now lab where op: "op = (now, lab)" by (cases op)
  show ?case
    using Cons [of "membership_step m op"] valid_until_step [of m now lab]
    by (auto simp: op split: list.splits membership_op.splits)
qed simp

lemma mem_owner_step [simp]: "mem_owner (membership_step m op) = mem_owner m"
  by (cases op; cases "snd op") (auto simp: membership_defs split: option.splits)

lemma mem_owner_run [simp]: "mem_owner (membership_run m ops) = mem_owner m"
  by (induction ops arbitrary: m) auto

text \<open>The members table only holds owners under their own incarnation.\<close>

definition table_keyed :: "(uuid \<rightharpoonup> cache_owner) \<Rightarrow> bool" where
  "table_keyed t \<longleftrightarrow> (\<forall>inc. case t inc of None \<Rightarrow> True | Some owner \<Rightarrow> incarnation owner = inc)"

definition members_keyed :: "membership_view \<Rightarrow> bool" where
  "members_keyed m \<longleftrightarrow> table_keyed (mem_members (mem_state m))"

lemma table_keyed_empty [simp]: "table_keyed Map.empty"
  by (simp add: table_keyed_def)

lemma table_keyedD: "table_keyed t \<Longrightarrow> t inc = Some owner \<Longrightarrow> incarnation owner = inc"
  unfolding table_keyed_def by (drule spec [of _ inc]) simp

lemma table_keyed_upd: "table_keyed t \<Longrightarrow> table_keyed (t(incarnation owner \<mapsto> owner))"
  by (simp add: table_keyed_def)

lemma table_keyed_fold:
  "table_keyed t \<Longrightarrow> table_keyed (fold (\<lambda>(_, owner) t. t(incarnation owner \<mapsto> owner)) members t)"
  by (induction members arbitrary: t) (simp_all add: table_keyed_upd split_beta del: fun_upd_apply)

lemma members_keyed_step: "members_keyed m \<Longrightarrow> members_keyed (membership_step m op)"
  by (cases op; cases "snd op")
    (simp_all add: members_keyed_def membership_defs table_keyed_fold split: option.splits)

definition membership_start :: "membership_view \<Rightarrow> bool" where
  "membership_start m \<longleftrightarrow> (\<exists>owner. m = membership_new owner)"

interpretation mem: invariant_system membership_start "\<lambda>m m'. \<exists>op. m' = membership_step m op" members_keyed
proof
  show "members_keyed m" if "membership_start m" for m
    using that by (auto simp: membership_start_def membership_new_def members_keyed_def)
  show "members_keyed m'" if "members_keyed m" and "\<exists>op. m' = membership_step m op" for m m'
    using that members_keyed_step by blast
qed

lemma membership_run_reach:
  "reach membership_start (\<lambda>m m'. \<exists>op. m' = membership_step m op) (membership_run (membership_new owner) ops)"
proof (induction ops rule: rev_induct)
  case Nil
  then show ?case by (auto simp: membership_start_def intro: reach_start)
next
  case (snoc op ops)
  have "membership_run (membership_new owner) (ops @ [op]) =
      membership_step (membership_run (membership_new owner) ops) op"
    by (simp add: membership_run_def)
  then show ?case using reach_step [OF snoc] by metis
qed

section \<open>Properties\<close>

text \<open>
  C27. A delayed acknowledgement cannot revive an expired runtime: once the registration has been
  fenced or its deadline has passed, no later sequence of renewals, membership snapshots and
  invalidations makes the view resolve a member, permit an owner or report a valid registration.
\<close>

theorem expired_is_final:
  assumes "expired m t" and "\<forall>(now, op) \<in> set ops. t \<le> now" and "t \<le> now"
  shows "resolve (membership_run m ops) now inc = None \<and>
    \<not> permits (membership_run m ops) now owner \<and> \<not> registration_valid (membership_run m ops) now"
  using expired_run [OF assms(1,2)] assms(3) by (rule expired_rejects)

theorem expired_is_final_witness:
  "resolve (membership_run (membership_new \<lparr>endpoint = [1], incarnation = 7\<rparr>)
      [(5, Renew 0 20), (12, Renew 11 20),
       (13, ReplaceMembers [([], \<lparr>endpoint = [1], incarnation = 7\<rparr>)])]) 14 7 = None"
  using expired_is_final [of "membership_run (membership_new \<lparr>endpoint = [1], incarnation = 7\<rparr>)
      [(5, Renew 0 20)]" 12 "[(12, Renew 11 20),
       (13, ReplaceMembers [([], \<lparr>endpoint = [1], incarnation = 7\<rparr>)])]" 14 7]
  by (simp add: expired_def membership_new_def renew_def instant_add_def machine_defs Let_def)

text \<open>
  C34. Whenever a view built from scratch reports a valid registration, the last renewal it accepted
  was sent less than half of its time to live ago.
\<close>

theorem registration_within_half_ttl:
  assumes "registration_valid (membership_run (membership_new owner) ops) now"
  shows "\<exists>sent_at ttl. (sent_at, ttl) = last (accepted_renewals (membership_new owner) ops) \<and>
    accepted_renewals (membership_new owner) ops \<noteq> [] \<and> now < sent_at + ttl div 2"
  using assms valid_until_run [of "membership_new owner" ops]
  by (auto simp: registration_valid_def membership_new_def split: option.splits list.splits prod.splits)

theorem registration_within_half_ttl_witness:
  "\<exists>sent_at ttl. (sent_at, ttl) =
      last (accepted_renewals (membership_new \<lparr>endpoint = [1], incarnation = 7\<rparr>)
        [(5, Renew 0 20), (8, Renew 7 10)]) \<and> 11 < sent_at + ttl div 2"
  using registration_within_half_ttl [of "\<lparr>endpoint = [1], incarnation = 7\<rparr>"
      "[(5, Renew 0 20), (8, Renew 7 10)]" 11]
  by (auto simp: registration_valid_def membership_new_def renew_def instant_add_def machine_defs Let_def)

text \<open>
  C35. The two readings of the membership agree on every reachable view: an owner is permitted exactly
  when its incarnation resolves to it, and what an incarnation resolves to carries that incarnation.
\<close>

theorem permits_iff_resolve:
  assumes "reach membership_start (\<lambda>m m'. \<exists>op. m' = membership_step m op) m"
  shows "(permits m now owner \<longleftrightarrow> resolve m now (incarnation owner) = Some owner) \<and>
    (resolve m now inc = Some owner \<longrightarrow> permits m now owner \<and> incarnation owner = inc)"
proof -
  have same: "permits m now owner \<longleftrightarrow> resolve m now (incarnation owner) = Some owner"
    by (auto simp: permits_def resolve_def Let_def split: option.splits)
  have "incarnation owner = inc" if "resolve m now inc = Some owner"
  proof -
    have "mem_members (mem_state m) inc = Some owner"
      using that by (auto simp: resolve_def Let_def split: if_splits)
    then show ?thesis
      using mem.reach_inv [OF assms] unfolding members_keyed_def by (rule table_keyedD [rotated])
  qed
  then show ?thesis using same by blast
qed

theorem permits_iff_resolve_witness:
  "(let m = membership_run (membership_new \<lparr>endpoint = [1], incarnation = 7\<rparr>)
       [(5, Renew 0 20),
        (6, ReplaceMembers [([], \<lparr>endpoint = [1], incarnation = 7\<rparr>), ([], \<lparr>endpoint = [2], incarnation = 9\<rparr>)])]
    in resolve m 8 9 = Some \<lparr>endpoint = [2], incarnation = 9\<rparr> \<and> permits m 8 \<lparr>endpoint = [2], incarnation = 9\<rparr>)"
proof -
  let ?o = "\<lparr>endpoint = [1], incarnation = 7\<rparr>" and ?p = "\<lparr>endpoint = [2], incarnation = 9\<rparr>"
  let ?m = "membership_run (membership_new ?o) [(5, Renew 0 20), (6, ReplaceMembers [([], ?o), ([], ?p)])]"
  have "resolve ?m 8 9 = Some ?p"
    by (simp add: resolve_def membership_new_def replace_members_def renew_def instant_add_def
        machine_defs Let_def)
  then show ?thesis
    using permits_iff_resolve [OF membership_run_reach, of ?o _ 8 ?p 9] by (auto simp only: Let_def)
qed

end
