(* ===== verification/Global_Index.thy ===== *)
theory Global_Index
  imports Membership
begin

text \<open>
  The consumer-side global residency index (\<open>orbitkv-catalog/src/index.rs\<close>): staged snapshots and
  installed views per owner, the inverted table from keys to replicas, the metadata budget and the
  coverage counters.

  The view is passed explicitly; an operation returns the new view and its \<open>Result\<close>, and the whole
  is \<open>None\<close> when the code would panic (an unsigned underflow, a failed \<open>expect\<close>). The byte limit,
  the scope and the membership view are arguments where the method reads \<open>self\<close>. Counters that
  grow by one per call and sums of the sizes of live values are unbounded naturals. The
  lock-timing metrics are left out. \<open>blocks\<close> and its entries follow the code's order of insertion.
\<close>

section \<open>State\<close>

definition OWNER_ACCOUNTING_BYTES :: nat where
  "OWNER_ACCOUNTING_BYTES = 256"

type_synonym residence = "state_key \<times> replica_medium"
type_synonym residence_map = "(residence, inventory_record) btree"

datatype delta_apply = Applied | Duplicate | Overlap nat

record entry =
  e_owner :: uuid
  e_sequence :: nat
  e_metadata :: replica_metadata

record owner_view =
  ov_view_id :: uuid
  ov_applied_sequence :: nat
  ov_installed_mono_ns :: nat
  ov_records :: residence_map
  ov_fresh :: bool
  ov_received_at :: instant
  ov_retired :: bool

record staging_view =
  st_session_id :: uuid
  st_snapshot_id :: uuid
  st_view_id :: uuid
  st_start_sequence :: nat
  st_replay_sequence :: nat
  st_next_page :: nat
  st_replay_started :: bool
  st_last_residence :: "residence option"
  st_max_record_sequence :: nat
  st_records :: residence_map
  st_bytes :: nat

type_synonym block_table = "state_key \<rightharpoonup> entry list"

record view =
  v_blocks :: block_table
  v_owners :: "(uuid, owner_view) btree"
  v_staging :: "(uuid, staging_view) btree"
  v_expected :: "uuid list"
  v_accounted_bytes :: nat
  v_active_bytes :: nat
  v_staging_bytes :: nat
  v_membership_revision :: "int option"
  v_generation :: nat
  v_admitted_owner_views :: nat
  v_fresh_expected_owner_views :: nat

record global_index =
  gi_membership :: membership_view
  gi_scope :: inventory_scope
  gi_view :: view
  gi_byte_limit :: nat

definition view_default :: view where
  "view_default =
     \<lparr>v_blocks = Map.empty, v_owners = [], v_staging = [], v_expected = [], v_accounted_bytes = 0,
      v_active_bytes = 0, v_staging_bytes = 0, v_membership_revision = None, v_generation = 0,
      v_admitted_owner_views = 0, v_fresh_expected_owner_views = 0\<rparr>"

definition global_index_new :: "membership_view \<Rightarrow> nat \<Rightarrow> inventory_scope \<Rightarrow> global_index" where
  "global_index_new m byte_limit scope =
     \<lparr>gi_membership = m, gi_scope = scope, gi_view = view_default, gi_byte_limit = byte_limit\<rparr>"

section \<open>Helpers\<close>

definition entry_bytes :: "state_key \<Rightarrow> nat" where
  "entry_bytes key = 320 + length (namespace key) + length (hash key)"

definition insert_block :: "block_table \<Rightarrow> uuid \<Rightarrow> inventory_record \<Rightarrow> block_table option" where
  "insert_block blocks owner r =
     (if \<not> rec_present r then Some blocks
      else case rec_metadata r of
        None \<Rightarrow> None
      | Some md \<Rightarrow>
          Some (blocks(rec_key r \<mapsto>
            (case blocks (rec_key r) of None \<Rightarrow> [] | Some es \<Rightarrow> es) @
            [\<lparr>e_owner = owner, e_sequence = rec_sequence r, e_metadata = md\<rparr>])))"

definition remove_block :: "block_table \<Rightarrow> uuid \<Rightarrow> residence \<Rightarrow> block_table" where
  "remove_block blocks owner res =
     (case blocks (fst res) of
        None \<Rightarrow> blocks
      | Some es \<Rightarrow>
          (let es' = filter (\<lambda>e. \<not> (e_owner e = owner \<and> medium (e_metadata e) = snd res)) es
           in blocks(fst res := (if es' = [] then None else Some es'))))"

fun insert_blocks :: "block_table \<Rightarrow> uuid \<Rightarrow> inventory_record list \<Rightarrow> block_table option" where
  "insert_blocks blocks owner [] = Some blocks"
| "insert_blocks blocks owner (r # rs) =
     do { blocks' \<leftarrow> insert_block blocks owner r; insert_blocks blocks' owner rs }"

definition release_staging :: "view \<Rightarrow> nat \<Rightarrow> view option" where
  "release_staging v bs =
     do { staging \<leftarrow> usub (v_staging_bytes v) bs;
          accounted \<leftarrow> usub (v_accounted_bytes v) bs;
          Some (v\<lparr>v_staging_bytes := staging, v_accounted_bytes := accounted\<rparr>) }"

definition release_active :: "view \<Rightarrow> nat \<Rightarrow> view option" where
  "release_active v bs =
     do { active \<leftarrow> usub (v_active_bytes v) bs;
          accounted \<leftarrow> usub (v_accounted_bytes v) bs;
          Some (v\<lparr>v_active_bytes := active, v_accounted_bytes := accounted\<rparr>) }"

definition next_generation :: "view \<Rightarrow> view" where
  "next_generation v = v\<lparr>v_generation := saturating_add (v_generation v) 1\<rparr>"

definition lose_fresh :: "view \<Rightarrow> bool \<Rightarrow> view option" where
  "lose_fresh v became_stale =
     (if became_stale
      then do { n \<leftarrow> usub (v_fresh_expected_owner_views v) 1;
                Some (v\<lparr>v_fresh_expected_owner_views := n\<rparr>) }
      else Some v)"

definition lose_admitted :: "view \<Rightarrow> bool \<Rightarrow> view option" where
  "lose_admitted v was_admitted =
     (if was_admitted
      then do { n \<leftarrow> usub (v_admitted_owner_views v) 1;
                Some (v\<lparr>v_admitted_owner_views := n\<rparr>) }
      else Some v)"

definition gain_fresh :: "view \<Rightarrow> bool \<Rightarrow> view" where
  "gain_fresh v became_fresh =
     (if became_fresh
      then v\<lparr>v_fresh_expected_owner_views := v_fresh_expected_owner_views v + 1\<rparr> else v)"

definition counts_fresh :: "view \<Rightarrow> uuid \<Rightarrow> owner_view \<Rightarrow> bool" where
  "counts_fresh v owner ov \<longleftrightarrow> ov_fresh ov \<and> \<not> ov_retired ov \<and> owner \<in> set (v_expected v)"

definition remove_active_owner :: "view \<Rightarrow> uuid \<Rightarrow> view option" where
  "remove_active_owner v owner =
     (case map_of (v_owners v) owner of
        None \<Rightarrow> Some v
      | Some previous \<Rightarrow>
          do { v1 \<leftarrow> lose_admitted (v\<lparr>v_owners := bt_remove owner (v_owners v)\<rparr>) (\<not> ov_retired previous);
               v2 \<leftarrow> lose_fresh v1 (counts_fresh v owner previous);
               release_active
                 (v2\<lparr>v_blocks := fold (\<lambda>res b. remove_block b owner res) (bt_keys (ov_records previous))
                                  (v_blocks v2)\<rparr>)
                 (OWNER_ACCOUNTING_BYTES
                  + sum_list (map (\<lambda>res. entry_bytes (fst res)) (bt_keys (ov_records previous)))) })"

definition refresh_coverage_counts :: "view \<Rightarrow> view" where
  "refresh_coverage_counts v =
     v\<lparr>v_admitted_owner_views := length (filter (\<lambda>ov. \<not> ov_retired ov) (bt_values (v_owners v))),
       v_fresh_expected_owner_views :=
         length (filter (\<lambda>owner. case map_of (v_owners v) owner of
                                   None \<Rightarrow> False
                                 | Some ov \<Rightarrow> \<not> ov_retired ov \<and> ov_fresh ov) (v_expected v))\<rparr>"

definition coverage :: "view \<Rightarrow> bool \<Rightarrow> discovery_coverage" where
  "coverage v registered =
     (if \<not> registered \<or> v_membership_revision v = None then Unavailable
      else if v_fresh_expected_owner_views v = length (v_expected v) then CompleteAtWatermarks
      else if v_admitted_owner_views v > 0 then PartialHints
      else Unavailable)"

section \<open>Validation of records\<close>

definition validate_record :: "inventory_record \<Rightarrow> string + residence" where
  "validate_record r =
     rbind (ok_or (rec_metadata r) ''missing residency metadata'') (\<lambda>md.
       if rec_sequence r = 0
          \<or> namespace (rec_key r) = []
          \<or> hash (rec_key r) = []
          \<or> \<not> (medium md = Dram \<or> medium md = Ssd)
          \<or> representation md = UnknownRepresentation
       then Inl ''invalid global residency record''
       else Inr (rec_key r, medium md))"

fun validate_page_loop ::
  "inventory_scope \<Rightarrow> residence option \<Rightarrow> nat \<Rightarrow> (residence \<times> inventory_record) list \<Rightarrow>
   inventory_record list \<Rightarrow> string + (nat \<times> (residence \<times> inventory_record) list)" where
  "validate_page_loop scope last_res bs updates [] = Inr (bs, updates)"
| "validate_page_loop scope last_res bs updates (r # rs) =
     (if \<not> scope_contains scope (namespace (rec_key r))
      then Inl ''inventory record is outside the installed scope''
      else rbind (validate_record r) (\<lambda>res.
        if \<not> rec_present r \<or> (case last_res of None \<Rightarrow> False | Some l \<Rightarrow> res \<le> l)
        then Inl ''inventory snapshot page is unsorted or contains a deletion''
        else rbind (ok_or (checked_add bs (entry_bytes (rec_key r))) ''inventory staging byte overflow'')
          (\<lambda>bs'. validate_page_loop scope (Some res) bs' (updates @ [(res, r)]) rs)))"

definition validate_page ::
  "residence option \<Rightarrow> inventory_record list \<Rightarrow> inventory_scope \<Rightarrow>
   string + (nat \<times> (residence \<times> inventory_record) list)" where
  "validate_page previous rs scope = validate_page_loop scope previous 0 [] rs"

fun latest_records ::
  "inventory_scope \<Rightarrow> nat \<Rightarrow> nat \<Rightarrow> residence_map \<Rightarrow> inventory_record list \<Rightarrow> string + residence_map" where
  "latest_records scope from_excl through latest [] = Inr latest"
| "latest_records scope from_excl through latest (r # rs) =
     (if \<not> scope_contains scope (namespace (rec_key r))
      then Inl ''inventory record is outside the installed scope''
      else if rec_sequence r \<le> from_excl \<or> rec_sequence r > through
      then Inl ''inventory record lies outside its covered interval''
      else rbind (validate_record r) (\<lambda>res.
        case map_of latest res of
          Some previous \<Rightarrow>
            if rec_sequence previous > rec_sequence r
            then latest_records scope from_excl through latest rs
            else if rec_sequence previous = rec_sequence r \<and> previous \<noteq> r
            then Inl ''conflicting inventory records at one generation''
            else latest_records scope from_excl through (bt_insert res r latest) rs
        | None \<Rightarrow> latest_records scope from_excl through (bt_insert res r latest) rs))"

definition signed_bytes :: "state_key \<Rightarrow> int" where
  "signed_bytes key = (if entry_bytes key \<le> isize_max then int (entry_bytes key) else int isize_max)"

fun byte_delta :: "residence_map \<Rightarrow> int \<Rightarrow> residence_map \<Rightarrow> string + int" where
  "byte_delta current delta [] = Inr delta"
| "byte_delta current delta ((res, r) # rest) =
     (case map_of current res of
        Some previous \<Rightarrow>
          if rec_sequence previous > rec_sequence r then byte_delta current delta rest
          else if rec_sequence previous = rec_sequence r \<and> previous \<noteq> r
          then Inl ''conflicting inventory generation''
          else byte_delta current
                 (if \<not> rec_present r then delta - signed_bytes (rec_key r) else delta) rest
      | None \<Rightarrow>
          byte_delta current
            (if rec_present r then delta + signed_bytes (rec_key r) else delta) rest)"

definition validate_delta ::
  "residence_map \<Rightarrow> nat \<Rightarrow> nat \<Rightarrow> inventory_record list \<Rightarrow> inventory_scope \<Rightarrow>
   string + (int \<times> (residence \<times> inventory_record) list)" where
  "validate_delta current from_excl through rs scope =
     (if from_excl \<ge> through then Inl ''inventory delta interval is empty or reversed''
      else rbind (latest_records scope from_excl through [] rs) (\<lambda>latest.
           rbind (byte_delta current 0 latest) (\<lambda>delta. Inr (delta, latest))))"

fun apply_records :: "residence_map \<Rightarrow> (residence \<times> inventory_record) list \<Rightarrow> residence_map" where
  "apply_records records [] = records"
| "apply_records records ((res, r) # rest) =
     (if (case map_of records res of None \<Rightarrow> False | Some previous \<Rightarrow> rec_sequence previous > rec_sequence r)
      then apply_records records rest
      else if rec_present r then apply_records (bt_insert res r records) rest
      else apply_records (bt_remove res records) rest)"

section \<open>Operations\<close>

definition reset :: "view \<Rightarrow> view" where
  "reset v = view_default"

fun drop_staging :: "view \<Rightarrow> (uuid \<times> nat) list \<Rightarrow> view option" where
  "drop_staging v [] = Some v"
| "drop_staging v ((owner, bs) # rest) =
     do { v' \<leftarrow> release_staging (v\<lparr>v_staging := bt_remove owner (v_staging v)\<rparr>) bs;
          drop_staging v' rest }"

definition set_expected_owners :: "uuid \<Rightarrow> view \<Rightarrow> int \<Rightarrow> uuid list \<Rightarrow> view option" where
  "set_expected_owners local_owner v revision owners =
     (let expected = remdups (filter (\<lambda>owner. owner \<noteq> local_owner) owners) in
      if (case v_membership_revision v of None \<Rightarrow> False | Some current \<Rightarrow> revision < current) then Some v
      else
        (let v1 = v\<lparr>v_owners :=
               map (\<lambda>(owner, ov). (owner, if owner \<notin> set expected
                                          then ov\<lparr>ov_retired := True, ov_fresh := False\<rparr> else ov))
                 (v_owners v)\<rparr>;
             retired_staging =
               map (\<lambda>(owner, st). (owner, st_bytes st))
                 (filter (\<lambda>(owner, st). owner \<notin> set expected) (v_staging v1))
         in do { v2 \<leftarrow> drop_staging v1 retired_staging;
                 Some (next_generation (refresh_coverage_counts
                   (v2\<lparr>v_expected := expected, v_membership_revision := Some revision\<rparr>))) }))"

text \<open>The closure of \<open>mark_syncing\<close> and \<open>begin_snapshot\<close> that takes an owner's view out of the fresh ones.\<close>

definition make_stale :: "view \<Rightarrow> uuid \<Rightarrow> view option" where
  "make_stale v owner =
     (case map_of (v_owners v) owner of
        None \<Rightarrow> Some v
      | Some ov \<Rightarrow>
          lose_fresh (v\<lparr>v_owners := bt_insert owner (ov\<lparr>ov_fresh := False\<rparr>) (v_owners v)\<rparr>)
            (counts_fresh v owner ov))"

definition mark_syncing :: "view \<Rightarrow> uuid \<Rightarrow> view option" where
  "mark_syncing v owner = do { v' \<leftarrow> make_stale v owner; Some (next_generation v') }"

definition mark_stale :: "view \<Rightarrow> uuid \<Rightarrow> view option" where
  "mark_stale v owner = mark_syncing v owner"

definition confirm_progress ::
  "view \<Rightarrow> instant \<Rightarrow> uuid \<Rightarrow> uuid \<Rightarrow> nat \<Rightarrow> view \<times> (string + unit)" where
  "confirm_progress v now owner view_id applied_sequence =
     (case map_of (v_owners v) owner of
        None \<Rightarrow> (v, Inl ''owner view is not installed'')
      | Some ov \<Rightarrow>
          if ov_retired ov \<or> ov_view_id ov \<noteq> view_id \<or> ov_applied_sequence ov \<noteq> applied_sequence
          then (v, Inl ''owner progress does not match the installed view'')
          else
            (next_generation (gain_fresh
               (v\<lparr>v_owners := bt_insert owner (ov\<lparr>ov_fresh := True, ov_received_at := now\<rparr>) (v_owners v)\<rparr>)
               (\<not> ov_fresh ov \<and> owner \<in> set (v_expected v))), Inr ()))"

text \<open>The removal of an owner's staged snapshot, with the bytes it was charged.\<close>

definition discard_staging :: "view \<Rightarrow> uuid \<Rightarrow> view option" where
  "discard_staging v owner =
     (case map_of (v_staging v) owner of
        None \<Rightarrow> Some v
      | Some st \<Rightarrow> release_staging (v\<lparr>v_staging := bt_remove owner (v_staging v)\<rparr>) (st_bytes st))"

definition begin_snapshot ::
  "nat \<Rightarrow> view \<Rightarrow> uuid \<Rightarrow> uuid \<Rightarrow> uuid \<Rightarrow> uuid \<Rightarrow> nat \<Rightarrow> (view \<times> (string + unit)) option" where
  "begin_snapshot byte_limit v owner session_id snapshot_id view_id start_sequence =
     (if owner = 0 \<or> session_id = 0 \<or> snapshot_id = 0 \<or> view_id = 0
      then Some (v, Inl ''nil inventory snapshot identity'')
      else if owner \<notin> set (v_expected v)
      then Some (v, Inl ''snapshot source is not an expected member'')
      else do {
        v1 \<leftarrow> discard_staging v owner;
        if v_accounted_bytes v1 + OWNER_ACCOUNTING_BYTES > byte_limit
        then Some (v1, Inl ''inventory staging exceeds metadata budget'')
        else do {
          v2 \<leftarrow> make_stale
            (v1\<lparr>v_staging := bt_insert owner
                 \<lparr>st_session_id = session_id, st_snapshot_id = snapshot_id, st_view_id = view_id,
                  st_start_sequence = start_sequence, st_replay_sequence = start_sequence,
                  st_next_page = 0, st_replay_started = False, st_last_residence = None,
                  st_max_record_sequence = 0, st_records = [], st_bytes = OWNER_ACCOUNTING_BYTES\<rparr>
                 (v_staging v1),
                v_staging_bytes := v_staging_bytes v1 + OWNER_ACCOUNTING_BYTES,
                v_accounted_bytes := v_accounted_bytes v1 + OWNER_ACCOUNTING_BYTES\<rparr>) owner;
          Some (next_generation v2, Inr ()) } })"

definition stage_record :: "residence \<times> inventory_record \<Rightarrow> staging_view \<Rightarrow> staging_view" where
  "stage_record u st =
     st\<lparr>st_max_record_sequence := max (st_max_record_sequence st) (rec_sequence (snd u)),
        st_last_residence := Some (fst u),
        st_records := bt_insert (fst u) (snd u) (st_records st)\<rparr>"

definition apply_snapshot_page ::
  "nat \<Rightarrow> inventory_scope \<Rightarrow> view \<Rightarrow> uuid \<Rightarrow> uuid \<Rightarrow> uuid \<Rightarrow> nat \<Rightarrow> inventory_record list \<Rightarrow>
   view \<times> (string + unit)" where
  "apply_snapshot_page byte_limit scope v owner session_id snapshot_id page_number records =
     (case map_of (v_staging v) owner of
        None \<Rightarrow> (v, Inl ''missing inventory snapshot'')
      | Some st \<Rightarrow>
          if st_session_id st \<noteq> session_id \<or> st_snapshot_id st \<noteq> snapshot_id
          then (v, Inl ''inventory snapshot identity changed'')
          else if st_replay_started st
          then (v, Inl ''inventory snapshot page arrived after replay began'')
          else if st_next_page st \<noteq> page_number
          then (v, Inl ''inventory snapshot page is not contiguous'')
          else (case validate_page (st_last_residence st) records scope of
            Inl e \<Rightarrow> (v, Inl e)
          | Inr (additional, updates) \<Rightarrow>
              if v_accounted_bytes v + additional > byte_limit
              then (v, Inl ''inventory staging exceeds metadata budget'')
              else
                (let st' = fold stage_record updates st in
                 (v\<lparr>v_staging := bt_insert owner
                       (st'\<lparr>st_next_page := st_next_page st' + 1, st_bytes := st_bytes st' + additional\<rparr>)
                       (v_staging v),
                     v_staging_bytes := v_staging_bytes v + additional,
                     v_accounted_bytes := v_accounted_bytes v + additional\<rparr>, Inr ()))))"

text \<open>
  \<open>accounted_bytes.checked_add_signed(delta).is_none_or(|bytes| bytes > byte_limit)\<close>.
\<close>

definition over_budget :: "nat \<Rightarrow> view \<Rightarrow> int \<Rightarrow> bool" where
  "over_budget byte_limit v delta \<longleftrightarrow>
     (case checked_add_signed (v_accounted_bytes v) delta of None \<Rightarrow> True | Some bs \<Rightarrow> bs > byte_limit)"

definition apply_snapshot_delta ::
  "nat \<Rightarrow> inventory_scope \<Rightarrow> view \<Rightarrow> uuid \<Rightarrow> uuid \<Rightarrow> nat \<Rightarrow> nat \<Rightarrow> inventory_record list \<Rightarrow>
   view \<times> (string + unit)" where
  "apply_snapshot_delta byte_limit scope v owner session_id from_excl through records =
     (case map_of (v_staging v) owner of
        None \<Rightarrow> (v, Inl ''missing inventory snapshot'')
      | Some st \<Rightarrow>
          if st_session_id st \<noteq> session_id \<or> st_replay_sequence st \<noteq> from_excl
          then (v, Inl ''inventory snapshot replay is not contiguous'')
          else (case validate_delta (st_records st) from_excl through records scope of
            Inl e \<Rightarrow> (v, Inl e)
          | Inr (delta, updates) \<Rightarrow>
              if over_budget byte_limit v delta
              then (v, Inl ''inventory staging exceeds metadata budget'')
              else
                (let st1 = st\<lparr>st_replay_started := True,
                              st_records := apply_records (st_records st) updates,
                              st_replay_sequence := through\<rparr>;
                     v1 = v\<lparr>v_staging := bt_insert owner st1 (v_staging v)\<rparr>
                 in case checked_add_signed (st_bytes st1) delta of
                      None \<Rightarrow> (v1, Inl ''inventory staging accounting underflow'')
                    | Some own \<Rightarrow>
                 (let v2 = v1\<lparr>v_staging := bt_insert owner (st1\<lparr>st_bytes := own\<rparr>) (v_staging v1)\<rparr>
                  in case checked_add_signed (v_staging_bytes v2) delta of
                       None \<Rightarrow> (v2, Inl ''inventory staging accounting underflow'')
                     | Some staging \<Rightarrow>
                  (let v3 = v2\<lparr>v_staging_bytes := staging\<rparr>
                   in case checked_add_signed (v_accounted_bytes v3) delta of
                        None \<Rightarrow> (v3, Inl ''inventory staging accounting underflow'')
                      | Some accounted \<Rightarrow> (v3\<lparr>v_accounted_bytes := accounted\<rparr>, Inr ()))))))"

text \<open>\<open>monotonic_ns\<close> on what \<open>clock_gettime\<close> returns: nothing on failure, else seconds and nanoseconds.\<close>

definition monotonic_ns :: "(int \<times> int) option \<Rightarrow> nat" where
  "monotonic_ns reading =
     (case reading of
        None \<Rightarrow> 0
      | Some (sec, nsec) \<Rightarrow> saturating_add (min (nat sec * 1000000000) u64_max) (nat nsec))"

definition commit_snapshot ::
  "membership_view \<Rightarrow> instant \<Rightarrow> (int \<times> int) option \<Rightarrow> view \<Rightarrow> uuid \<Rightarrow> uuid \<Rightarrow> uuid \<Rightarrow> uuid \<Rightarrow> nat \<Rightarrow> nat \<Rightarrow>
   (view \<times> (string + uuid)) option" where
  "commit_snapshot m now clock v owner session_id snapshot_id view_id through_sequence page_count =
     (case map_of (v_staging v) owner of
        None \<Rightarrow> Some (v, Inl ''missing inventory snapshot'')
      | Some st \<Rightarrow>
          if st_session_id st \<noteq> session_id
             \<or> st_snapshot_id st \<noteq> snapshot_id
             \<or> st_view_id st \<noteq> view_id
             \<or> st_replay_sequence st \<noteq> through_sequence
             \<or> st_next_page st \<noteq> page_count
             \<or> st_start_sequence st > through_sequence
             \<or> st_max_record_sequence st > through_sequence
          then Some (v\<lparr>v_staging := bt_insert owner st (bt_remove owner (v_staging v))\<rparr>,
                     Inl ''inventory snapshot commit is incomplete'')
          else
            (let v0 = v\<lparr>v_staging := bt_remove owner (v_staging v)\<rparr> in
             if owner \<notin> set (v_expected v0) \<or> resolve m now owner = None
             then do { v1 \<leftarrow> release_staging v0 (st_bytes st);
                       Some (v1, Inl ''inventory snapshot source is no longer admitted'') }
             else do {
               v1 \<leftarrow> remove_active_owner v0 owner;
               staging \<leftarrow> usub (v_staging_bytes v1) (st_bytes st);
               blocks \<leftarrow> insert_blocks (v_blocks v1) owner (bt_values (st_records st));
               let v2 = v1\<lparr>v_staging_bytes := staging,
                           v_blocks := blocks,
                           v_active_bytes := v_active_bytes v1 + st_bytes st,
                           v_owners := bt_insert owner
                             \<lparr>ov_view_id = st_view_id st, ov_applied_sequence = through_sequence,
                              ov_installed_mono_ns = monotonic_ns clock, ov_records = st_records st,
                              ov_fresh = True, ov_received_at = now, ov_retired = False\<rparr> (v_owners v1),
                           v_admitted_owner_views := v_admitted_owner_views v1 + 1\<rparr>;
               Some (next_generation (gain_fresh v2 (owner \<in> set (v_expected v2))), Inr view_id) }))"

definition abort_snapshot :: "view \<Rightarrow> uuid \<Rightarrow> uuid \<Rightarrow> view option" where
  "abort_snapshot v owner session_id =
     (case map_of (v_staging v) owner of
        None \<Rightarrow> Some v
      | Some st \<Rightarrow>
          if st_session_id st = session_id
          then do { v1 \<leftarrow> discard_staging v owner; Some (next_generation v1) }
          else Some v)"

fun update_blocks ::
  "block_table \<Rightarrow> uuid \<Rightarrow> (residence \<times> inventory_record) list \<Rightarrow> block_table option" where
  "update_blocks blocks owner [] = Some blocks"
| "update_blocks blocks owner ((res, r) # rest) =
     (let blocks' = remove_block blocks owner res in
      if rec_present r
      then do { b \<leftarrow> insert_block blocks' owner r; update_blocks b owner rest }
      else update_blocks blocks' owner rest)"

definition apply_delta ::
  "nat \<Rightarrow> inventory_scope \<Rightarrow> instant \<Rightarrow> (int \<times> int) option \<Rightarrow> view \<Rightarrow> uuid \<Rightarrow> uuid \<Rightarrow> nat \<Rightarrow> nat \<Rightarrow>
   inventory_record list \<Rightarrow> (view \<times> (string + delta_apply)) option" where
  "apply_delta byte_limit scope now clock v owner view_id from_excl through records =
     (case map_of (v_owners v) owner of
        None \<Rightarrow> Some (v, Inl ''owner view is not installed'')
      | Some ov \<Rightarrow>
          if ov_view_id ov \<noteq> view_id \<or> ov_retired ov
          then Some (v, Inl ''owner view identity changed'')
          else if through \<le> ov_applied_sequence ov then Some (v, Inr Duplicate)
          else if from_excl < ov_applied_sequence ov
          then Some (v, Inr (Overlap (ov_applied_sequence ov)))
          else if from_excl > ov_applied_sequence ov
          then Some (v, Inl ''inventory delta has a coverage gap'')
          else (case validate_delta (ov_records ov) from_excl through records scope of
            Inl e \<Rightarrow> Some (v, Inl e)
          | Inr (delta, updates) \<Rightarrow>
              if over_budget byte_limit v delta
              then Some (v, Inl ''complete global index exceeds metadata budget'')
              else do {
                blocks \<leftarrow> update_blocks (v_blocks v) owner updates;
                let ov1 = ov\<lparr>ov_records := apply_records (ov_records ov) updates,
                             ov_applied_sequence := through, ov_fresh := True, ov_received_at := now\<rparr>;
                let v1 = gain_fresh (v\<lparr>v_blocks := blocks, v_owners := bt_insert owner ov1 (v_owners v)\<rparr>)
                           (\<not> ov_fresh ov \<and> owner \<in> set (v_expected v));
                case checked_add_signed (v_active_bytes v1) delta of
                  None \<Rightarrow> Some (v1, Inl ''active index accounting underflow'')
                | Some active \<Rightarrow>
                    (let v2 = v1\<lparr>v_active_bytes := active\<rparr>
                     in case checked_add_signed (v_accounted_bytes v2) delta of
                          None \<Rightarrow> Some (v2, Inl ''index accounting underflow'')
                        | Some accounted \<Rightarrow>
                            Some (next_generation
                              (v2\<lparr>v_accounted_bytes := accounted,
                                  v_owners := bt_insert owner (ov1\<lparr>ov_installed_mono_ns := monotonic_ns clock\<rparr>)
                                    (v_owners v2)\<rparr>), Inr Applied)) }))"

definition retire_owner :: "view \<Rightarrow> uuid \<Rightarrow> view option" where
  "retire_owner v owner =
     do { v1 \<leftarrow> discard_staging v owner;
          v2 \<leftarrow> (case map_of (v_owners v1) owner of
                 None \<Rightarrow> Some v1
               | Some ov \<Rightarrow>
                   do { v' \<leftarrow> lose_admitted v1 (\<not> ov_retired ov);
                        v'' \<leftarrow> lose_fresh v' (counts_fresh v1 owner ov);
                        Some (v''\<lparr>v_owners := bt_insert owner (ov\<lparr>ov_retired := True, ov_fresh := False\<rparr>)
                                    (v_owners v'')\<rparr>) });
          Some (next_generation v2) }"

fun cleanup_records ::
  "uuid \<Rightarrow> block_table \<times> residence_map \<times> nat \<Rightarrow> residence list \<Rightarrow> block_table \<times> residence_map \<times> nat" where
  "cleanup_records owner (blocks, records, removed) [] = (blocks, records, removed)"
| "cleanup_records owner (blocks, records, removed) (res # rest) =
     cleanup_records owner
       (remove_block blocks owner res, bt_remove res records,
        if map_of records res \<noteq> None then removed + entry_bytes (fst res) else removed) rest"

definition cleanup_owner :: "view \<Rightarrow> uuid \<Rightarrow> nat \<Rightarrow> (view \<times> bool) option" where
  "cleanup_owner v owner limit =
     (case map_of (v_owners v) owner of
        None \<Rightarrow> Some (v, True)
      | Some ov \<Rightarrow>
          if \<not> ov_retired ov then Some (v, True)
          else
            (case cleanup_records owner (v_blocks v, ov_records ov, 0)
                    (take (max limit 1) (bt_keys (ov_records ov))) of
               (blocks, records, removed) \<Rightarrow>
                 do { v1 \<leftarrow> release_active
                        (v\<lparr>v_blocks := blocks,
                           v_owners := bt_insert owner (ov\<lparr>ov_records := records\<rparr>) (v_owners v)\<rparr>) removed;
                      if records = []
                      then do { v2 \<leftarrow> release_active (v1\<lparr>v_owners := bt_remove owner (v_owners v1)\<rparr>)
                                  OWNER_ACCOUNTING_BYTES;
                                Some (v2, True) }
                      else Some (v1, False) }))"

section \<open>Queries\<close>

definition owner_watermark :: "view \<Rightarrow> uuid \<Rightarrow> (uuid \<times> nat) option" where
  "owner_watermark v owner =
     (case map_of (v_owners v) owner of
        None \<Rightarrow> None
      | Some ov \<Rightarrow> if \<not> ov_retired ov then Some (ov_view_id ov, ov_applied_sequence ov) else None)"

record owner_index_status =
  os_owner :: uuid
  os_view_id :: uuid
  os_applied_sequence :: nat
  os_installed_mono_ns :: nat
  os_fresh :: bool
  os_receipt_age_ms :: nat
  os_records :: nat

definition status_of :: "instant \<Rightarrow> uuid \<times> owner_view \<Rightarrow> owner_index_status" where
  "status_of now ov =
     \<lparr>os_owner = fst ov, os_view_id = ov_view_id (snd ov),
      os_applied_sequence = ov_applied_sequence (snd ov),
      os_installed_mono_ns = ov_installed_mono_ns (snd ov),
      os_fresh = (ov_fresh (snd ov) \<and> \<not> ov_retired (snd ov)),
      os_receipt_age_ms = min ((now - ov_received_at (snd ov)) div 1000000) u64_max,
      os_records = length (ov_records (snd ov))\<rparr>"

definition owner_status :: "view \<Rightarrow> instant \<Rightarrow> uuid \<Rightarrow> owner_index_status option" where
  "owner_status v now owner = map_option (\<lambda>ov. status_of now (owner, ov)) (map_of (v_owners v) owner)"

definition owner_statuses :: "view \<Rightarrow> instant \<Rightarrow> uuid option \<Rightarrow> nat \<Rightarrow> owner_index_status list" where
  "owner_statuses v now after limit =
     take (min limit 128)
       (sort_key os_owner
         (map (status_of now)
           (filter (\<lambda>(owner, ov). case after of None \<Rightarrow> True | Some a \<Rightarrow> owner > a) (v_owners v))))"

text \<open>The part of \<open>status\<close> that does not read the lock metrics.\<close>

record index_status =
  is_membership_revision :: "int option"
  is_accounted_bytes :: nat
  is_active_bytes :: nat
  is_staging_bytes :: nat
  is_expected_owner_views :: nat
  is_installed_owner_views :: nat
  is_view_generation :: nat
  is_registration_valid :: bool
  is_coverage :: discovery_coverage
  is_scope_kind :: string
  is_scope_namespaces :: nat

definition status :: "global_index \<Rightarrow> instant \<Rightarrow> index_status" where
  "status g now =
     (let v = gi_view g; m = gi_membership g in
      \<lparr>is_membership_revision = v_membership_revision v, is_accounted_bytes = v_accounted_bytes v,
       is_active_bytes = v_active_bytes v, is_staging_bytes = v_staging_bytes v,
       is_expected_owner_views = length (v_expected v),
       is_installed_owner_views = v_fresh_expected_owner_views v,
       is_view_generation = v_generation v,
       is_registration_valid = registration_valid m now,
       is_coverage = coverage v (permits m now (mem_owner m)),
       is_scope_kind = scope_label (gi_scope g),
       is_scope_namespaces = (case scope_namespaces (gi_scope g) of None \<Rightarrow> 0 | Some ns \<Rightarrow> length ns)\<rparr>)"

fun collect_replicas ::
  "membership_view \<Rightarrow> instant \<Rightarrow> view \<Rightarrow> replica_location list \<Rightarrow> entry list \<Rightarrow> replica_location list" where
  "collect_replicas m now v found [] = found"
| "collect_replicas m now v found (e # es) =
     (let found' =
        (case resolve m now (e_owner e) of
           None \<Rightarrow> found
         | Some owner \<Rightarrow>
             if incarnation owner \<noteq> incarnation (mem_owner m)
                \<and> (case map_of (v_owners v) (e_owner e) of None \<Rightarrow> False | Some ov \<Rightarrow> \<not> ov_retired ov)
             then found @ [\<lparr>loc_owner = owner, loc_sequence = e_sequence e, loc_metadata = e_metadata e\<rparr>]
             else found)
      in if length found' = DISCOVERY_MAX_REPLICAS_PER_MEDIUM then found'
         else collect_replicas m now v found' es)"

definition lookup_key :: "global_index \<Rightarrow> instant \<Rightarrow> state_key \<Rightarrow> block_candidates" where
  "lookup_key g now key =
     (let v = gi_view g; m = gi_membership g; cov = coverage v (permits m now (mem_owner m)) in
      if \<not> scope_contains (gi_scope g) (namespace key)
      then \<lparr>cand_key = key, cand_replicas = [], cand_coverage = Unavailable\<rparr>
      else
        \<lparr>cand_key = key,
         cand_replicas =
           (case v_blocks v key of
              Some es \<Rightarrow>
                if cov \<noteq> Unavailable
                then concat (map (\<lambda>med. collect_replicas m now v []
                                          (filter (\<lambda>e. medium (e_metadata e) = med) es)) [Dram, Ssd])
                else []
            | None \<Rightarrow> []),
         cand_coverage = cov\<rparr>)"

definition lookup :: "global_index \<Rightarrow> instant \<Rightarrow> state_key list \<Rightarrow> block_candidates list" where
  "lookup g now keys = map (lookup_key g now) keys"

section \<open>The inverted table\<close>

text \<open>
  \<open>entries\<close> reads the table at a key. The table is right for a record lookup \<open>R\<close> (owner and
  residence to record) when it holds one entry per record, nothing else, and no empty list.
\<close>

definition entries :: "block_table \<Rightarrow> state_key \<Rightarrow> entry list" where
  "entries b k = (case b k of None \<Rightarrow> [] | Some es \<Rightarrow> es)"

abbreviation entry_slot :: "entry \<Rightarrow> uuid \<times> replica_medium" where
  "entry_slot e \<equiv> (e_owner e, medium (e_metadata e))"

definition entry_of :: "(uuid \<Rightarrow> residence \<rightharpoonup> inventory_record) \<Rightarrow> state_key \<Rightarrow> entry \<Rightarrow> bool" where
  "entry_of R k e \<longleftrightarrow>
     (\<exists>r. R (e_owner e) (k, medium (e_metadata e)) = Some r \<and>
          rec_sequence r = e_sequence e \<and> rec_metadata r = Some (e_metadata e))"

definition blocks_ok :: "(uuid \<Rightarrow> residence \<rightharpoonup> inventory_record) \<Rightarrow> block_table \<Rightarrow> bool" where
  "blocks_ok R b \<longleftrightarrow>
     (\<forall>k. b k \<noteq> Some [] \<and> distinct (map entry_slot (entries b k)) \<and>
          (\<forall>e. e \<in> set (entries b k) \<longleftrightarrow> entry_of R k e))"

lemma entries_remove_block:
  "entries (remove_block b owner res) k =
     (if k = fst res then filter (\<lambda>e. entry_slot e \<noteq> (owner, snd res)) (entries b k) else entries b k)"
  by (auto simp: remove_block_def entries_def Let_def split: option.splits)

lemma entries_insert_block:
  assumes "insert_block b owner r = Some b'" and "rec_present r" and "rec_metadata r = Some md"
  shows "entries b' k = (if k = rec_key r
    then entries b k @ [\<lparr>e_owner = owner, e_sequence = rec_sequence r, e_metadata = md\<rparr>] else entries b k)"
  using assms by (auto simp: insert_block_def entries_def split: option.splits)

lemma remove_block_no_empty: "b k \<noteq> Some [] \<Longrightarrow> remove_block b owner res k \<noteq> Some []"
  by (auto simp: remove_block_def Let_def split: option.splits)

lemma blocks_ok_remove:
  assumes "blocks_ok R b"
  shows "blocks_ok (R(owner := (R owner)(res := None))) (remove_block b owner res)"
  unfolding blocks_ok_def
proof (intro allI conjI)
  fix k e
  note ok = assms [unfolded blocks_ok_def, rule_format, of k]
  show "remove_block b owner res k \<noteq> Some []" using ok remove_block_no_empty by blast
  show "distinct (map entry_slot (entries (remove_block b owner res) k))"
    using ok distinct_map_filter [of entry_slot "entries b k"] by (auto simp: entries_remove_block)
  have "entry_of (R(owner := (R owner)(res := None))) k e \<longleftrightarrow>
      entry_of R k e \<and> \<not> (k = fst res \<and> entry_slot e = (owner, snd res))"
    by (cases res) (auto simp: entry_of_def)
  then show "e \<in> set (entries (remove_block b owner res) k) \<longleftrightarrow>
      entry_of (R(owner := (R owner)(res := None))) k e"
    using ok by (auto simp: entries_remove_block)
qed

lemma blocks_ok_insert:
  assumes "blocks_ok R b" and "R owner (rec_key r, medium md) = None"
    and "rec_present r" and md: "rec_metadata r = Some md"
  shows "\<exists>b'. insert_block b owner r = Some b' \<and>
    blocks_ok (R(owner := (R owner)((rec_key r, medium md) \<mapsto> r))) b'"
proof -
  obtain b' where b': "insert_block b owner r = Some b'"
    using assms(3,4) by (simp add: insert_block_def)
  let ?R = "R(owner := (R owner)((rec_key r, medium md) \<mapsto> r))"
  let ?e = "\<lparr>e_owner = owner, e_sequence = rec_sequence r, e_metadata = md\<rparr>"
  have "blocks_ok ?R b'"
    unfolding blocks_ok_def
  proof (intro allI conjI)
    fix k e
    note ok = assms(1) [unfolded blocks_ok_def, rule_format, of k]
    note ins = entries_insert_block [OF b' assms(3) md, of k]
    have fresh: "\<not> entry_of R (rec_key r) e'" if "entry_slot e' = (owner, medium md)" for e'
      using that assms(2) by (auto simp: entry_of_def)
    show "b' k \<noteq> Some []"
      using ok b' assms(3) md by (auto simp: insert_block_def split: if_splits)
    show "distinct (map entry_slot (entries b' k))"
      using ok ins fresh by (auto simp: image_iff)
    have "entry_of ?R k e \<longleftrightarrow> (if k = rec_key r \<and> entry_slot e = (owner, medium md) then e = ?e else entry_of R k e)"
      using md by (cases e) (auto simp: entry_of_def)
    then show "e \<in> set (entries b' k) \<longleftrightarrow> entry_of ?R k e"
      using ok ins fresh by (cases e) auto
  qed
  then show ?thesis using b' by blast
qed

text \<open>The folds of the code: all of an owner's residences, a snapshot's records, a delta's updates.\<close>

lemma blocks_ok_fold_remove:
  assumes "blocks_ok R b"
  shows "blocks_ok (R(owner := (\<lambda>res. if res \<in> set ress then None else R owner res)))
    (fold (\<lambda>res b. remove_block b owner res) ress b)"
  using assms
proof (induction ress arbitrary: R b)
  case (Cons res ress)
  have "(\<lambda>x. if x \<in> set ress then None else (R(owner := (R owner)(res := None))) owner x) =
      (\<lambda>x. if x \<in> set (res # ress) then None else R owner x)"
    by auto
  then show ?case
    using Cons.IH [OF blocks_ok_remove [OF Cons.prems, of owner res]]
    by (simp only: fold_simps fun_upd_upd)
qed simp

definition put_records ::
  "(residence \<times> inventory_record) list \<Rightarrow> (residence \<rightharpoonup> inventory_record) \<Rightarrow> residence \<rightharpoonup> inventory_record"
where
  "put_records us f = fold (\<lambda>(res, r) f. f(res := if rec_present r then Some r else None)) us f"

lemma put_records_simps [simp]:
  "put_records [] f = f"
  "put_records ((res, r) # us) f = put_records us (f(res := if rec_present r then Some r else None))"
  by (simp_all add: put_records_def)

lemma validate_record_Inr:
  "validate_record r = Inr res \<longleftrightarrow>
     (\<exists>md. rec_metadata r = Some md \<and> res = (rec_key r, medium md) \<and> 0 < rec_sequence r \<and>
       namespace (rec_key r) \<noteq> [] \<and> hash (rec_key r) \<noteq> [] \<and> medium md \<in> {Dram, Ssd} \<and>
       representation md \<noteq> UnknownRepresentation)"
  by (auto simp: validate_record_def rbind_eq_Inr_iff ok_or_eq_Inr_iff split: if_splits)

lemma blocks_ok_update:
  assumes "blocks_ok R b" and "\<forall>(res, r) \<in> set us. validate_record r = Inr res"
  shows "\<exists>b'. update_blocks b owner us = Some b' \<and> blocks_ok (R(owner := put_records us (R owner))) b'"
  using assms
proof (induction us arbitrary: R b)
  case (Cons u us)
  obtain res r where u: "u = (res, r)" by (cases u)
  then obtain md where md: "rec_metadata r = Some md" "res = (rec_key r, medium md)"
    using Cons.prems(2) by (auto simp: validate_record_Inr)
  note removed = blocks_ok_remove [OF Cons.prems(1), of owner res]
  show ?case
  proof (cases "rec_present r")
    case True
    obtain b1 where "insert_block (remove_block b owner res) owner r = Some b1"
      and "blocks_ok (R(owner := (R owner)(res := Some r))) b1"
      using blocks_ok_insert [OF removed _ True md(1), of owner] md(2) by auto
    then show ?thesis
      using Cons.IH [of "R(owner := (R owner)(res := Some r))" b1] Cons.prems(2) True u
      by (simp add: Let_def fun_upd_same del: fun_upd_apply)
  next
    case False
    then show ?thesis
      using Cons.IH [OF removed] Cons.prems(2) u by (simp add: Let_def fun_upd_same del: fun_upd_apply)
  qed
qed simp

lemma blocks_ok_insert_all:
  assumes "blocks_ok R b" and "distinct (map fst us)" and "\<forall>res \<in> fst ` set us. R owner res = None"
    and "\<forall>(res, r) \<in> set us. validate_record r = Inr res \<and> rec_present r"
  shows "\<exists>b'. insert_blocks b owner (map snd us) = Some b' \<and>
    blocks_ok (R(owner := put_records us (R owner))) b'"
  using assms
proof (induction us arbitrary: R b)
  case (Cons u us)
  obtain res r where u: "u = (res, r)" by (cases u)
  then obtain md where md: "rec_metadata r = Some md" "res = (rec_key r, medium md)" "rec_present r"
    using Cons.prems(4) by (auto simp: validate_record_Inr)
  then obtain b1 where b1: "insert_block b owner r = Some b1"
    and ok: "blocks_ok (R(owner := (R owner)(res := Some r))) b1"
    using blocks_ok_insert [OF Cons.prems(1) _ md(3,1), of owner] Cons.prems(3) u by auto
  have "\<forall>x \<in> fst ` set us. (R(owner := (R owner)(res := Some r))) owner x = None"
    using Cons.prems(2,3) u by auto
  then show ?case
    using Cons.IH [OF ok] Cons.prems(2,4) b1 u md(3)
    by (simp add: fun_upd_same del: fun_upd_apply)
qed simp

section \<open>Record maps\<close>

definition records_bytes :: "residence_map \<Rightarrow> nat" where
  "records_bytes rs = bt_sum (\<lambda>res _. entry_bytes (fst res)) rs"

definition records_ok :: "inventory_scope \<Rightarrow> nat \<Rightarrow> residence_map \<Rightarrow> bool" where
  "records_ok scope bound rs \<longleftrightarrow>
     bt_wf rs \<and>
     (\<forall>res r. map_of rs res = Some r \<longrightarrow>
        validate_record r = Inr res \<and> rec_present r \<and>
        scope_contains scope (namespace (rec_key r)) \<and> rec_sequence r \<le> bound)"

text \<open>A batch of updates that validation lets through, newer than \<open>lo\<close> and no newer than \<open>hi\<close>.\<close>

definition updates_ok :: "inventory_scope \<Rightarrow> nat \<Rightarrow> nat \<Rightarrow> residence_map \<Rightarrow> bool" where
  "updates_ok scope lo hi us \<longleftrightarrow>
     bt_wf us \<and>
     (\<forall>res r. map_of us res = Some r \<longrightarrow>
        validate_record r = Inr res \<and> scope_contains scope (namespace (rec_key r)) \<and>
        lo < rec_sequence r \<and> rec_sequence r \<le> hi)"

definition keys_fit :: "inventory_record list \<Rightarrow> bool" where
  "keys_fit rs \<longleftrightarrow> (\<forall>r \<in> set rs. entry_bytes (rec_key r) \<le> isize_max)"

lemma records_ok_Nil [simp]: "records_ok scope bound []"
  by (simp add: records_ok_def)

lemma records_ok_mono: "records_ok scope lo rs \<Longrightarrow> lo \<le> hi \<Longrightarrow> records_ok scope hi rs"
  unfolding records_ok_def by (meson le_trans)

lemma records_ok_remove: "records_ok scope bound rs \<Longrightarrow> records_ok scope bound (bt_remove res rs)"
  by (simp add: records_ok_def)

lemma records_ok_insert:
  "records_ok scope bound rs \<Longrightarrow> validate_record r = Inr res \<Longrightarrow> rec_present r \<Longrightarrow>
   scope_contains scope (namespace (rec_key r)) \<Longrightarrow> rec_sequence r \<le> bound \<Longrightarrow>
   records_ok scope bound (bt_insert res r rs)"
  by (simp add: records_ok_def)

lemma latest_records_ok:
  assumes "latest_records scope lo hi latest rs = Inr us" and "updates_ok scope lo hi latest"
    and "keys_fit rs" and "keys_fit (bt_values latest)"
  shows "updates_ok scope lo hi us \<and> keys_fit (bt_values us)"
  using assms
proof (induction scope lo hi latest rs rule: latest_records.induct)
  case (2 scope lo hi latest r rs)
  obtain res where res: "validate_record r = Inr res"
    using "2.prems"(1) by (auto simp: rbind_eq_Inr_iff split: if_splits)
  have wf: "bt_wf latest" using "2.prems"(2) by (simp add: updates_ok_def)
  have guards: "scope_contains scope (namespace (rec_key r))" "lo < rec_sequence r" "rec_sequence r \<le> hi"
    using "2.prems"(1) by (auto split: if_splits)
  have ok: "updates_ok scope lo hi (bt_insert res r latest)"
    using "2.prems"(2) res guards by (simp add: updates_ok_def)
  have fits: "keys_fit (bt_values (bt_insert res r latest))"
    using "2.prems"(3,4) wf by (auto simp: keys_fit_def bt_values_def set_bt_insert)
  have "keys_fit rs" using "2.prems"(3) by (simp add: keys_fit_def)
  then show ?case
    using "2.prems" "2.IH" guards res ok fits by (auto split: option.splits if_splits)
qed simp

definition newer :: "inventory_record option \<Rightarrow> inventory_record \<Rightarrow> bool" where
  "newer previous r \<longleftrightarrow> (case previous of None \<Rightarrow> False | Some p \<Rightarrow> rec_sequence p > rec_sequence r)"

lemma newer_simps [simp]:
  "\<not> newer None r" "newer (Some p) r \<longleftrightarrow> rec_sequence p > rec_sequence r"
  by (simp_all add: newer_def)

lemma apply_records_get:
  assumes "distinct (map fst us)"
  shows "map_of (apply_records records us) res =
    (case map_of us res of
       None \<Rightarrow> map_of records res
     | Some r \<Rightarrow> if newer (map_of records res) r then map_of records res
                 else if rec_present r then Some r else None)"
  using assms
proof (induction records us rule: apply_records.induct)
  case (2 records k r us)
  have "map_of us k = None" using "2.prems" by (auto simp: map_of_eq_None_iff)
  then show ?case using 2 by (auto simp: newer_def split: option.splits)
qed simp

lemma put_records_get:
  assumes "distinct (map fst us)"
  shows "put_records us f res =
    (case map_of us res of None \<Rightarrow> f res | Some r \<Rightarrow> if rec_present r then Some r else None)"
  using assms
proof (induction us arbitrary: f)
  case (Cons u us)
  obtain k r where u: "u = (k, r)" by (cases u)
  have "map_of us k = None" using Cons.prems u by (auto simp: map_of_eq_None_iff)
  then show ?case using Cons u by (auto split: option.splits)
qed simp

lemma apply_records_put:
  assumes "distinct (map fst us)" and "\<forall>(res, r) \<in> set us. \<not> newer (map_of records res) r"
  shows "map_of (apply_records records us) = put_records us (map_of records)"
  using assms by (auto simp: fun_eq_iff apply_records_get put_records_get dest!: map_of_SomeD
      split: option.splits)

lemma apply_records_wf: "bt_wf records \<Longrightarrow> bt_wf (apply_records records us)"
  by (induction records us rule: apply_records.induct) auto

lemma apply_records_ok:
  assumes "records_ok scope lo records" and "updates_ok scope from_excl hi us"
  shows "records_ok scope (max lo hi) (apply_records records us)"
proof -
  have "distinct (map fst us)" using assms(2) by (simp add: updates_ok_def bt_wf_distinct)
  then show ?thesis
    using assms apply_records_wf [of records us] unfolding records_ok_def updates_ok_def
    by (auto simp: apply_records_get le_max_iff_disj split: option.splits if_splits)
qed

lemma records_bytes_insert:
  "bt_wf m \<Longrightarrow> records_bytes (bt_insert res r m) =
     records_bytes m + (case map_of m res of None \<Rightarrow> entry_bytes (fst res) | Some _ \<Rightarrow> 0)"
  unfolding records_bytes_def
  by (auto simp: bt_sum_insert_new bt_sum_insert_old split: option.splits)

lemma records_bytes_remove:
  "bt_wf m \<Longrightarrow> records_bytes m =
     records_bytes (bt_remove res m) + (case map_of m res of None \<Rightarrow> 0 | Some _ \<Rightarrow> entry_bytes (fst res))"
  unfolding records_bytes_def by (rule bt_sum_remove)

text \<open>The signed delta validation computes is the change of the bytes charged for the records.\<close>

lemma apply_records_bytes:
  assumes "byte_delta current d us = Inr d'" and "bt_wf records" and "distinct (map fst us)"
    and "\<forall>res \<in> fst ` set us. map_of records res = map_of current res"
    and "\<forall>(res, r) \<in> set us. rec_key r = fst res \<and> entry_bytes (fst res) \<le> isize_max"
  shows "int (records_bytes (apply_records records us)) = int (records_bytes records) + d' - d"
  using assms
proof (induction current d us arbitrary: records rule: byte_delta.induct)
  case (2 current d res r us)
  have same: "map_of records res = map_of current res" using "2.prems"(4) by simp
  have key: "signed_bytes (rec_key r) = int (entry_bytes (fst res))"
    using "2.prems"(5) by (simp add: signed_bytes_def)
  have rest: "distinct (map fst us)" "\<forall>(res, r) \<in> set us. rec_key r = fst res \<and> entry_bytes (fst res) \<le> isize_max"
    "res \<notin> fst ` set us"
    using "2.prems"(3,5) by auto
  have others: "\<forall>x \<in> fst ` set us. map_of records x = map_of current x"
    "\<forall>x \<in> fst ` set us. map_of (bt_insert res r records) x = map_of current x"
    "\<forall>x \<in> fst ` set us. map_of (bt_remove res records) x = map_of current x"
    using "2.prems"(4) rest(3) by auto
  note sums = records_bytes_insert [OF "2.prems"(2), of res r] records_bytes_remove [OF "2.prems"(2), of res]
  show ?case
  proof (cases "map_of current res")
    case None
    then show ?thesis
      using "2.prems"(1,2) "2.IH"(1) [OF None, of "bt_insert res r records"]
        "2.IH"(1) [OF None, of "bt_remove res records"] rest(1,2) others same key sums
      by (auto split: if_splits)
  next
    case (Some p)
    consider "rec_sequence p > rec_sequence r"
      | "rec_sequence p \<le> rec_sequence r" "\<not> (rec_sequence p = rec_sequence r \<and> p \<noteq> r)"
      using "2.prems"(1) Some by (auto split: if_splits)
    then show ?thesis
    proof cases
      case 1
      then show ?thesis using "2.prems"(1,2) "2.IH"(2) [OF Some 1] rest(1,2) others same Some by simp
    next
      case 2
      then show ?thesis
        using "2.prems"(1,2) "2.IH"(3) [OF Some] rest(1,2) others same Some key sums
        by (auto split: if_splits)
    qed
  qed
qed simp

end
