(* ===== verification/Index_Invariant.thy ===== *)
theory Index_Invariant
  imports Global_Index
begin

text \<open>
  The invariant of the global index and its preservation by every operation of
  \<open>orbitkv-catalog/src/index.rs\<close>: the byte accounts are the exact sums over the staged and
  installed records and stay within the budget, the coverage counters count what they name, and
  the inverted table holds one entry per installed record. No operation panics.
\<close>

section \<open>What validation guarantees\<close>

lemma validate_delta_ok:
  assumes "validate_delta current lo hi rs scope = Inr (delta, us)"
    and "keys_fit rs" and "bt_wf current"
  shows "lo < hi \<and> updates_ok scope lo hi us \<and>
    int (records_bytes (apply_records current us)) = int (records_bytes current) + delta"
proof -
  have lt: "lo < hi" and latest: "latest_records scope lo hi [] rs = Inr us"
    and delta: "byte_delta current 0 us = Inr delta"
    using assms(1) by (auto simp: validate_delta_def rbind_eq_Inr_iff split: if_splits)
  have us: "updates_ok scope lo hi us" "keys_fit (bt_values us)"
    using latest_records_ok [OF latest] assms(2) by (auto simp: updates_ok_def keys_fit_def bt_values_def)
  have wf: "bt_wf us" using us(1) by (simp add: updates_ok_def)
  have "rec_key r = fst res \<and> entry_bytes (fst res) \<le> isize_max" if "(res, r) \<in> set us" for res r
  proof -
    have "validate_record r = Inr res"
      using us(1) that wf by (cases res) (auto simp: updates_ok_def in_set_iff_map_of)
    moreover have "r \<in> set (bt_values us)" using that by (force simp: bt_values_def)
    ultimately show ?thesis using us(2) by (auto simp: validate_record_Inr keys_fit_def)
  qed
  then have "\<forall>(res, r) \<in> set us. rec_key r = fst res \<and> entry_bytes (fst res) \<le> isize_max" by blast
  then show ?thesis
    using apply_records_bytes [OF delta assms(3) bt_wf_distinct [OF wf]] lt us(1) by simp
qed

text \<open>A page in ascending order after the residence \<open>previous\<close>.\<close>

fun page_ok :: "inventory_scope \<Rightarrow> residence option \<Rightarrow> (residence \<times> inventory_record) list \<Rightarrow> bool" where
  "page_ok scope previous [] = True"
| "page_ok scope previous ((res, r) # us) \<longleftrightarrow>
     validate_record r = Inr res \<and> rec_present r \<and> scope_contains scope (namespace (rec_key r)) \<and>
     (case previous of None \<Rightarrow> True | Some l \<Rightarrow> l < res) \<and> page_ok scope (Some res) us"

definition page_bytes :: "(residence \<times> inventory_record) list \<Rightarrow> nat" where
  "page_bytes us = sum_list (map (\<lambda>u. entry_bytes (fst (fst u))) us)"

lemma validate_page_loop_ok:
  assumes "validate_page_loop scope previous bs acc rs = Inr (bs', us)"
  shows "\<exists>new. us = acc @ new \<and> page_ok scope previous new \<and> bs' = bs + page_bytes new"
  using assms
proof (induction scope previous bs acc rs rule: validate_page_loop.induct)
  case (1 scope previous bs acc)
  then show ?case by (simp add: page_bytes_def)
next
  case (2 scope previous bs acc r rs)
  obtain res where res: "validate_record r = Inr res"
    using "2.prems" by (auto simp: rbind_eq_Inr_iff split: if_splits)
  then have key: "fst res = rec_key r" by (auto simp: validate_record_Inr)
  have guards: "scope_contains scope (namespace (rec_key r))" "rec_present r"
    "\<not> (case previous of None \<Rightarrow> False | Some l \<Rightarrow> res \<le> l)"
    using "2.prems" res by (auto split: if_splits)
  obtain bs1 where bs1: "checked_add bs (entry_bytes (rec_key r)) = Some bs1"
    and rec: "validate_page_loop scope (Some res) bs1 (acc @ [(res, r)]) rs = Inr (bs', us)"
    using "2.prems" res guards by (auto simp: rbind_eq_Inr_iff ok_or_eq_Inr_iff)
  then obtain new where new: "us = (acc @ [(res, r)]) @ new" "page_ok scope (Some res) new"
    "bs' = bs1 + page_bytes new"
    using "2.IH" [of res bs1] guards by auto
  have "bs1 = bs + entry_bytes (rec_key r)" using bs1 by (auto simp: checked_add_def split: if_splits)
  then show ?case
    using new guards res key
    by (intro exI [of _ "(res, r) # new"]) (auto simp: page_bytes_def not_le split: option.splits)
qed

section \<open>The invariant\<close>

definition staging_shape :: "inventory_scope \<Rightarrow> staging_view \<Rightarrow> bool" where
  "staging_shape scope st \<longleftrightarrow>
     records_ok scope (max (st_max_record_sequence st) (st_replay_sequence st)) (st_records st) \<and>
     (\<not> st_replay_started st \<longrightarrow>
        (\<forall>res. map_of (st_records st) res \<noteq> None \<longrightarrow>
           (case st_last_residence st of None \<Rightarrow> False | Some l \<Rightarrow> res \<le> l)))"

definition staging_ok :: "inventory_scope \<Rightarrow> staging_view \<Rightarrow> bool" where
  "staging_ok scope st \<longleftrightarrow>
     staging_shape scope st \<and> st_bytes st = OWNER_ACCOUNTING_BYTES + records_bytes (st_records st)"

definition owner_ok :: "inventory_scope \<Rightarrow> owner_view \<Rightarrow> bool" where
  "owner_ok scope ov \<longleftrightarrow>
     records_ok scope (ov_applied_sequence ov) (ov_records ov) \<and> (ov_retired ov \<longrightarrow> \<not> ov_fresh ov)"

definition record_at :: "(uuid, owner_view) btree \<Rightarrow> uuid \<Rightarrow> residence \<rightharpoonup> inventory_record" where
  "record_at owners owner =
     (case map_of owners owner of None \<Rightarrow> Map.empty | Some ov \<Rightarrow> map_of (ov_records ov))"

definition fresh_count :: "uuid list \<Rightarrow> uuid \<Rightarrow> owner_view \<Rightarrow> nat" where
  "fresh_count expected owner ov = (if ov_fresh ov \<and> \<not> ov_retired ov \<and> owner \<in> set expected then 1 else 0)"

definition admitted_count :: "owner_view \<Rightarrow> nat" where
  "admitted_count ov = (if ov_retired ov then 0 else 1)"

definition owners_inv :: "inventory_scope \<Rightarrow> view \<Rightarrow> bool" where
  "owners_inv scope v \<longleftrightarrow>
     bt_wf (v_owners v) \<and> distinct (v_expected v) \<and>
     (\<forall>owner ov. map_of (v_owners v) owner = Some ov \<longrightarrow> owner_ok scope ov) \<and>
     v_active_bytes v = bt_sum (\<lambda>_ ov. OWNER_ACCOUNTING_BYTES + records_bytes (ov_records ov)) (v_owners v) \<and>
     v_admitted_owner_views v = bt_sum (\<lambda>_. admitted_count) (v_owners v) \<and>
     v_fresh_expected_owner_views v = bt_sum (fresh_count (v_expected v)) (v_owners v) \<and>
     blocks_ok (record_at (v_owners v)) (v_blocks v)"

definition staging_inv :: "inventory_scope \<Rightarrow> view \<Rightarrow> bool" where
  "staging_inv scope v \<longleftrightarrow>
     bt_wf (v_staging v) \<and>
     (\<forall>owner st. map_of (v_staging v) owner = Some st \<longrightarrow> staging_ok scope st) \<and>
     v_staging_bytes v = bt_sum (\<lambda>_ st. st_bytes st) (v_staging v)"

definition view_inv :: "inventory_scope \<Rightarrow> nat \<Rightarrow> view \<Rightarrow> bool" where
  "view_inv scope limit v \<longleftrightarrow>
     owners_inv scope v \<and> staging_inv scope v \<and>
     v_accounted_bytes v = v_active_bytes v + v_staging_bytes v \<and> v_accounted_bytes v \<le> limit"

lemma view_inv_default [simp]: "view_inv scope limit view_default"
  by (simp add: view_inv_def owners_inv_def staging_inv_def view_default_def blocks_ok_def
      record_at_def entries_def entry_of_def)

lemma view_inv_next_generation [simp]:
  "view_inv scope limit (next_generation v) = view_inv scope limit v"
  by (simp add: view_inv_def owners_inv_def staging_inv_def next_generation_def)

section \<open>Owners\<close>

lemma owners_inv_counts:
  assumes "owners_inv scope v" and "map_of (v_owners v) owner = Some ov"
  shows "fresh_count (v_expected v) owner ov \<le> v_fresh_expected_owner_views v"
    and "admitted_count ov \<le> v_admitted_owner_views v"
    and "OWNER_ACCOUNTING_BYTES + records_bytes (ov_records ov) \<le> v_active_bytes v"
proof -
  have wf: "bt_wf (v_owners v)" using assms(1) by (simp add: owners_inv_def)
  show "fresh_count (v_expected v) owner ov \<le> v_fresh_expected_owner_views v"
    using bt_sum_ge [OF wf assms(2), of "fresh_count (v_expected v)"] assms(1)
    by (simp add: owners_inv_def)
  show "admitted_count ov \<le> v_admitted_owner_views v"
    using bt_sum_ge [OF wf assms(2), of "\<lambda>_. admitted_count"] assms(1)
    by (simp add: owners_inv_def)
  show "OWNER_ACCOUNTING_BYTES + records_bytes (ov_records ov) \<le> v_active_bytes v"
    using bt_sum_ge [OF wf assms(2), of "\<lambda>_ ov. OWNER_ACCOUNTING_BYTES + records_bytes (ov_records ov)"] assms(1)
    by (simp add: owners_inv_def)
qed

lemma owners_inv_replace:
  assumes inv: "owners_inv scope v" and old: "map_of (v_owners v) owner = Some ov"
    and "owner_ok scope ov'"
    and w: "v_owners w = bt_insert owner ov' (v_owners v)" "v_expected w = v_expected v"
    and "blocks_ok ((record_at (v_owners v))(owner := map_of (ov_records ov'))) (v_blocks w)"
    and "v_active_bytes w + records_bytes (ov_records ov) = v_active_bytes v + records_bytes (ov_records ov')"
    and "v_admitted_owner_views w + admitted_count ov = v_admitted_owner_views v + admitted_count ov'"
    and "v_fresh_expected_owner_views w + fresh_count (v_expected v) owner ov =
      v_fresh_expected_owner_views v + fresh_count (v_expected v) owner ov'"
  shows "owners_inv scope w"
proof -
  have wf: "bt_wf (v_owners v)" using inv by (simp add: owners_inv_def)
  note sums = bt_sum_replace [OF wf old]
  have "record_at (v_owners w) = (record_at (v_owners v))(owner := map_of (ov_records ov'))"
    by (auto simp: record_at_def fun_eq_iff w)
  moreover have "v_active_bytes w = bt_sum (\<lambda>_ ov. OWNER_ACCOUNTING_BYTES + records_bytes (ov_records ov)) (v_owners w)"
    using sums [of "\<lambda>_ ov. OWNER_ACCOUNTING_BYTES + records_bytes (ov_records ov)" ov'] inv assms(7)
    by (simp add: owners_inv_def w)
  moreover have "v_admitted_owner_views w = bt_sum (\<lambda>_. admitted_count) (v_owners w)"
    using sums [of "\<lambda>_. admitted_count" ov'] inv assms(8) by (simp add: owners_inv_def w)
  moreover have "v_fresh_expected_owner_views w = bt_sum (fresh_count (v_expected w)) (v_owners w)"
    using sums [of "fresh_count (v_expected v)" ov'] inv assms(9) by (simp add: owners_inv_def w)
  ultimately show ?thesis
    using inv wf assms(3,6) by (auto simp: owners_inv_def w)
qed

lemma record_at_Some: "map_of owners owner = Some ov \<Longrightarrow> record_at owners owner = map_of (ov_records ov)"
  by (simp add: record_at_def)

text \<open>A change of an owner's flags leaves the records, the table and the bytes alone.\<close>

lemma owners_inv_flags:
  assumes inv: "owners_inv scope v" and old: "map_of (v_owners v) owner = Some ov"
    and "owner_ok scope ov'" and recs: "ov_records ov' = ov_records ov"
    and w: "v_owners w = bt_insert owner ov' (v_owners v)" "v_expected w = v_expected v"
      "v_blocks w = v_blocks v" "v_active_bytes w = v_active_bytes v"
    and "v_admitted_owner_views w + admitted_count ov = v_admitted_owner_views v + admitted_count ov'"
    and "v_fresh_expected_owner_views w + fresh_count (v_expected v) owner ov =
      v_fresh_expected_owner_views v + fresh_count (v_expected v) owner ov'"
  shows "owners_inv scope w"
proof -
  have "(record_at (v_owners v))(owner := map_of (ov_records ov')) = record_at (v_owners v)"
    using record_at_Some [OF old] recs by (simp add: fun_eq_iff)
  then show ?thesis
    using inv recs assms(9,10)
    by (intro owners_inv_replace [OF inv old assms(3) w(1,2)]) (simp_all add: owners_inv_def w)
qed

lemma lose_fresh_Some:
  assumes "fresh_count (v_expected v) owner ov \<le> v_fresh_expected_owner_views w"
  shows "lose_fresh w (counts_fresh v owner ov) =
    Some (w\<lparr>v_fresh_expected_owner_views := v_fresh_expected_owner_views w - fresh_count (v_expected v) owner ov\<rparr>)"
  using assms by (auto simp: lose_fresh_def counts_fresh_def fresh_count_def)

lemma lose_admitted_Some:
  assumes "admitted_count ov \<le> v_admitted_owner_views w"
  shows "lose_admitted w (\<not> ov_retired ov) =
    Some (w\<lparr>v_admitted_owner_views := v_admitted_owner_views w - admitted_count ov\<rparr>)"
  using assms by (auto simp: lose_admitted_def admitted_count_def)

lemma owners_inv_cong:
  assumes "owners_inv scope v" and "v_owners w = v_owners v" and "v_expected w = v_expected v"
    and "v_active_bytes w = v_active_bytes v" and "v_admitted_owner_views w = v_admitted_owner_views v"
    and "v_fresh_expected_owner_views w = v_fresh_expected_owner_views v" and "v_blocks w = v_blocks v"
  shows "owners_inv scope w"
  using assms by (simp add: owners_inv_def)

lemma staging_inv_cong:
  "staging_inv scope v \<Longrightarrow> v_staging w = v_staging v \<Longrightarrow> v_staging_bytes w = v_staging_bytes v \<Longrightarrow>
   staging_inv scope w"
  by (simp add: staging_inv_def)

lemma make_stale_inv:
  assumes "owners_inv scope v"
  shows "\<exists>v'. make_stale v owner = Some v' \<and> owners_inv scope v' \<and>
    v_staging v' = v_staging v \<and> v_staging_bytes v' = v_staging_bytes v \<and>
    v_accounted_bytes v' = v_accounted_bytes v \<and> v_active_bytes v' = v_active_bytes v"
proof (cases "map_of (v_owners v) owner")
  case None
  then show ?thesis using assms by (simp add: make_stale_def)
next
  case (Some ov)
  have ok: "owner_ok scope (ov\<lparr>ov_fresh := False\<rparr>)" using assms Some by (auto simp: owners_inv_def owner_ok_def)
  have "owners_inv scope
      (v\<lparr>v_owners := bt_insert owner (ov\<lparr>ov_fresh := False\<rparr>) (v_owners v),
         v_fresh_expected_owner_views := v_fresh_expected_owner_views v - fresh_count (v_expected v) owner ov\<rparr>)"
    using owners_inv_counts [OF assms Some]
    by (intro owners_inv_flags [OF assms Some ok]) (simp_all add: fresh_count_def admitted_count_def)
  then show ?thesis
    using owners_inv_counts(1) [OF assms Some] Some by (simp add: make_stale_def lose_fresh_Some)
qed

lemma view_inv_parts:
  "view_inv scope limit v \<Longrightarrow>
     owners_inv scope v \<and> staging_inv scope v \<and>
     v_accounted_bytes v = v_active_bytes v + v_staging_bytes v \<and> v_accounted_bytes v \<le> limit"
  by (simp add: view_inv_def)

lemma view_invI:
  assumes "view_inv scope limit v" and "owners_inv scope w"
    and "v_staging w = v_staging v" and "v_staging_bytes w = v_staging_bytes v"
    and "v_accounted_bytes w = v_active_bytes w + v_staging_bytes w" and "v_accounted_bytes w \<le> limit"
  shows "view_inv scope limit w"
  using assms by (simp add: view_inv_def staging_inv_def)

lemma make_stale_view_inv:
  assumes "view_inv scope limit v"
  shows "\<exists>v'. make_stale v owner = Some v' \<and> view_inv scope limit v'"
proof -
  note parts = view_inv_parts [OF assms]
  obtain v' where v': "make_stale v owner = Some v'" "owners_inv scope v'" "v_staging v' = v_staging v"
    "v_staging_bytes v' = v_staging_bytes v" "v_accounted_bytes v' = v_accounted_bytes v"
    "v_active_bytes v' = v_active_bytes v"
    using make_stale_inv parts by blast
  then have "view_inv scope limit v'"
    using parts staging_inv_cong [of scope v v'] by (simp add: view_inv_def)
  then show ?thesis using v'(1) by blast
qed

lemma mark_syncing_inv:
  assumes "view_inv scope limit v"
  shows "\<exists>v'. mark_syncing v owner = Some v' \<and> view_inv scope limit v'"
  using make_stale_view_inv [OF assms, of owner] by (auto simp: mark_syncing_def)

lemma confirm_progress_inv:
  assumes "view_inv scope limit v"
  shows "view_inv scope limit (fst (confirm_progress v now owner view_id applied))"
proof (cases "map_of (v_owners v) owner")
  case None
  then show ?thesis using assms by (simp add: confirm_progress_def)
next
  case (Some ov)
  show ?thesis
  proof (cases "ov_retired ov \<or> ov_view_id ov \<noteq> view_id \<or> ov_applied_sequence ov \<noteq> applied")
    case True
    then show ?thesis using assms Some by (auto simp: confirm_progress_def)
  next
    case False
    let ?ov = "ov\<lparr>ov_fresh := True, ov_received_at := now\<rparr>"
    let ?gain = "if \<not> ov_fresh ov \<and> owner \<in> set (v_expected v) then 1 else 0"
    have inv: "owners_inv scope v" using assms by (simp add: view_inv_def)
    then have ok: "owner_ok scope ?ov" using Some False by (auto simp: owners_inv_def owner_ok_def)
    have "owners_inv scope
        (v\<lparr>v_owners := bt_insert owner ?ov (v_owners v), v_admitted_owner_views := v_admitted_owner_views v,
           v_fresh_expected_owner_views := v_fresh_expected_owner_views v + ?gain\<rparr>)"
      using False by (intro owners_inv_flags [OF inv Some ok]) (auto simp: fresh_count_def admitted_count_def)
    then have "view_inv scope limit
        (v\<lparr>v_owners := bt_insert owner ?ov (v_owners v), v_admitted_owner_views := v_admitted_owner_views v,
           v_fresh_expected_owner_views := v_fresh_expected_owner_views v + ?gain\<rparr>)"
      using view_inv_parts [OF assms] by (intro view_invI [OF assms]) auto
    then show ?thesis
      using Some False by (auto simp: confirm_progress_def gain_fresh_def split: if_splits)
  qed
qed

section \<open>Staged snapshots\<close>

lemma discard_staging_inv:
  assumes "view_inv scope limit v"
  shows "\<exists>v'. discard_staging v owner = Some v' \<and> view_inv scope limit v' \<and>
    map_of (v_staging v') owner = None \<and> v_owners v' = v_owners v \<and> v_expected v' = v_expected v"
proof (cases "map_of (v_staging v) owner")
  case None
  then show ?thesis using assms by (simp add: discard_staging_def)
next
  case (Some st)
  have wf: "bt_wf (v_staging v)" and sum: "v_staging_bytes v = bt_sum (\<lambda>_ st. st_bytes st) (v_staging v)"
    using assms by (auto simp: view_inv_def staging_inv_def)
  note removed = bt_sum_remove [OF wf, of "\<lambda>_ st. st_bytes st" owner]
  have "st_bytes st \<le> v_staging_bytes v" "st_bytes st \<le> v_accounted_bytes v"
    using removed sum Some assms by (auto simp: view_inv_def)
  then show ?thesis
    using assms Some removed sum wf
    by (auto simp: discard_staging_def release_staging_def view_inv_def staging_inv_def owners_inv_def)
qed

lemma view_inv_stage:
  assumes inv: "view_inv scope limit v" and "staging_ok scope st'"
    and "bs + (case map_of (v_staging v) owner of None \<Rightarrow> 0 | Some st \<Rightarrow> st_bytes st) = v_staging_bytes v + st_bytes st'"
    and "accounted = v_active_bytes v + bs" and "accounted \<le> limit"
  shows "view_inv scope limit
    (v\<lparr>v_staging := bt_insert owner st' (v_staging v), v_staging_bytes := bs, v_accounted_bytes := accounted\<rparr>)"
proof -
  have wf: "bt_wf (v_staging v)" and sum: "v_staging_bytes v = bt_sum (\<lambda>_ st. st_bytes st) (v_staging v)"
    using inv by (auto simp: view_inv_def staging_inv_def)
  have "bs = bt_sum (\<lambda>_ st. st_bytes st) (bt_insert owner st' (v_staging v))"
    using bt_sum_insert [OF wf, of "\<lambda>_ st. st_bytes st" owner st']
      bt_sum_remove [OF wf, of "\<lambda>_ st. st_bytes st" owner] assms(3) sum
    by (auto split: option.splits)
  then show ?thesis
    using inv assms(2,4,5) wf by (auto simp: view_inv_def staging_inv_def owners_inv_def)
qed

lemma begin_snapshot_inv:
  assumes inv: "view_inv scope limit v"
  shows "\<exists>v' res. begin_snapshot limit v owner session snapshot view_id start = Some (v', res) \<and>
    view_inv scope limit v'"
proof -
  obtain v1 where v1: "discard_staging v owner = Some v1" "view_inv scope limit v1"
    "map_of (v_staging v1) owner = None"
    using discard_staging_inv [OF inv] by blast
  let ?st = "\<lparr>st_session_id = session, st_snapshot_id = snapshot, st_view_id = view_id,
    st_start_sequence = start, st_replay_sequence = start, st_next_page = 0,
    st_replay_started = False, st_last_residence = None, st_max_record_sequence = 0,
    st_records = [], st_bytes = OWNER_ACCOUNTING_BYTES\<rparr>"
  have ok: "staging_ok scope ?st" by (simp add: staging_ok_def staging_shape_def records_bytes_def)
  show ?thesis
  proof (cases "v_accounted_bytes v1 + OWNER_ACCOUNTING_BYTES > limit")
    case True
    then show ?thesis using inv v1 by (simp add: begin_snapshot_def)
  next
    case False
    have "view_inv scope limit
        (v1\<lparr>v_staging := bt_insert owner ?st (v_staging v1),
            v_staging_bytes := v_staging_bytes v1 + OWNER_ACCOUNTING_BYTES,
            v_accounted_bytes := v_accounted_bytes v1 + OWNER_ACCOUNTING_BYTES\<rparr>)"
      using v1 False ok by (intro view_inv_stage) (simp_all add: view_inv_def)
    then show ?thesis
      using make_stale_view_inv [of scope limit _ owner] inv v1 False
      by (fastforce simp: begin_snapshot_def)
  qed
qed

lemma stage_records_ok:
  assumes "page_ok scope (st_last_residence st) us" and "staging_shape scope st" and "\<not> st_replay_started st"
  shows "staging_shape scope (fold stage_record us st) \<and> \<not> st_replay_started (fold stage_record us st) \<and>
    st_bytes (fold stage_record us st) = st_bytes st \<and>
    records_bytes (st_records (fold stage_record us st)) = records_bytes (st_records st) + page_bytes us"
  using assms
proof (induction us arbitrary: st)
  case Nil
  then show ?case by (simp add: page_bytes_def)
next
  case (Cons u us)
  obtain res r where u: "u = (res, r)" by (cases u)
  have wf: "bt_wf (st_records st)" using Cons.prems(2) by (simp add: staging_shape_def records_ok_def)
  have below: "x < res" if "map_of (st_records st) x \<noteq> None" for x
  proof -
    have "case st_last_residence st of None \<Rightarrow> False | Some l \<Rightarrow> x \<le> l"
      using Cons.prems(2,3) that unfolding staging_shape_def by blast
    then show ?thesis using Cons.prems(1) u by (cases "st_last_residence st") auto
  qed
  then have new: "map_of (st_records st) res = None" by blast
  let ?bound = "max (max (st_max_record_sequence st) (rec_sequence r)) (st_replay_sequence st)"
  have "records_ok scope ?bound (st_records st)"
    using Cons.prems(2) by (auto simp: staging_shape_def intro: records_ok_mono)
  then have "records_ok scope ?bound (bt_insert res r (st_records st))"
    using Cons.prems(1) u by (intro records_ok_insert) auto
  then have "staging_shape scope (stage_record u st)"
    using below u by (auto simp: staging_shape_def stage_record_def dest: less_imp_le)
  moreover have "records_bytes (st_records (stage_record u st)) = records_bytes (st_records st) + entry_bytes (fst res)"
    using records_bytes_insert [OF wf, of res r] new u by (simp add: stage_record_def)
  moreover have "st_last_residence (stage_record u st) = Some res" "st_bytes (stage_record u st) = st_bytes st"
    "\<not> st_replay_started (stage_record u st)"
    using Cons.prems(3) u by (simp_all add: stage_record_def)
  ultimately show ?case
    using Cons.IH [of "stage_record u st"] Cons.prems(1) u by (simp add: page_bytes_def)
qed

lemma staging_of: "view_inv scope limit v \<Longrightarrow> map_of (v_staging v) owner = Some st \<Longrightarrow> staging_ok scope st"
  by (simp add: view_inv_def staging_inv_def)

lemma staging_bytes_le:
  "view_inv scope limit v \<Longrightarrow> map_of (v_staging v) owner = Some st \<Longrightarrow> st_bytes st \<le> v_staging_bytes v"
  using bt_sum_ge [of "v_staging v" owner st "\<lambda>_. st_bytes"] by (auto simp: view_inv_def staging_inv_def)

lemma apply_snapshot_page_inv:
  assumes inv: "view_inv scope limit v"
  shows "view_inv scope limit (fst (apply_snapshot_page limit scope v owner session snapshot page rs))"
proof (cases "map_of (v_staging v) owner")
  case None
  then show ?thesis using inv by (simp add: apply_snapshot_page_def)
next
  case (Some st)
  show ?thesis
  proof (cases "validate_page (st_last_residence st) rs scope")
    case (Inl e)
    then show ?thesis using inv Some by (simp add: apply_snapshot_page_def)
  next
    case (Inr r)
    obtain additional us where r: "r = (additional, us)" by (cases r)
    have page: "page_ok scope (st_last_residence st) us" "additional = page_bytes us"
      using validate_page_loop_ok [of scope "st_last_residence st" 0 "[]" rs additional us] Inr r
      by (auto simp: validate_page_def)
    note st = staging_of [OF inv Some]
    show ?thesis
    proof (cases "st_replay_started st \<or> v_accounted_bytes v + additional > limit")
      case True
      then show ?thesis using inv Some Inr r by (auto simp: apply_snapshot_page_def)
    next
      case False
      let ?st = "(fold stage_record us st)\<lparr>st_next_page := st_next_page (fold stage_record us st) + 1,
        st_bytes := st_bytes (fold stage_record us st) + additional\<rparr>"
      have "staging_ok scope ?st"
        using stage_records_ok [OF page(1)] st False page(2)
        by (auto simp: staging_ok_def staging_shape_def)
      moreover have "st_bytes ?st = st_bytes st + additional"
        using stage_records_ok [OF page(1)] st False by (auto simp: staging_ok_def)
      ultimately have "view_inv scope limit
        (v\<lparr>v_staging := bt_insert owner ?st (v_staging v), v_staging_bytes := v_staging_bytes v + additional,
           v_accounted_bytes := v_accounted_bytes v + additional\<rparr>)"
        using inv Some False by (intro view_inv_stage) (auto simp: view_inv_def)
      then show ?thesis using inv Some Inr r False by (auto simp: apply_snapshot_page_def Let_def)
    qed
  qed
qed

lemma checked_add_signed_Some:
  "int a + d = int b \<Longrightarrow> b \<le> u64_max \<Longrightarrow> checked_add_signed a d = Some b"
  by (simp add: checked_add_signed_def)

lemma over_budgetD:
  assumes "\<not> over_budget limit v delta"
  shows "\<exists>b. int (v_accounted_bytes v) + delta = int b \<and> b \<le> limit \<and> b \<le> u64_max \<and>
    checked_add_signed (v_accounted_bytes v) delta = Some b"
proof -
  have "0 \<le> int (v_accounted_bytes v) + delta" "int (v_accounted_bytes v) + delta \<le> int u64_max"
    "nat (int (v_accounted_bytes v) + delta) \<le> limit"
    using assms by (auto simp: over_budget_def checked_add_signed_def split: if_splits)
  then show ?thesis by (auto simp: checked_add_signed_def intro!: exI [of _ "nat (int (v_accounted_bytes v) + delta)"])
qed

lemma apply_snapshot_delta_inv:
  assumes inv: "view_inv scope limit v" and fits: "keys_fit rs"
    and result: "apply_snapshot_delta limit scope v owner session lo hi rs = (v', r)"
  shows "view_inv scope limit v' \<and> (v' = v \<or> r = Inr ())"
proof (cases "v' = v")
  case True
  then show ?thesis using inv by simp
next
  case False
  then obtain st where Some: "map_of (v_staging v) owner = Some st"
    using result by (auto simp: apply_snapshot_delta_def split: option.splits)
  have same: "st_session_id st = session" "st_replay_sequence st = lo"
    using result False Some by (auto simp: apply_snapshot_delta_def split: if_splits)
  obtain delta us where valid: "validate_delta (st_records st) lo hi rs scope = Inr (delta, us)"
    using result False Some same by (auto simp: apply_snapshot_delta_def split: sum.splits)
  have budget: "\<not> over_budget limit v delta"
    using result False Some same valid by (auto simp: apply_snapshot_delta_def)
  note st = staging_of [OF inv Some]
  have recs: "records_ok scope (max (st_max_record_sequence st) lo) (st_records st)"
    using st same by (simp add: staging_ok_def staging_shape_def)
  note ok = validate_delta_ok [OF valid fits] recs
  let ?st = "st\<lparr>st_replay_started := True, st_records := apply_records (st_records st) us,
    st_replay_sequence := hi, st_bytes := OWNER_ACCOUNTING_BYTES + records_bytes (apply_records (st_records st) us)\<rparr>"
  have delta: "int (st_bytes st) + delta = int (st_bytes ?st)" and us: "updates_ok scope lo hi us" and lt: "lo < hi"
    using ok st by (auto simp: staging_ok_def records_ok_def)
  have "records_ok scope (max (max (st_max_record_sequence st) lo) hi) (apply_records (st_records st) us)"
    by (rule apply_records_ok [OF recs us])
  then have ok': "staging_ok scope ?st"
    using lt by (auto simp: staging_ok_def staging_shape_def max_def split: if_splits)
  obtain b where b: "int (v_accounted_bytes v) + delta = int b" "b \<le> limit" "b \<le> u64_max"
    "checked_add_signed (v_accounted_bytes v) delta = Some b"
    using over_budgetD [OF budget] by blast
  have le: "st_bytes st \<le> v_staging_bytes v" by (rule staging_bytes_le [OF inv Some])
  have total: "v_accounted_bytes v = v_active_bytes v + v_staging_bytes v" using inv by (simp add: view_inv_def)
  define staging where "staging = v_staging_bytes v - st_bytes st + st_bytes ?st"
  have staging: "int (v_staging_bytes v) + delta = int staging" "b = v_active_bytes v + staging"
    using delta le b(1) total by (auto simp: staging_def)
  have "checked_add_signed (st_bytes st) delta = Some (st_bytes ?st)"
    using delta staging b(3) by (intro checked_add_signed_Some) (auto simp: staging_def)
  moreover have "checked_add_signed (v_staging_bytes v) delta = Some staging"
    using staging b(3) by (intro checked_add_signed_Some) auto
  moreover have "view_inv scope limit
      (v\<lparr>v_staging := bt_insert owner ?st (v_staging v), v_staging_bytes := staging, v_accounted_bytes := b\<rparr>)"
    using inv ok' Some staging b(2) le by (intro view_inv_stage) (auto simp: staging_def)
  ultimately show ?thesis
    using result Some same valid budget b(4)
    by (auto simp: apply_snapshot_delta_def Let_def)
qed

lemma abort_snapshot_inv:
  assumes "view_inv scope limit v"
  shows "\<exists>v'. abort_snapshot v owner session = Some v' \<and> view_inv scope limit v'"
  using discard_staging_inv [OF assms, of owner] assms
  by (auto simp: abort_snapshot_def split: option.splits)

section \<open>Membership changes\<close>

lemma retire_owner_inv:
  assumes "view_inv scope limit v"
  shows "\<exists>v'. retire_owner v owner = Some v' \<and> view_inv scope limit v'"
proof -
  obtain v1 where v1: "discard_staging v owner = Some v1" "view_inv scope limit v1"
    using discard_staging_inv [OF assms] by blast
  show ?thesis
  proof (cases "map_of (v_owners v1) owner")
    case None
    then show ?thesis using v1 by (simp add: retire_owner_def)
  next
    case (Some ov)
    let ?ov = "ov\<lparr>ov_retired := True, ov_fresh := False\<rparr>"
    have inv: "owners_inv scope v1" using v1 by (simp add: view_inv_def)
    note counts = owners_inv_counts [OF inv Some]
    let ?v = "v1\<lparr>v_admitted_owner_views := v_admitted_owner_views v1 - admitted_count ov,
      v_fresh_expected_owner_views := v_fresh_expected_owner_views v1 - fresh_count (v_expected v1) owner ov,
      v_owners := bt_insert owner ?ov (v_owners v1)\<rparr>"
    have ok: "owner_ok scope ?ov" using inv Some by (auto simp: owners_inv_def owner_ok_def)
    have "owners_inv scope ?v"
      using counts by (intro owners_inv_flags [OF inv Some ok]) (simp_all add: fresh_count_def admitted_count_def)
    then have "view_inv scope limit ?v"
      using view_inv_parts [OF v1(2)] by (intro view_invI [OF v1(2)]) auto
    then show ?thesis
      using v1 Some counts by (simp add: retire_owner_def lose_admitted_Some lose_fresh_Some)
  qed
qed

text \<open>The owner side of a view, which dropping staged snapshots leaves alone.\<close>

definition same_owners :: "view \<Rightarrow> view \<Rightarrow> bool" where
  "same_owners v w \<longleftrightarrow>
     v_owners w = v_owners v \<and> v_blocks w = v_blocks v \<and> v_active_bytes w = v_active_bytes v \<and>
     v_expected w = v_expected v \<and> v_admitted_owner_views w = v_admitted_owner_views v \<and>
     v_fresh_expected_owner_views w = v_fresh_expected_owner_views v"

lemma release_staging_inv:
  assumes "staging_inv scope v" and "v_staging_bytes v \<le> v_accounted_bytes v"
    and "map_of (v_staging v) owner = Some st"
  shows "\<exists>w. release_staging (v\<lparr>v_staging := bt_remove owner (v_staging v)\<rparr>) (st_bytes st) = Some w \<and>
    staging_inv scope w \<and> v_staging w = bt_remove owner (v_staging v) \<and> same_owners v w \<and>
    v_staging_bytes w \<le> v_accounted_bytes w \<and>
    v_accounted_bytes w \<le> v_accounted_bytes v \<and>
    v_accounted_bytes w + v_staging_bytes v = v_accounted_bytes v + v_staging_bytes w"
proof -
  have wf: "bt_wf (v_staging v)" using assms(1) by (simp add: staging_inv_def)
  note removed = bt_sum_remove [OF wf, of "\<lambda>_ st. st_bytes st" owner]
  have "st_bytes st \<le> v_staging_bytes v" using removed assms(1,3) by (simp add: staging_inv_def)
  then show ?thesis
    using assms removed wf by (auto simp: release_staging_def staging_inv_def same_owners_def)
qed

lemma drop_staging_inv:
  assumes "staging_inv scope v" and "v_staging_bytes v \<le> v_accounted_bytes v" and "distinct (map fst gone)"
    and "\<forall>(owner, bs) \<in> set gone. \<exists>st. map_of (v_staging v) owner = Some st \<and> st_bytes st = bs"
  shows "\<exists>w. drop_staging v gone = Some w \<and> staging_inv scope w \<and> same_owners v w \<and>
    v_accounted_bytes w \<le> v_accounted_bytes v \<and>
    v_accounted_bytes w + v_staging_bytes v = v_accounted_bytes v + v_staging_bytes w"
  using assms
proof (induction gone arbitrary: v)
  case Nil
  then show ?case by (simp add: same_owners_def)
next
  case (Cons g gone)
  obtain owner bs where g: "g = (owner, bs)" by (cases g)
  obtain st where st: "map_of (v_staging v) owner = Some st" "st_bytes st = bs"
    using Cons.prems(4) g by auto
  obtain v1 where v1: "release_staging (v\<lparr>v_staging := bt_remove owner (v_staging v)\<rparr>) bs = Some v1"
    "staging_inv scope v1" "v_staging v1 = bt_remove owner (v_staging v)" "same_owners v v1"
    "v_staging_bytes v1 \<le> v_accounted_bytes v1" "v_accounted_bytes v1 \<le> v_accounted_bytes v"
    "v_accounted_bytes v1 + v_staging_bytes v = v_accounted_bytes v + v_staging_bytes v1"
    using release_staging_inv [OF Cons.prems(1,2) st(1)] st(2) by blast
  have "\<exists>st. map_of (v_staging v1) o' = Some st \<and> st_bytes st = bs'" if "(o', bs') \<in> set gone" for o' bs'
  proof -
    have "o' \<noteq> owner" using Cons.prems(3) g that by force
    then show ?thesis using Cons.prems(4) that by (auto simp: v1(3))
  qed
  then obtain w where "drop_staging v1 gone = Some w" "staging_inv scope w" "same_owners v1 w"
    "v_accounted_bytes w \<le> v_accounted_bytes v1"
    "v_accounted_bytes w + v_staging_bytes v1 = v_accounted_bytes v1 + v_staging_bytes w"
    using Cons.IH [OF v1(2,5)] Cons.prems(3) by auto
  then show ?case using v1(1,4,6,7) g by (auto simp: same_owners_def)
qed

lemma count_values: "length (filter P (bt_values m)) = bt_sum (\<lambda>_ v. if P v then 1 else 0) m"
  by (induction m) (auto simp: bt_values_def)

lemma length_filter_split:
  assumes "distinct xs" and "\<not> Q k"
  shows "length (filter (\<lambda>x. if x = k then b else Q x) xs) =
    length (filter Q xs) + (if b \<and> k \<in> set xs then 1 else 0)"
  using assms by (induction xs) auto

lemma count_expected:
  assumes "distinct xs" and "bt_wf m"
  shows "length (filter (\<lambda>k. case map_of m k of None \<Rightarrow> False | Some v \<Rightarrow> P v) xs) =
    bt_sum (\<lambda>k v. if P v \<and> k \<in> set xs then 1 else 0) m"
  using assms(2)
proof (induction m)
  case (Cons e m)
  obtain k v where e: "e = (k, v)" by (cases e)
  have wf: "bt_wf m" and "\<forall>l \<in> fst ` set m. k < l" using Cons.prems e by (auto simp: bt_wf_Cons)
  then have "k \<notin> fst ` set m" by blast
  then have none: "map_of m k = None" by (simp add: map_of_eq_None_iff)
  let ?Q = "\<lambda>x. case map_of m x of None \<Rightarrow> False | Some v \<Rightarrow> P v"
  have "(\<lambda>x. case map_of (e # m) x of None \<Rightarrow> False | Some v \<Rightarrow> P v) = (\<lambda>x. if x = k then P v else ?Q x)"
    by (auto simp: e fun_eq_iff)
  then show ?case
    using length_filter_split [OF assms(1), of ?Q k "P v"] Cons.IH [OF wf] none by (simp add: e)
qed simp

lemma owners_inv_refresh:
  assumes inv: "owners_inv scope v" and "distinct expected"
    and w: "v_owners w = map (\<lambda>(owner, ov). (owner, if owner \<notin> set expected
        then ov\<lparr>ov_retired := True, ov_fresh := False\<rparr> else ov)) (v_owners v)"
      "v_blocks w = v_blocks v" "v_active_bytes w = v_active_bytes v" "v_expected w = expected"
  shows "owners_inv scope (refresh_coverage_counts w)"
proof -
  let ?f = "\<lambda>owner ov. if owner \<notin> set expected then ov\<lparr>ov_retired := True, ov_fresh := False\<rparr> else ov"
  have wf: "bt_wf (v_owners w)" using inv by (simp add: owners_inv_def w(1) bt_wf_map_value)
  have get: "map_of (v_owners w) owner = map_option (?f owner) (map_of (v_owners v) owner)" for owner
    by (simp only: w(1) map_of_map_value)
  have "record_at (v_owners w) = record_at (v_owners v)"
    by (auto simp: record_at_def get fun_eq_iff split: option.splits)
  moreover have "owner_ok scope ov" if "map_of (v_owners w) owner = Some ov" for owner ov
    using that inv by (auto simp: get owners_inv_def owner_ok_def split: if_splits)
  moreover have "bt_sum (\<lambda>_ ov. OWNER_ACCOUNTING_BYTES + records_bytes (ov_records ov)) (v_owners w) =
      bt_sum (\<lambda>_ ov. OWNER_ACCOUNTING_BYTES + records_bytes (ov_records ov)) (v_owners v)"
    unfolding w(1) by (rule bt_sum_map_value) simp
  moreover have "length (filter (\<lambda>ov. \<not> ov_retired ov) (bt_values (v_owners w))) =
      bt_sum (\<lambda>_. admitted_count) (v_owners w)"
    unfolding count_values by (rule bt_sum_cong) (simp add: admitted_count_def)
  moreover have "length (filter (\<lambda>owner. case map_of (v_owners w) owner of None \<Rightarrow> False
        | Some ov \<Rightarrow> \<not> ov_retired ov \<and> ov_fresh ov) expected) = bt_sum (fresh_count expected) (v_owners w)"
    unfolding count_expected [OF assms(2) wf] by (rule bt_sum_cong) (auto simp: fresh_count_def)
  ultimately show ?thesis
    using inv wf assms(2) by (auto simp: owners_inv_def refresh_coverage_counts_def w(2-4))
qed

lemma set_expected_owners_inv:
  assumes inv: "view_inv scope limit v"
  shows "\<exists>v'. set_expected_owners local_owner v revision owners = Some v' \<and> view_inv scope limit v'"
proof (cases "case v_membership_revision v of None \<Rightarrow> False | Some current \<Rightarrow> revision < current")
  case True
  then show ?thesis using inv by (simp add: set_expected_owners_def)
next
  case False
  note parts = view_inv_parts [OF inv]
  define expected where "expected = remdups (filter (\<lambda>owner. owner \<noteq> local_owner) owners)"
  define v1 where "v1 = v\<lparr>v_owners := map (\<lambda>(owner, ov). (owner, if owner \<notin> set expected
        then ov\<lparr>ov_retired := True, ov_fresh := False\<rparr> else ov)) (v_owners v)\<rparr>"
  define gone where "gone = map (\<lambda>(owner, st). (owner, st_bytes st))
    (filter (\<lambda>(owner, st). owner \<notin> set expected) (v_staging v1))"
  have staging: "staging_inv scope v1" "v_staging_bytes v1 \<le> v_accounted_bytes v1"
    using parts by (auto simp: v1_def staging_inv_def)
  have wf: "bt_wf (v_staging v1)" using staging by (simp add: staging_inv_def)
  have "distinct (map fst gone)"
  proof -
    have "map fst gone = map fst (filter (\<lambda>(owner, st). owner \<notin> set expected) (v_staging v1))"
      by (auto simp: gone_def)
    then show ?thesis using bt_wf_distinct [OF bt_wf_filter [OF wf]] by simp
  qed
  moreover have "\<forall>(owner, bs) \<in> set gone. \<exists>st. map_of (v_staging v1) owner = Some st \<and> st_bytes st = bs"
    using wf by (auto simp: gone_def in_set_iff_map_of)
  ultimately obtain v2 where v2: "drop_staging v1 gone = Some v2" "staging_inv scope v2" "same_owners v1 v2"
    "v_accounted_bytes v2 \<le> v_accounted_bytes v1"
    "v_accounted_bytes v2 + v_staging_bytes v1 = v_accounted_bytes v1 + v_staging_bytes v2"
    using drop_staging_inv [OF staging] by blast
  let ?w = "v2\<lparr>v_expected := expected, v_membership_revision := Some revision\<rparr>"
  have "owners_inv scope (refresh_coverage_counts ?w)"
    using parts v2(3)
    by (intro owners_inv_refresh [of scope v expected]) (simp_all add: expected_def same_owners_def v1_def)
  moreover have "staging_inv scope (refresh_coverage_counts ?w)"
    using v2(2) by (simp add: staging_inv_def refresh_coverage_counts_def)
  moreover have "v_accounted_bytes v2 = v_active_bytes v2 + v_staging_bytes v2"
    "v_accounted_bytes v2 \<le> limit"
    using v2(3-5) parts by (auto simp: same_owners_def v1_def)
  ultimately have "view_inv scope limit (refresh_coverage_counts ?w)"
    by (simp add: view_inv_def refresh_coverage_counts_def)
  then show ?thesis
    using False v2(1) by (simp add: set_expected_owners_def Let_def expected_def v1_def gone_def)
qed

section \<open>Installing and removing an owner\<close>

lemma owners_inv_remove:
  assumes inv: "owners_inv scope v" and old: "map_of (v_owners v) owner = Some ov"
    and w: "v_owners w = bt_remove owner (v_owners v)" "v_expected w = v_expected v"
    and "blocks_ok ((record_at (v_owners v))(owner := Map.empty)) (v_blocks w)"
    and "v_active_bytes w + (OWNER_ACCOUNTING_BYTES + records_bytes (ov_records ov)) = v_active_bytes v"
    and "v_admitted_owner_views w + admitted_count ov = v_admitted_owner_views v"
    and "v_fresh_expected_owner_views w + fresh_count (v_expected v) owner ov = v_fresh_expected_owner_views v"
  shows "owners_inv scope w"
proof -
  have wf: "bt_wf (v_owners v)" using inv by (simp add: owners_inv_def)
  have sums: "bt_sum f (v_owners v) = bt_sum f (v_owners w) + f owner ov" for f
    using bt_sum_remove [OF wf, of f owner] old by (simp add: w)
  have "record_at (v_owners w) = (record_at (v_owners v))(owner := Map.empty)"
    by (auto simp: record_at_def fun_eq_iff w)
  then show ?thesis
    using inv wf assms(5-8) sums [of "\<lambda>_ ov. OWNER_ACCOUNTING_BYTES + records_bytes (ov_records ov)"]
      sums [of "\<lambda>_. admitted_count"] sums [of "fresh_count (v_expected v)"]
    by (auto simp: owners_inv_def w)
qed

lemma owners_inv_install:
  assumes inv: "owners_inv scope v" and new: "map_of (v_owners v) owner = None" and "owner_ok scope ov"
    and w: "v_owners w = bt_insert owner ov (v_owners v)" "v_expected w = v_expected v"
    and "blocks_ok ((record_at (v_owners v))(owner := map_of (ov_records ov))) (v_blocks w)"
    and "v_active_bytes w = v_active_bytes v + (OWNER_ACCOUNTING_BYTES + records_bytes (ov_records ov))"
    and "v_admitted_owner_views w = v_admitted_owner_views v + admitted_count ov"
    and "v_fresh_expected_owner_views w = v_fresh_expected_owner_views v + fresh_count (v_expected v) owner ov"
  shows "owners_inv scope w"
proof -
  have wf: "bt_wf (v_owners v)" using inv by (simp add: owners_inv_def)
  have sums: "bt_sum f (v_owners w) = bt_sum f (v_owners v) + f owner ov" for f
    using bt_sum_insert_new [OF wf new, of f ov] by (simp add: w)
  have "record_at (v_owners w) = (record_at (v_owners v))(owner := map_of (ov_records ov))"
    by (auto simp: record_at_def fun_eq_iff w)
  then show ?thesis
    using inv wf assms(3,6-9) sums [of "\<lambda>_ ov. OWNER_ACCOUNTING_BYTES + records_bytes (ov_records ov)"]
      sums [of "\<lambda>_. admitted_count"] sums [of "fresh_count (v_expected v)"]
    by (auto simp: owners_inv_def w)
qed

lemma map_of_outside_keys: "(\<lambda>res. if res \<in> set (bt_keys m) then None else map_of m res) = Map.empty"
  by (auto simp: fun_eq_iff bt_keys_def map_of_eq_None_iff)

lemma remove_active_owner_inv:
  assumes inv: "owners_inv scope v" and "v_active_bytes v \<le> v_accounted_bytes v"
  shows "\<exists>w. remove_active_owner v owner = Some w \<and> owners_inv scope w \<and>
    map_of (v_owners w) owner = None \<and> v_expected w = v_expected v \<and> v_staging w = v_staging v \<and>
    v_staging_bytes w = v_staging_bytes v \<and> v_accounted_bytes w \<le> v_accounted_bytes v \<and>
    v_accounted_bytes w + v_active_bytes v = v_accounted_bytes v + v_active_bytes w"
proof (cases "map_of (v_owners v) owner")
  case None
  then show ?thesis using inv by (simp add: remove_active_owner_def)
next
  case (Some ov)
  note counts = owners_inv_counts [OF inv Some]
  let ?keys = "bt_keys (ov_records ov)"
  let ?n = "OWNER_ACCOUNTING_BYTES + records_bytes (ov_records ov)"
  let ?w = "v\<lparr>v_owners := bt_remove owner (v_owners v),
    v_admitted_owner_views := v_admitted_owner_views v - admitted_count ov,
    v_fresh_expected_owner_views := v_fresh_expected_owner_views v - fresh_count (v_expected v) owner ov,
    v_blocks := fold (\<lambda>res b. remove_block b owner res) ?keys (v_blocks v),
    v_active_bytes := v_active_bytes v - ?n, v_accounted_bytes := v_accounted_bytes v - ?n\<rparr>"
  have "blocks_ok (record_at (v_owners v)) (v_blocks v)" using inv by (simp add: owners_inv_def)
  from blocks_ok_fold_remove [OF this, of owner ?keys]
  have "blocks_ok ((record_at (v_owners v))(owner := Map.empty)) (v_blocks ?w)"
    unfolding record_at_Some [OF Some] map_of_outside_keys by simp
  then have "owners_inv scope ?w"
    using counts by (intro owners_inv_remove [OF inv Some]) simp_all
  moreover have "remove_active_owner v owner = Some ?w"
    using Some counts assms(2)
    by (simp add: remove_active_owner_def lose_admitted_Some lose_fresh_Some release_active_def
        records_bytes_def bt_sum_keys)
  ultimately show ?thesis using counts(3) assms(2) by (intro exI [of _ ?w]) simp
qed

lemma commit_snapshot_inv:
  assumes inv: "view_inv scope limit v"
  shows "\<exists>v' res. commit_snapshot m now clock v owner session snapshot view_id through pages = Some (v', res) \<and>
    view_inv scope limit v'"
proof (cases "map_of (v_staging v) owner")
  case None
  then show ?thesis using inv by (simp add: commit_snapshot_def)
next
  case (Some st)
  note parts = view_inv_parts [OF inv]
  have wf: "bt_wf (v_staging v)" using parts by (simp add: staging_inv_def)
  let ?incomplete = "st_session_id st \<noteq> session \<or> st_snapshot_id st \<noteq> snapshot \<or> st_view_id st \<noteq> view_id
    \<or> st_replay_sequence st \<noteq> through \<or> st_next_page st \<noteq> pages \<or> st_start_sequence st > through
    \<or> st_max_record_sequence st > through"
  let ?v0 = "v\<lparr>v_staging := bt_remove owner (v_staging v)\<rparr>"
  consider (incomplete) ?incomplete
    | (rejected) "\<not> ?incomplete" "owner \<notin> set (v_expected v) \<or> resolve m now owner = None"
    | (installed) "\<not> ?incomplete" "owner \<in> set (v_expected v)" "resolve m now owner \<noteq> None"
    by blast
  then show ?thesis
  proof cases
    case incomplete
    then show ?thesis
      using inv Some bt_insert_remove_same [OF wf Some] by (simp add: commit_snapshot_def)
  next
    case rejected
    obtain v1 where v1: "discard_staging v owner = Some v1" "view_inv scope limit v1"
      using discard_staging_inv [OF inv] by blast
    then show ?thesis
      using rejected Some by (auto simp: commit_snapshot_def discard_staging_def Let_def)
  next
    case installed
    have st: "staging_ok scope st" by (rule staging_of [OF inv Some])
    have recs: "records_ok scope through (st_records st)"
      using st installed(1) by (auto simp: staging_ok_def staging_shape_def intro: records_ok_mono)
    have "owners_inv scope ?v0" using parts by (auto intro: owners_inv_cong)
    then obtain v1 where v1: "remove_active_owner ?v0 owner = Some v1" "owners_inv scope v1"
      "map_of (v_owners v1) owner = None" "v_expected v1 = v_expected v" "v_staging v1 = bt_remove owner (v_staging v)"
      "v_staging_bytes v1 = v_staging_bytes v" "v_accounted_bytes v1 \<le> v_accounted_bytes v"
      "v_accounted_bytes v1 + v_active_bytes v = v_accounted_bytes v + v_active_bytes v1"
      using remove_active_owner_inv [of scope ?v0 owner] parts by auto
    have none: "record_at (v_owners v1) owner = Map.empty" using v1(3) by (simp add: record_at_def)
    have wfr: "bt_wf (st_records st)" using recs by (simp add: records_ok_def)
    have valid: "\<forall>(res, r) \<in> set (st_records st). validate_record r = Inr res \<and> rec_present r"
    proof (safe)
      fix k md r assume "((k, md), r) \<in> set (st_records st)"
      then have "map_of (st_records st) (k, md) = Some r" using wfr by (simp add: in_set_iff_map_of)
      then show "validate_record r = Inr (k, md)" "rec_present r" using recs by (auto simp: records_ok_def)
    qed
    have put: "put_records (st_records st) Map.empty = map_of (st_records st)"
      using valid bt_wf_distinct [OF wfr]
      by (auto simp: fun_eq_iff put_records_get dest!: map_of_SomeD split: option.splits)
    obtain blocks where blocks: "insert_blocks (v_blocks v1) owner (bt_values (st_records st)) = Some blocks"
      "blocks_ok ((record_at (v_owners v1))(owner := map_of (st_records st))) blocks"
      using blocks_ok_insert_all [of "record_at (v_owners v1)" "v_blocks v1" "st_records st" owner]
        v1(2) bt_wf_distinct [OF wfr] valid
      unfolding none put by (auto simp: owners_inv_def bt_values_def)
    let ?ov = "\<lparr>ov_view_id = st_view_id st, ov_applied_sequence = through,
      ov_installed_mono_ns = monotonic_ns clock, ov_records = st_records st, ov_fresh = True,
      ov_received_at = now, ov_retired = False\<rparr>"
    let ?v2 = "v1\<lparr>v_staging_bytes := v_staging_bytes v1 - st_bytes st, v_blocks := blocks,
      v_active_bytes := v_active_bytes v1 + st_bytes st, v_owners := bt_insert owner ?ov (v_owners v1),
      v_admitted_owner_views := v_admitted_owner_views v1 + 1,
      v_fresh_expected_owner_views := v_fresh_expected_owner_views v1 + 1\<rparr>"
    have ok: "owner_ok scope ?ov" using recs by (simp add: owner_ok_def)
    have "owners_inv scope ?v2"
      using blocks(2) st v1(4) installed(2)
      by (intro owners_inv_install [OF v1(2,3) ok])
        (simp_all add: staging_ok_def admitted_count_def fresh_count_def)
    moreover have le: "st_bytes st \<le> v_staging_bytes v" by (rule staging_bytes_le [OF inv Some])
    moreover have "staging_inv scope ?v2"
      using parts bt_sum_remove [OF wf, of "\<lambda>_. st_bytes" owner] Some
      by (auto simp: staging_inv_def v1(5,6))
    ultimately have "view_inv scope limit ?v2"
      using v1(6-8) parts by (auto simp: view_inv_def)
    then show ?thesis
      using installed Some v1(1,4,6) blocks(1) le
      by (auto simp: commit_snapshot_def Let_def gain_fresh_def)
  qed
qed

section \<open>Deltas\<close>

lemma updates_okD:
  assumes "updates_ok scope lo hi us"
  shows "distinct (map fst us)" and "\<forall>(res, r) \<in> set us. validate_record r = Inr res"
proof -
  have wf: "bt_wf us" using assms by (simp add: updates_ok_def)
  then show "distinct (map fst us)" by (rule bt_wf_distinct)
  show "\<forall>(res, r) \<in> set us. validate_record r = Inr res"
    using assms wf by (auto simp: updates_ok_def in_set_iff_map_of)
qed

lemma recs_not_newer:
  assumes "records_ok scope lo records" and "updates_ok scope lo hi us"
  shows "\<forall>(res, r) \<in> set us. \<not> newer (map_of records res) r"
proof safe
  fix k md r assume "((k, md), r) \<in> set us" and newer: "newer (map_of records (k, md)) r"
  then have "lo < rec_sequence r" using assms(2) by (auto simp: updates_ok_def in_set_iff_map_of)
  then show False using newer assms(1) by (fastforce simp: newer_def records_ok_def split: option.splits)
qed

lemma apply_delta_inv:
  assumes inv: "view_inv scope limit v" and fits: "keys_fit rs"
  shows "\<exists>v' res. apply_delta limit scope now clock v owner view_id lo hi rs = Some (v', res) \<and>
    view_inv scope limit v' \<and> (v' = v \<or> res = Inr Applied)"
proof -
  let ?result = "apply_delta limit scope now clock v owner view_id lo hi rs"
  have unchanged: ?thesis if "\<exists>res. ?result = Some (v, res)" using that inv by blast
  show ?thesis
  proof (cases "\<exists>ov delta us. map_of (v_owners v) owner = Some ov \<and> \<not> ov_retired ov \<and>
      ov_view_id ov = view_id \<and> ov_applied_sequence ov = lo \<and> lo < hi \<and>
      validate_delta (ov_records ov) lo hi rs scope = Inr (delta, us) \<and> \<not> over_budget limit v delta")
    case False
    then have "\<exists>res. ?result = Some (v, res)"
      by (auto simp: apply_delta_def split: option.splits sum.splits)
    then show ?thesis by (rule unchanged)
  next
    case True
    then obtain ov delta us where ov: "map_of (v_owners v) owner = Some ov" "\<not> ov_retired ov"
      "ov_view_id ov = view_id" "ov_applied_sequence ov = lo" "lo < hi"
      and valid: "validate_delta (ov_records ov) lo hi rs scope = Inr (delta, us)"
      and budget: "\<not> over_budget limit v delta" by blast
    note parts = view_inv_parts [OF inv]
    have oinv: "owners_inv scope v" using parts by simp
    have recs: "records_ok scope lo (ov_records ov)" using oinv ov by (auto simp: owners_inv_def owner_ok_def)
    have us: "updates_ok scope lo hi us"
      and delta: "int (records_bytes (apply_records (ov_records ov) us)) = int (records_bytes (ov_records ov)) + delta"
      using validate_delta_ok [OF valid fits] recs by (auto simp: records_ok_def)
    define recs' where "recs' = apply_records (ov_records ov) us"
    have wfu: "distinct (map fst us)" and us_valid: "\<forall>(res, r) \<in> set us. validate_record r = Inr res"
      and not_newer: "\<forall>(res, r) \<in> set us. \<not> newer (map_of (ov_records ov) res) r"
      using updates_okD [OF us] recs_not_newer [OF recs us] by blast+
    have put: "put_records us (map_of (ov_records ov)) = map_of recs'"
      unfolding recs'_def by (rule apply_records_put [OF wfu not_newer, symmetric])
    obtain blocks where blocks: "update_blocks (v_blocks v) owner us = Some blocks"
      "blocks_ok ((record_at (v_owners v))(owner := map_of recs')) blocks"
      using blocks_ok_update [of "record_at (v_owners v)" "v_blocks v" us owner] oinv us_valid
      unfolding record_at_Some [OF ov(1)] put by (auto simp: owners_inv_def)
    obtain b where b: "int (v_accounted_bytes v) + delta = int b" "b \<le> limit" "b \<le> u64_max"
      "checked_add_signed (v_accounted_bytes v) delta = Some b"
      using over_budgetD [OF budget] by blast
    define active where "active = v_active_bytes v - records_bytes (ov_records ov) + records_bytes recs'"
    have active: "int (v_active_bytes v) + delta = int active"
      "active + records_bytes (ov_records ov) = v_active_bytes v + records_bytes recs'"
      "b = active + v_staging_bytes v"
      using delta owners_inv_counts(3) [OF oinv ov(1)] b(1) parts by (auto simp: active_def recs'_def)
    have sum: "checked_add_signed (v_active_bytes v) delta = Some active"
      using active b(3) by (intro checked_add_signed_Some) auto
    let ?gain = "\<not> ov_fresh ov \<and> owner \<in> set (v_expected v)"
    let ?ov1 = "ov\<lparr>ov_records := recs', ov_applied_sequence := hi, ov_fresh := True, ov_received_at := now\<rparr>"
    let ?ov = "?ov1\<lparr>ov_installed_mono_ns := monotonic_ns clock\<rparr>"
    let ?w = "(gain_fresh (v\<lparr>v_blocks := blocks, v_owners := bt_insert owner ?ov1 (v_owners v)\<rparr>) ?gain)
      \<lparr>v_active_bytes := active, v_accounted_bytes := b, v_owners := bt_insert owner ?ov (v_owners v)\<rparr>"
    have "records_ok scope hi recs'"
      using apply_records_ok [OF recs us] ov(5) by (simp add: recs'_def max_absorb2)
    then have ok: "owner_ok scope ?ov" using ov(2) by (simp add: owner_ok_def)
    have "owners_inv scope ?w"
      using active(2) blocks(2) ov(2)
      by (intro owners_inv_replace [OF oinv ov(1) ok])
        (auto simp: gain_fresh_def admitted_count_def fresh_count_def)
    then have "view_inv scope limit ?w"
      using b(2) active(3) parts by (intro view_invI [OF inv]) (auto simp: gain_fresh_def)
    moreover have "?result = Some (next_generation ?w, Inr Applied)"
      using ov valid budget blocks(1) sum b(4)
      by (simp add: apply_delta_def Let_def gain_fresh_def recs'_def)
    ultimately show ?thesis by simp
  qed
qed

section \<open>Cleaning up a retired owner\<close>

lemma cleanup_records_ok:
  assumes "cleanup_records owner (b, recs, n) ress = (b', recs', n')" and "bt_wf recs"
  shows "b' = fold (\<lambda>res b. remove_block b owner res) ress b \<and> bt_wf recs' \<and>
    map_of recs' = (\<lambda>res. if res \<in> set ress then None else map_of recs res) \<and>
    n' + records_bytes recs' = n + records_bytes recs"
  using assms
proof (induction ress arbitrary: b recs n)
  case (Cons res ress)
  let ?n = "if map_of recs res \<noteq> None then n + entry_bytes (fst res) else n"
  have "b' = fold (\<lambda>res b. remove_block b owner res) ress (remove_block b owner res) \<and> bt_wf recs' \<and>
    map_of recs' = (\<lambda>x. if x \<in> set ress then None else map_of (bt_remove res recs) x) \<and>
    n' + records_bytes recs' = ?n + records_bytes (bt_remove res recs)"
    using Cons.IH [of "remove_block b owner res" "bt_remove res recs" ?n] Cons.prems by simp
  moreover have "?n + records_bytes (bt_remove res recs) = n + records_bytes recs"
    using records_bytes_remove [OF Cons.prems(2), of res] by (auto split: option.splits)
  ultimately show ?case by (auto simp: fun_eq_iff)
qed simp

lemma remove_empty_owner_inv:
  assumes inv: "view_inv scope limit v" and ov: "map_of (v_owners v) owner = Some ov" "ov_retired ov"
    and empty: "ov_records ov = []"
  shows "\<exists>v'. release_active (v\<lparr>v_owners := bt_remove owner (v_owners v)\<rparr>) OWNER_ACCOUNTING_BYTES = Some v' \<and>
    view_inv scope limit v'"
proof -
  note parts = view_inv_parts [OF inv]
  have oinv: "owners_inv scope v" using parts by simp
  have le: "OWNER_ACCOUNTING_BYTES \<le> v_active_bytes v" "OWNER_ACCOUNTING_BYTES \<le> v_accounted_bytes v"
    using owners_inv_counts(3) [OF oinv ov(1)] parts by auto
  let ?w = "v\<lparr>v_owners := bt_remove owner (v_owners v),
    v_active_bytes := v_active_bytes v - OWNER_ACCOUNTING_BYTES,
    v_accounted_bytes := v_accounted_bytes v - OWNER_ACCOUNTING_BYTES\<rparr>"
  have "(record_at (v_owners v))(owner := Map.empty) = record_at (v_owners v)"
    using record_at_Some [OF ov(1)] empty by (simp add: fun_eq_iff)
  then have "owners_inv scope ?w"
    using le oinv ov(2) empty by (intro owners_inv_remove [OF oinv ov(1)])
      (simp_all add: owners_inv_def admitted_count_def fresh_count_def records_bytes_def)
  then have "view_inv scope limit ?w"
    using parts le by (intro view_invI [OF inv]) auto
  then show ?thesis using le by (simp add: release_active_def)
qed

lemma cleanup_owner_inv:
  assumes inv: "view_inv scope limit v"
  shows "\<exists>v' done. cleanup_owner v owner n = Some (v', done) \<and> view_inv scope limit v'"
proof (cases "\<exists>ov. map_of (v_owners v) owner = Some ov \<and> ov_retired ov")
  case False
  then show ?thesis using inv by (auto simp: cleanup_owner_def split: option.splits)
next
  case True
  then obtain ov where ov: "map_of (v_owners v) owner = Some ov" "ov_retired ov" by blast
  note parts = view_inv_parts [OF inv]
  have oinv: "owners_inv scope v" using parts by simp
  have okv: "owner_ok scope ov" using oinv ov by (auto simp: owners_inv_def)
  let ?ress = "take (max n 1) (bt_keys (ov_records ov))"
  obtain blocks recs removed where step:
    "cleanup_records owner (v_blocks v, ov_records ov, 0) ?ress = (blocks, recs, removed)"
    by (cases "cleanup_records owner (v_blocks v, ov_records ov, 0) ?ress")
  have wf: "bt_wf (ov_records ov)" using okv by (simp add: owner_ok_def records_ok_def)
  note ok = cleanup_records_ok [OF step wf]
  let ?w = "v\<lparr>v_blocks := blocks, v_owners := bt_insert owner (ov\<lparr>ov_records := recs\<rparr>) (v_owners v),
    v_active_bytes := v_active_bytes v - removed, v_accounted_bytes := v_accounted_bytes v - removed\<rparr>"
  have le: "removed \<le> v_active_bytes v" "removed \<le> v_accounted_bytes v"
    using ok owners_inv_counts(3) [OF oinv ov(1)] parts by auto
  have blocks: "blocks_ok ((record_at (v_owners v))(owner := map_of recs)) blocks"
    using blocks_ok_fold_remove [of "record_at (v_owners v)" "v_blocks v" owner ?ress] oinv ok
    unfolding record_at_Some [OF ov(1)] by (simp add: owners_inv_def)
  have ok': "owner_ok scope (ov\<lparr>ov_records := recs\<rparr>)"
    using okv ok by (auto simp: owner_ok_def records_ok_def)
  have "removed + records_bytes recs = records_bytes (ov_records ov)" using ok by simp
  then have winv: "owners_inv scope ?w"
    using blocks le by (intro owners_inv_replace [OF oinv ov(1) ok'])
      (simp_all add: admitted_count_def fresh_count_def)
  have view: "view_inv scope limit ?w"
    using winv parts le by (intro view_invI [OF inv]) auto
  show ?thesis
  proof (cases "recs = []")
    case False
    then show ?thesis using view ov step le by (auto simp: cleanup_owner_def release_active_def)
  next
    case True
    have "map_of (v_owners ?w) owner = Some (ov\<lparr>ov_records := recs\<rparr>)" by simp
    then obtain v' where "release_active (?w\<lparr>v_owners := bt_remove owner (v_owners ?w)\<rparr>) OWNER_ACCOUNTING_BYTES = Some v'"
      "view_inv scope limit v'"
      using remove_empty_owner_inv [OF view] ov(2) True by fastforce
    moreover have "release_active (v\<lparr>v_blocks := blocks,
        v_owners := bt_insert owner (ov\<lparr>ov_records := recs\<rparr>) (v_owners v)\<rparr>) removed = Some ?w"
      using le by (simp add: release_active_def)
    ultimately show ?thesis using ov step True by (auto simp: cleanup_owner_def)
  qed
qed

section \<open>The index as a state machine\<close>

text \<open>
  The calls of the index with their arguments: the membership view and the clock readings a call
  sees are arguments of its label, so every behaviour of the membership is covered. \<open>None\<close> is a
  panic of the code.
\<close>

datatype index_op =
    OpReset
  | OpSetExpected uuid int "uuid list"
  | OpMarkSyncing uuid
  | OpMarkStale uuid
  | OpConfirm instant uuid uuid nat
  | OpBegin uuid uuid uuid uuid nat
  | OpPage uuid uuid uuid nat "inventory_record list"
  | OpSnapshotDelta uuid uuid nat nat "inventory_record list"
  | OpCommit membership_view instant "(int \<times> int) option" uuid uuid uuid uuid nat nat
  | OpAbort uuid uuid
  | OpDelta instant "(int \<times> int) option" uuid uuid nat nat "inventory_record list"
  | OpRetire uuid
  | OpCleanup uuid nat

fun index_run :: "inventory_scope \<Rightarrow> nat \<Rightarrow> index_op \<Rightarrow> view \<Rightarrow> view option" where
  "index_run scope limit OpReset v = Some (reset v)"
| "index_run scope limit (OpSetExpected local_owner revision owners) v =
     set_expected_owners local_owner v revision owners"
| "index_run scope limit (OpMarkSyncing owner) v = mark_syncing v owner"
| "index_run scope limit (OpMarkStale owner) v = mark_stale v owner"
| "index_run scope limit (OpConfirm now owner view_id applied) v =
     Some (fst (confirm_progress v now owner view_id applied))"
| "index_run scope limit (OpBegin owner session snapshot view_id start) v =
     map_option fst (begin_snapshot limit v owner session snapshot view_id start)"
| "index_run scope limit (OpPage owner session snapshot page records) v =
     Some (fst (apply_snapshot_page limit scope v owner session snapshot page records))"
| "index_run scope limit (OpSnapshotDelta owner session lo hi records) v =
     Some (fst (apply_snapshot_delta limit scope v owner session lo hi records))"
| "index_run scope limit (OpCommit m now clock owner session snapshot view_id through pages) v =
     map_option fst (commit_snapshot m now clock v owner session snapshot view_id through pages)"
| "index_run scope limit (OpAbort owner session) v = abort_snapshot v owner session"
| "index_run scope limit (OpDelta now clock owner view_id lo hi records) v =
     map_option fst (apply_delta limit scope now clock v owner view_id lo hi records)"
| "index_run scope limit (OpRetire owner) v = retire_owner v owner"
| "index_run scope limit (OpCleanup owner n) v = map_option fst (cleanup_owner v owner n)"

text \<open>The records of a delta have keys whose charge fits an \<open>isize\<close>, as any two live allocations do.\<close>

fun op_fits :: "index_op \<Rightarrow> bool" where
  "op_fits (OpSnapshotDelta owner session lo hi records) = keys_fit records"
| "op_fits (OpDelta now clock owner view_id lo hi records) = keys_fit records"
| "op_fits _ = True"

lemma index_run_inv:
  assumes "view_inv scope limit v" and "op_fits op"
  shows "\<exists>v'. index_run scope limit op v = Some v' \<and> view_inv scope limit v'"
proof (cases op)
  case OpReset
  then show ?thesis by (simp add: reset_def)
next
  case (OpSetExpected local_owner revision owners)
  then show ?thesis using set_expected_owners_inv [OF assms(1)] by simp
next
  case (OpMarkSyncing owner)
  then show ?thesis using mark_syncing_inv [OF assms(1)] by simp
next
  case (OpMarkStale owner)
  then show ?thesis using mark_syncing_inv [OF assms(1)] by (simp add: mark_stale_def)
next
  case (OpConfirm now owner view_id applied)
  then show ?thesis using confirm_progress_inv [OF assms(1)] by simp
next
  case (OpBegin owner session snapshot view_id start)
  then show ?thesis
    using begin_snapshot_inv [OF assms(1), of owner session snapshot view_id start] by auto
next
  case (OpPage owner session snapshot page records)
  then show ?thesis using apply_snapshot_page_inv [OF assms(1)] by simp
next
  case (OpSnapshotDelta owner session lo hi records)
  then show ?thesis
    using apply_snapshot_delta_inv [OF assms(1) _ prod.collapse [symmetric]] assms(2) by auto
next
  case (OpCommit m now clock owner session snapshot view_id through pages)
  then show ?thesis
    using commit_snapshot_inv [OF assms(1), of m now clock owner session snapshot view_id through pages] by auto
next
  case (OpAbort owner session)
  then show ?thesis using abort_snapshot_inv [OF assms(1)] by simp
next
  case (OpDelta now clock owner view_id lo hi records)
  then show ?thesis
    using apply_delta_inv [OF assms(1), of records now clock owner view_id lo hi] assms(2) by auto
next
  case (OpRetire owner)
  then show ?thesis using retire_owner_inv [OF assms(1)] by simp
next
  case (OpCleanup owner n)
  then show ?thesis using cleanup_owner_inv [OF assms(1), of owner n] by auto
qed

definition index_step :: "inventory_scope \<Rightarrow> nat \<Rightarrow> view \<Rightarrow> view \<Rightarrow> bool" where
  "index_step scope limit v v' \<longleftrightarrow> (\<exists>op. op_fits op \<and> index_run scope limit op v = Some v')"

abbreviation index_reach :: "inventory_scope \<Rightarrow> nat \<Rightarrow> view \<Rightarrow> bool" where
  "index_reach scope limit \<equiv> reach (\<lambda>v. v = view_default) (index_step scope limit)"

interpretation ix: invariant_system "\<lambda>v. v = view_default" "index_step scope limit" "view_inv scope limit"
  for scope limit
proof
  show "view_inv scope limit v" if "v = view_default" for v using that by simp
  show "view_inv scope limit v'" if "view_inv scope limit v" and "index_step scope limit v v'" for v v'
    using index_run_inv [OF that(1)] that(2) unfolding index_step_def by fastforce
qed

end
