(* ===== verification/Index_Properties.thy ===== *)
theory Index_Properties
  imports Index_Invariant
begin

text \<open>
  What the global index promises its clients, as consequences of the invariant: a lookup returns
  current records of live remote owners and hides none below its limit, the coverage it reports is
  exact, and rejected updates leave the view alone. A small run of the index instantiates the
  properties.
\<close>

section \<open>Lookups\<close>

text \<open>The replica an entry stands for, when its owner is a live remote member.\<close>

definition live_replica :: "membership_view \<Rightarrow> instant \<Rightarrow> view \<Rightarrow> entry \<Rightarrow> replica_location option" where
  "live_replica m now v e =
     (case resolve m now (e_owner e) of
        None \<Rightarrow> None
      | Some owner \<Rightarrow>
          if incarnation owner \<noteq> incarnation (mem_owner m)
             \<and> (case map_of (v_owners v) (e_owner e) of None \<Rightarrow> False | Some ov \<Rightarrow> \<not> ov_retired ov)
          then Some \<lparr>loc_owner = owner, loc_sequence = e_sequence e, loc_metadata = e_metadata e\<rparr>
          else None)"

lemma live_replica_eq_Some:
  "live_replica m now v e = Some l \<longleftrightarrow>
     resolve m now (e_owner e) = Some (loc_owner l) \<and>
     incarnation (loc_owner l) \<noteq> incarnation (mem_owner m) \<and>
     (\<exists>ov. map_of (v_owners v) (e_owner e) = Some ov \<and> \<not> ov_retired ov) \<and>
     loc_sequence l = e_sequence e \<and> loc_metadata l = e_metadata e"
  by (cases l) (auto simp: live_replica_def split: option.splits if_splits)

lemma collect_replicas_take:
  assumes "length found < DISCOVERY_MAX_REPLICAS_PER_MEDIUM"
  shows "collect_replicas m now v found es =
    take DISCOVERY_MAX_REPLICAS_PER_MEDIUM (found @ List.map_filter (live_replica m now v) es)"
  using assms
proof (induction es arbitrary: found)
  case Nil
  then show ?case by simp
next
  case (Cons e es)
  have split: "(case resolve m now (e_owner e) of None \<Rightarrow> found
         | Some owner \<Rightarrow>
             if incarnation owner \<noteq> incarnation (mem_owner m)
                \<and> (case map_of (v_owners v) (e_owner e) of None \<Rightarrow> False | Some ov \<Rightarrow> \<not> ov_retired ov)
             then found @ [\<lparr>loc_owner = owner, loc_sequence = e_sequence e, loc_metadata = e_metadata e\<rparr>]
             else found) =
      (case live_replica m now v e of None \<Rightarrow> found | Some l \<Rightarrow> found @ [l])"
    by (auto simp: live_replica_def split: option.splits)
  show ?case
  proof (cases "live_replica m now v e")
    case None
    then show ?thesis unfolding collect_replicas.simps split using Cons by simp
  next
    case (Some l)
    show ?thesis
    proof (cases "length (found @ [l]) = DISCOVERY_MAX_REPLICAS_PER_MEDIUM")
      case True
      then have "take DISCOVERY_MAX_REPLICAS_PER_MEDIUM ((found @ [l]) @ xs) = found @ [l]" for xs
        by (metis append_eq_conv_conj)
      then show ?thesis unfolding collect_replicas.simps split using True Some by simp
    next
      case False
      then have "length (found @ [l]) < DISCOVERY_MAX_REPLICAS_PER_MEDIUM" using Cons.prems by simp
      then show ?thesis unfolding collect_replicas.simps split using False Some Cons.IH by (simp add: take_Cons')
    qed
  qed
qed

lemma lookup_replicas:
  assumes "scope_contains (gi_scope g) (namespace key)"
    and "coverage (gi_view g) (permits (gi_membership g) now (mem_owner (gi_membership g))) \<noteq> Unavailable"
  shows "cand_replicas (lookup_key g now key) =
    concat (map (\<lambda>med. take DISCOVERY_MAX_REPLICAS_PER_MEDIUM
      (List.map_filter (live_replica (gi_membership g) now (gi_view g))
        (filter (\<lambda>e. medium (e_metadata e) = med) (entries (v_blocks (gi_view g)) key)))) [Dram, Ssd])"
  using assms
  by (auto simp: lookup_key_def Let_def entries_def collect_replicas_take DISCOVERY_MAX_REPLICAS_PER_MEDIUM_def
      split: option.splits)

lemma lookup_unavailable:
  "\<not> scope_contains (gi_scope g) (namespace key) \<or>
     coverage (gi_view g) (permits (gi_membership g) now (mem_owner (gi_membership g))) = Unavailable \<Longrightarrow>
   cand_replicas (lookup_key g now key) = []"
  by (auto simp: lookup_key_def Let_def split: option.splits)

text \<open>The replicas a lookup may return: current records of live remote members.\<close>

definition replica_of :: "global_index \<Rightarrow> instant \<Rightarrow> state_key \<Rightarrow> replica_location \<Rightarrow> bool" where
  "replica_of g now key l \<longleftrightarrow>
     (\<exists>inc ov r.
        resolve (gi_membership g) now inc = Some (loc_owner l) \<and>
        incarnation (loc_owner l) \<noteq> incarnation (mem_owner (gi_membership g)) \<and>
        map_of (v_owners (gi_view g)) inc = Some ov \<and> \<not> ov_retired ov \<and>
        map_of (ov_records ov) (key, medium (loc_metadata l)) = Some r \<and>
        rec_sequence r = loc_sequence l \<and> rec_metadata r = Some (loc_metadata l))"

lemma live_replica_Some:
  assumes "view_inv scope limit (gi_view g)"
  shows "(\<exists>e \<in> set (entries (v_blocks (gi_view g)) key). medium (e_metadata e) = med \<and>
      live_replica (gi_membership g) now (gi_view g) e = Some l) \<longleftrightarrow>
    medium (loc_metadata l) = med \<and> replica_of g now key l"
    (is "?lhs \<longleftrightarrow> ?rhs")
proof -
  have blocks: "e \<in> set (entries (v_blocks (gi_view g)) key) \<longleftrightarrow> entry_of (record_at (v_owners (gi_view g))) key e" for e
    using assms by (auto simp: view_inv_def owners_inv_def blocks_ok_def)
  show ?thesis
  proof
    assume ?lhs
    then show ?rhs
      by (fastforce simp: blocks entry_of_def live_replica_eq_Some replica_of_def record_at_def)
  next
    assume ?rhs
    then obtain inc ov r where l: "medium (loc_metadata l) = med" "resolve (gi_membership g) now inc = Some (loc_owner l)"
      "incarnation (loc_owner l) \<noteq> incarnation (mem_owner (gi_membership g))"
      "map_of (v_owners (gi_view g)) inc = Some ov" "\<not> ov_retired ov"
      "map_of (ov_records ov) (key, medium (loc_metadata l)) = Some r"
      "rec_sequence r = loc_sequence l" "rec_metadata r = Some (loc_metadata l)"
      by (auto simp: replica_of_def)
    let ?e = "\<lparr>e_owner = inc, e_sequence = loc_sequence l, e_metadata = loc_metadata l\<rparr>"
    have "?e \<in> set (entries (v_blocks (gi_view g)) key)"
      using l by (simp add: blocks entry_of_def record_at_def)
    moreover have "live_replica (gi_membership g) now (gi_view g) ?e = Some l"
      using l by (simp add: live_replica_eq_Some)
    ultimately show ?lhs using l(1) by (intro bexI [of _ ?e]) simp_all
  qed
qed

definition medium_replicas :: "global_index \<Rightarrow> instant \<Rightarrow> state_key \<Rightarrow> replica_medium \<Rightarrow> replica_location list" where
  "medium_replicas g now key med =
     List.map_filter (live_replica (gi_membership g) now (gi_view g))
       (filter (\<lambda>e. medium (e_metadata e) = med) (entries (v_blocks (gi_view g)) key))"

lemma medium_replicas_set:
  assumes "view_inv scope limit (gi_view g)"
  shows "set (medium_replicas g now key med) = {l. medium (loc_metadata l) = med \<and> replica_of g now key l}"
  using live_replica_Some [OF assms, of key med now]
  by (auto simp: medium_replicas_def List.map_filter_def image_iff)
    (metis (mono_tags, lifting) option.sel)+

lemma filter_take_medium:
  assumes "\<forall>l \<in> set xs. medium (loc_metadata l) = med"
  shows "filter (\<lambda>l. medium (loc_metadata l) = med') (take n xs) = (if med = med' then take n xs else [])"
proof -
  have "\<forall>l \<in> set (take n xs). medium (loc_metadata l) = med" using assms by (meson in_set_takeD)
  then show ?thesis by (auto simp: filter_id_conv filter_empty_conv)
qed

lemma lookup_medium:
  assumes "view_inv scope limit (gi_view g)" and "med \<in> {Dram, Ssd}"
    and "scope_contains (gi_scope g) (namespace key)"
    and "coverage (gi_view g) (permits (gi_membership g) now (mem_owner (gi_membership g))) \<noteq> Unavailable"
  shows "filter (\<lambda>l. medium (loc_metadata l) = med) (cand_replicas (lookup_key g now key)) =
    take DISCOVERY_MAX_REPLICAS_PER_MEDIUM (medium_replicas g now key med)"
proof -
  have "\<forall>l \<in> set (medium_replicas g now key m). medium (loc_metadata l) = m" for m
    using medium_replicas_set [OF assms(1)] by auto
  note f = filter_take_medium [OF this]
  show ?thesis
    using assms(2) unfolding lookup_replicas [OF assms(3,4)] medium_replicas_def [symmetric]
    by (auto simp: f)
qed

section \<open>Coverage\<close>

lemma fresh_count_expected:
  assumes "owners_inv scope v"
  shows "v_fresh_expected_owner_views v =
    length (filter (\<lambda>owner. case map_of (v_owners v) owner of None \<Rightarrow> False
      | Some ov \<Rightarrow> ov_fresh ov \<and> \<not> ov_retired ov) (v_expected v))"
proof -
  have "bt_sum (fresh_count (v_expected v)) (v_owners v) =
      bt_sum (\<lambda>k ov. if (ov_fresh ov \<and> \<not> ov_retired ov) \<and> k \<in> set (v_expected v) then 1 else 0) (v_owners v)"
    by (rule bt_sum_cong) (simp add: fresh_count_def)
  then show ?thesis using assms by (simp add: owners_inv_def count_expected)
qed

lemma admitted_pos:
  assumes "owners_inv scope v"
  shows "0 < v_admitted_owner_views v \<longleftrightarrow> (\<exists>owner ov. map_of (v_owners v) owner = Some ov \<and> \<not> ov_retired ov)"
proof -
  have wf: "bt_wf (v_owners v)" and n: "v_admitted_owner_views v = bt_sum (\<lambda>_. admitted_count) (v_owners v)"
    using assms by (auto simp: owners_inv_def)
  have "0 < bt_sum (\<lambda>_. admitted_count) m \<longleftrightarrow> (\<exists>e \<in> set m. \<not> ov_retired (snd e))" for m :: "(uuid, owner_view) btree"
    by (induction m) (auto simp: admitted_count_def)
  then show ?thesis using n wf by (force simp: in_set_iff_map_of [symmetric])
qed

section \<open>A run of the index\<close>

fun index_run_all :: "inventory_scope \<Rightarrow> nat \<Rightarrow> index_op list \<Rightarrow> view \<Rightarrow> view option" where
  "index_run_all scope limit [] v = Some v"
| "index_run_all scope limit (op # ops) v =
     do { v' \<leftarrow> index_run scope limit op v; index_run_all scope limit ops v' }"

lemma index_run_all_reach:
  "index_reach scope limit v \<Longrightarrow> list_all op_fits ops \<Longrightarrow> index_run_all scope limit ops v = Some v' \<Longrightarrow>
   index_reach scope limit v'"
proof (induction ops arbitrary: v)
  case (Cons op ops)
  then obtain v1 where v1: "index_run scope limit op v = Some v1" "index_run_all scope limit ops v1 = Some v'"
    by (auto simp: bind_eq_Some_conv)
  have "index_step scope limit v v1" unfolding index_step_def using v1(1) Cons.prems(2) by auto
  then have "index_reach scope limit v1" by (rule reach_step [OF Cons.prems(1)])
  then show ?case using Cons.IH v1(2) Cons.prems(2) by simp
qed simp

text \<open>A member (incarnation 9) whose snapshot of one DRAM block is installed at the local member 7.\<close>

definition demo_membership :: membership_view where
  "demo_membership = membership_run (membership_new \<lparr>endpoint = [1], incarnation = 7\<rparr>)
     [(0, Renew 0 1000),
      (1, ReplaceMembers [([], \<lparr>endpoint = [1], incarnation = 7\<rparr>), ([], \<lparr>endpoint = [2], incarnation = 9\<rparr>)])]"

definition demo_metadata :: replica_metadata where
  "demo_metadata = \<lparr>medium = Dram, representation = Raw, stored_bytes = Some 64\<rparr>"

definition demo_record :: inventory_record where
  "demo_record = \<lparr>rec_key = StateKey [5] [6], rec_sequence = 3, rec_present = True,
     rec_metadata = Some demo_metadata\<rparr>"

definition demo_ops :: "index_op list" where
  "demo_ops =
     [OpSetExpected 7 1 [7, 9], OpBegin 9 1 2 3 0, OpPage 9 1 2 0 [demo_record],
      OpSnapshotDelta 9 1 0 3 [], OpCommit demo_membership 10 None 9 1 2 3 3 1]"

definition demo_view :: view where
  "demo_view =
     \<lparr>v_blocks = [StateKey [5] [6] \<mapsto> [\<lparr>e_owner = 9, e_sequence = 3, e_metadata = demo_metadata\<rparr>]],
      v_owners = [(9, \<lparr>ov_view_id = 3, ov_applied_sequence = 3, ov_installed_mono_ns = 0,
                       ov_records = [((StateKey [5] [6], Dram), demo_record)], ov_fresh = True,
                       ov_received_at = 10, ov_retired = False\<rparr>)],
      v_staging = [], v_expected = [9], v_accounted_bytes = 578, v_active_bytes = 578, v_staging_bytes = 0,
      v_membership_revision = Some 1, v_generation = 3, v_admitted_owner_views = 1,
      v_fresh_expected_owner_views = 1\<rparr>"

definition demo_index :: global_index where
  "demo_index = \<lparr>gi_membership = demo_membership, gi_scope = AllNamespaces, gi_view = demo_view,
     gi_byte_limit = 4096\<rparr>"

lemmas index_op_defs = set_expected_owners_def begin_snapshot_def discard_staging_def make_stale_def
  apply_snapshot_page_def validate_page_def validate_record_def apply_snapshot_delta_def validate_delta_def
  over_budget_def checked_add_signed_def commit_snapshot_def remove_active_owner_def insert_block_def
  gain_fresh_def next_generation_def refresh_coverage_counts_def stage_record_def bt_values_def bt_remove_def
  entry_bytes_def OWNER_ACCOUNTING_BYTES_def saturating_add_def checked_add_def monotonic_ns_def Let_def

lemmas membership_op_defs = membership_new_def renew_def replace_members_def instant_add_def resolve_def

lemma demo_run: "index_run_all AllNamespaces 4096 demo_ops view_default = Some demo_view"
  by (simp add: demo_ops_def demo_view_def demo_record_def demo_metadata_def demo_membership_def
      view_default_def index_op_defs membership_op_defs machine_defs)

lemma demo_reach: "index_reach AllNamespaces 4096 demo_view"
  using index_run_all_reach [OF reach_start _ demo_run]
  by (simp add: demo_ops_def keys_fit_def)

lemmas demo_lookup_defs = demo_index_def demo_view_def demo_membership_def demo_metadata_def lookup_key_def
  coverage_def permits_def DISCOVERY_MAX_REPLICAS_PER_MEDIUM_def membership_op_defs machine_defs Let_def

section \<open>Properties\<close>

text \<open>
  C6. From the empty index, whatever sequence of calls is made and whatever the membership and the
  clock do meanwhile, the next call does not panic: no unsigned counter underflows and no \<open>expect\<close>
  fails. The bytes it accounts are exactly the charges of the staged and the installed records and
  never exceed the configured budget.
\<close>

theorem index_never_panics:
  assumes "index_reach scope limit v" and "op_fits op"
  shows "\<exists>v'. index_run scope limit op v = Some v' \<and> v_accounted_bytes v' \<le> limit \<and>
    v_accounted_bytes v' =
      bt_sum (\<lambda>_ ov. OWNER_ACCOUNTING_BYTES + bt_sum (\<lambda>res _. entry_bytes (fst res)) (ov_records ov)) (v_owners v')
      + bt_sum (\<lambda>_ st. OWNER_ACCOUNTING_BYTES + bt_sum (\<lambda>res _. entry_bytes (fst res)) (st_records st)) (v_staging v')"
proof -
  obtain v' where v': "index_run scope limit op v = Some v'" "view_inv scope limit v'"
    using index_run_inv [OF ix.reach_inv [OF assms(1)] assms(2)] by blast
  then have "bt_sum (\<lambda>_ st. st_bytes st) (v_staging v') =
      bt_sum (\<lambda>_ st. OWNER_ACCOUNTING_BYTES + records_bytes (st_records st)) (v_staging v')"
    by (intro bt_sum_cong) (auto simp: view_inv_def staging_inv_def staging_ok_def in_set_iff_map_of)
  then show ?thesis
    using v' by (auto simp: view_inv_def owners_inv_def staging_inv_def records_bytes_def)
qed

theorem index_never_panics_witness:
  "\<exists>v'. index_run AllNamespaces 4096 (OpCleanup 9 1) demo_view = Some v' \<and> v_accounted_bytes v' \<le> 4096"
  using index_never_panics [OF demo_reach, of "OpCleanup 9 1"] by auto

text \<open>
  C12. What a lookup returns is true of the index: every replica is the current record, at its
  sequence and with its metadata, of an installed owner that is not retired, that the membership
  resolves now and that is not the local runtime; there are at most four replicas per medium.
\<close>

theorem lookup_sound:
  assumes "index_reach (gi_scope g) limit (gi_view g)"
  shows "(\<forall>l. l \<in> set (cand_replicas (lookup_key g now key)) \<longrightarrow>
      medium (loc_metadata l) \<in> {Dram, Ssd} \<and> replica_of g now key l) \<and>
    (\<forall>med. length (filter (\<lambda>l. medium (loc_metadata l) = med) (cand_replicas (lookup_key g now key))) \<le> 4)"
proof -
  have inv: "view_inv (gi_scope g) limit (gi_view g)" by (rule ix.reach_inv [OF assms])
  show ?thesis
  proof (cases "\<not> scope_contains (gi_scope g) (namespace key) \<or>
      coverage (gi_view g) (permits (gi_membership g) now (mem_owner (gi_membership g))) = Unavailable")
    case True
    then show ?thesis by (simp add: lookup_unavailable)
  next
    case False
    then have c: "scope_contains (gi_scope g) (namespace key)"
      "coverage (gi_view g) (permits (gi_membership g) now (mem_owner (gi_membership g))) \<noteq> Unavailable"
      by auto
    note eq = lookup_replicas [OF c, folded medium_replicas_def]
    have mem: "medium (loc_metadata l) \<in> {Dram, Ssd} \<and> replica_of g now key l"
      if "l \<in> set (cand_replicas (lookup_key g now key))" for l
      using that medium_replicas_set [OF inv, of now key] unfolding eq by (auto dest!: in_set_takeD)
    have "length (filter (\<lambda>l. medium (loc_metadata l) = med) (cand_replicas (lookup_key g now key))) \<le> 4" for med
    proof (cases "med \<in> {Dram, Ssd}")
      case True
      then show ?thesis
        using lookup_medium [OF inv True c] by (simp add: DISCOVERY_MAX_REPLICAS_PER_MEDIUM_def)
    next
      case False
      then have "filter (\<lambda>l. medium (loc_metadata l) = med) (cand_replicas (lookup_key g now key)) = []"
        using mem by (auto simp: filter_empty_conv)
      then show ?thesis by simp
    qed
    then show ?thesis using mem by blast
  qed
qed

theorem lookup_sound_witness:
  "\<exists>l. set (cand_replicas (lookup_key demo_index 20 (StateKey [5] [6]))) = {l} \<and>
     replica_of demo_index 20 (StateKey [5] [6]) l"
proof -
  have "cand_replicas (lookup_key demo_index 20 (StateKey [5] [6])) =
      [\<lparr>loc_owner = \<lparr>endpoint = [2], incarnation = 9\<rparr>, loc_sequence = 3, loc_metadata = demo_metadata\<rparr>]"
    by (simp add: demo_lookup_defs)
  then show ?thesis
    using lookup_sound [of demo_index 4096 20 "StateKey [5] [6]"] demo_reach by (simp add: demo_index_def)
qed

text \<open>
  C17. A lookup hides nothing below its limit: for a key in scope while discovery is available, if
  fewer than four replicas of a medium come back, they are all the replicas of that medium that
  live remote owners have installed.
\<close>

theorem lookup_complete:
  assumes "index_reach (gi_scope g) limit (gi_view g)" and "med \<in> {Dram, Ssd}"
    and "scope_contains (gi_scope g) (namespace key)"
    and "cand_coverage (lookup_key g now key) \<noteq> Unavailable"
    and "length (filter (\<lambda>l. medium (loc_metadata l) = med) (cand_replicas (lookup_key g now key))) < 4"
  shows "{l \<in> set (cand_replicas (lookup_key g now key)). medium (loc_metadata l) = med} =
    {l. medium (loc_metadata l) = med \<and> replica_of g now key l}"
proof -
  have inv: "view_inv (gi_scope g) limit (gi_view g)" by (rule ix.reach_inv [OF assms(1)])
  have c: "coverage (gi_view g) (permits (gi_membership g) now (mem_owner (gi_membership g))) \<noteq> Unavailable"
    using assms(3,4) by (simp add: lookup_key_def Let_def)
  note eq = lookup_medium [OF inv assms(2,3) c]
  have "take DISCOVERY_MAX_REPLICAS_PER_MEDIUM (medium_replicas g now key med) = medium_replicas g now key med"
    using assms(5) unfolding eq by (simp add: DISCOVERY_MAX_REPLICAS_PER_MEDIUM_def min_def split: if_splits)
  then show ?thesis
    using eq medium_replicas_set [OF inv, of now key med] by (metis set_filter)
qed

theorem lookup_complete_witness:
  "{l \<in> set (cand_replicas (lookup_key demo_index 20 (StateKey [5] [7]))). medium (loc_metadata l) = Ssd} =
   {l. medium (loc_metadata l) = Ssd \<and> replica_of demo_index 20 (StateKey [5] [7]) l}"
proof (rule lookup_complete)
  show "index_reach (gi_scope demo_index) 4096 (gi_view demo_index)"
    using demo_reach by (simp add: demo_index_def)
  show "cand_coverage (lookup_key demo_index 20 (StateKey [5] [7])) \<noteq> Unavailable"
    by (simp add: demo_lookup_defs)
  show "length (filter (\<lambda>l. medium (loc_metadata l) = Ssd)
      (cand_replicas (lookup_key demo_index 20 (StateKey [5] [7])))) < 4"
    by (simp add: demo_lookup_defs)
qed (simp_all add: demo_index_def)

text \<open>
  C20. The coverage a lookup reports says what it names. It is complete exactly when the local
  registration is admitted, a membership revision is known and every expected owner has an
  installed, fresh view that is not retired; otherwise it is partial exactly when some owner that
  is not retired is installed.
\<close>

theorem coverage_exact:
  assumes "index_reach scope limit v"
  shows "(coverage v registered = CompleteAtWatermarks \<longleftrightarrow>
      registered \<and> v_membership_revision v \<noteq> None \<and>
      (\<forall>owner \<in> set (v_expected v). \<exists>ov. map_of (v_owners v) owner = Some ov \<and> ov_fresh ov \<and> \<not> ov_retired ov)) \<and>
    (coverage v registered \<noteq> Unavailable \<longleftrightarrow>
      coverage v registered = CompleteAtWatermarks \<or>
      registered \<and> v_membership_revision v \<noteq> None \<and>
        (\<exists>owner ov. map_of (v_owners v) owner = Some ov \<and> \<not> ov_retired ov))"
proof -
  have inv: "owners_inv scope v" using ix.reach_inv [OF assms] by (simp add: view_inv_def)
  let ?P = "\<lambda>owner. case map_of (v_owners v) owner of None \<Rightarrow> False | Some ov \<Rightarrow> ov_fresh ov \<and> \<not> ov_retired ov"
  have "v_fresh_expected_owner_views v = length (v_expected v) \<longleftrightarrow> (\<forall>owner \<in> set (v_expected v). ?P owner)"
    unfolding fresh_count_expected [OF inv]
    by (metis (no_types, lifting) filter_id_conv length_filter_less order_less_irrefl)
  moreover have "?P owner \<longleftrightarrow> (\<exists>ov. map_of (v_owners v) owner = Some ov \<and> ov_fresh ov \<and> \<not> ov_retired ov)" for owner
    by (auto split: option.splits)
  ultimately show ?thesis using admitted_pos [OF inv] by (auto simp: coverage_def)
qed

theorem coverage_exact_witness:
  "coverage demo_view True = CompleteAtWatermarks \<and>
   (\<exists>ov. map_of (v_owners demo_view) 9 = Some ov \<and> ov_fresh ov \<and> \<not> ov_retired ov)"
  using coverage_exact [OF demo_reach, of True] by (simp add: coverage_def demo_view_def)

text \<open>
  C26. A delta that is not applied changes nothing: whatever error a delta meets, on an installed
  view or on a staged snapshot (an unknown or retired owner, a gap, an overlap, a record out of
  scope or out of its interval, conflicting records, an exhausted budget), the view is left exactly
  as it was. The code updates the records before it updates the byte accounts, so this also says
  that its accounting errors cannot occur.
\<close>

theorem rejected_delta_unchanged:
  assumes "index_reach scope limit v" and "keys_fit records"
  shows "(\<exists>v' res. apply_delta limit scope now clock v owner view_id lo hi records = Some (v', res) \<and>
      (res = Inr Applied \<or> v' = v)) \<and>
    (snd (apply_snapshot_delta limit scope v owner session lo hi records) = Inr () \<or>
     fst (apply_snapshot_delta limit scope v owner session lo hi records) = v)"
proof -
  have inv: "view_inv scope limit v" by (rule ix.reach_inv [OF assms(1)])
  show ?thesis
    using apply_delta_inv [OF inv assms(2), of now clock owner view_id lo hi]
      apply_snapshot_delta_inv [OF inv assms(2) prod.collapse [symmetric], of owner session lo hi]
    by blast
qed

theorem rejected_delta_unchanged_witness:
  "\<exists>v' res. apply_delta 4096 AllNamespaces 30 None demo_view 9 3 4 5 [] = Some (v', res) \<and>
     (res = Inr Applied \<or> v' = demo_view)"
  using rejected_delta_unchanged [OF demo_reach, of "[]" 30 None 9 3 4 5] by (simp add: keys_fit_def)

end
