(* ===== verification/Segment_Codec.thy ===== *)
theory Segment_Codec
  imports State_Identity
begin

text \<open>
  Storage codecs and encoded segments (\<open>orbitkv-core/src/codec/mod.rs\<close>): which storage format a
  configured codec chooses for a registered layer, the geometry of TurboQuant segments, and the
  validation of segment metadata. The checksum function of \<open>crc32fast\<close> is a parameter. \<open>None\<close>
  around a size is the \<open>unreachable!\<close> of the code.
\<close>

datatype storage_codec = CodecNone | CodecAns | CodecFp8 | CodecTurboQuant4 | CodecTurboQuant3

definition codec_from_str :: "string \<Rightarrow> string + storage_codec" where
  "codec_from_str s =
     (if s = ''none'' then Inr CodecNone
      else if s = ''ans'' then Inr CodecAns
      else if s = ''fp8'' then Inr CodecFp8
      else if s = ''turboquant-4'' then Inr CodecTurboQuant4
      else if s = ''turboquant-3'' then Inr CodecTurboQuant3
      else Inl ''storage codec must be none, ans, fp8, turboquant-4 or turboquant-3'')"

text \<open>\<open>u32::is_power_of_two\<close>.\<close>

fun is_power_of_two :: "nat \<Rightarrow> bool" where
  "is_power_of_two n =
     (if n = 0 then False else if n = 1 then True else even n \<and> is_power_of_two (n div 2))"

declare is_power_of_two.simps [simp del]






record encoded_segment =
  es_version :: nat
  es_format :: storage_format
  es_logical_bytes :: nat
  es_stored_bytes :: nat
  es_checksum :: nat

fun vector_bytes :: "nat \<Rightarrow> nat \<Rightarrow> attention_role \<Rightarrow> nat option" where
  "vector_bytes dim bits KeyRole = Some (div_ceil (dim * bits) 8 + 2)"
| "vector_bytes dim bits ValueRole = Some (div_ceil (dim * bits) 8 + 4)"
| "vector_bytes dim bits PackedKeyValue = Some (2 * div_ceil (dim * bits) 8 + 6)"
| "vector_bytes dim bits KeyValue = None"

definition source_width :: "nat \<Rightarrow> attention_role \<Rightarrow> nat" where
  "source_width dim role = dim * (if role = PackedKeyValue then 4 else 2)"

definition turboquant_bytes :: "nat \<Rightarrow> nat \<Rightarrow> nat \<Rightarrow> attention_role \<Rightarrow> nat option option" where
  "turboquant_bytes logical dim bits role =
     (if \<not> (32 \<le> dim \<and> dim \<le> 256) \<or> \<not> is_power_of_two dim \<or> \<not> (bits = 3 \<or> bits = 4) \<or> role = KeyValue
      then Some None
      else if logical = 0 \<or> logical mod source_width dim role \<noteq> 0 then Some None
      else do { n \<leftarrow> vector_bytes dim bits role;
                Some (checked_mul (logical div source_width dim role) n) })"

definition geometry_ok :: "encoded_segment \<Rightarrow> bool option" where
  "geometry_ok e =
     (case es_format e of
        Exact \<Rightarrow> Some (es_logical_bytes e = es_stored_bytes e)
      | Ans \<Rightarrow> Some True
      | AnsFp8 \<Rightarrow> Some True
      | Ans16 \<Rightarrow> Some (es_logical_bytes e mod 2 = 0)
      | Fp8FromBf16 \<Rightarrow> Some (checked_mul (es_stored_bytes e) 2 = Some (es_logical_bytes e))
      | Fp8FromFp16 \<Rightarrow> Some (checked_mul (es_stored_bytes e) 2 = Some (es_logical_bytes e))
      | TurboQuant scalar role head_dim seed bits \<Rightarrow>
          map_option (\<lambda>n. n = Some (es_stored_bytes e))
            (turboquant_bytes (es_logical_bytes e) head_dim bits role)
      | _ \<Rightarrow> Some False)"

definition validate_metadata :: "encoded_segment \<Rightarrow> nat \<Rightarrow> (string + unit) option" where
  "validate_metadata e available =
     (if es_version e \<noteq> 1
         \<or> es_logical_bytes e = 0
         \<or> es_stored_bytes e = 0
         \<or> es_logical_bytes e > isize_max
         \<or> es_stored_bytes e > isize_max
         \<or> es_stored_bytes e > available
         \<or> (es_format e \<noteq> Exact
            \<and> (es_logical_bytes e > 16 * 1024 * 1024 \<or> es_stored_bytes e > 32 * 1024 * 1024))
      then Some (Inl ''invalid encoded segment bounds/version'')
      else do { ok \<leftarrow> geometry_ok e;
                Some (if ok then Inr () else Inl ''invalid encoded segment geometry'') })"

definition segment_validate ::
  "(bytes \<Rightarrow> nat) \<Rightarrow> encoded_segment \<Rightarrow> bytes \<Rightarrow> (string + unit) option" where
  "segment_validate crc32 e bs =
     do { r \<leftarrow> validate_metadata e (length bs);
          case r of
            Inl err \<Rightarrow> Some (Inl err)
          | Inr _ \<Rightarrow>
              if es_stored_bytes e > length bs then None
              else if crc32 (take (es_stored_bytes e) bs) \<noteq> es_checksum e
              then Some (Inl ''encoded segment checksum/size mismatch'')
              else Some (Inr ()) }"


section \<open>Lemmas\<close>

lemma is_power_of_two_iff: "is_power_of_two n \<longleftrightarrow> (\<exists>k. n = 2 ^ k)"
proof (induction n rule: less_induct)
  case (less n)
  show ?case
  proof (cases "n \<le> 1")
    case True
    then show ?thesis by (cases n) (auto simp: is_power_of_two.simps intro: exI [of _ 0])
  next
    case False
    have "is_power_of_two n \<longleftrightarrow> even n \<and> (\<exists>k. n div 2 = 2 ^ k)"
      using False less.IH [of "n div 2"] is_power_of_two.simps [of n] by auto
    also have "\<dots> \<longleftrightarrow> (\<exists>k. n = 2 ^ k)"
    proof
      assume "even n \<and> (\<exists>k. n div 2 = 2 ^ k)"
      then obtain k where "even n" "n div 2 = 2 ^ k" by blast
      then have "n = 2 ^ Suc k" by auto
      then show "\<exists>k. n = 2 ^ k" by blast
    next
      assume "\<exists>k. n = 2 ^ k"
      then obtain k where "n = 2 ^ k" by blast
      moreover then obtain j where "k = Suc j" using False by (cases k) auto
      ultimately show "even n \<and> (\<exists>k. n div 2 = 2 ^ k)" by auto
    qed
    finally show ?thesis .
  qed
qed





section \<open>Properties\<close>




end
