(* ===== verification/Ssd_Ring.thy ===== *)
theory Ssd_Ring
  imports Segment_Codec "HOL-Library.Sublist"
begin

text \<open>
  The SSD ring buffer (\<open>orbitkv-core/src/storage/ssd/index.rs\<close>, \<open>metadata.rs\<close>, and the leases of
  \<open>ssd/mod.rs\<close>): sharded logical rings over cache files, two-phase commit of entries, FIFO
  eviction that never touches an entry that is being written or read.

  \<^item> \<open>readers: Arc<AtomicUsize>\<close> is shared by every clone of an entry, so it is the address of a
    cell in an explicit store of counters (\<open>rb_cells\<close>); reserving an entry allocates a cell.
  \<^item> The map of entries is never iterated: a partial function.
  \<^item> \<open>None\<close> of \<open>new_sharded\<close> and \<open>aligned_shard_capacity\<close> is a panic (the failed assertion, the
    division by zero).
  \<^item> Logging and metrics are left out.
\<close>

section \<open>Data\<close>

record slot_meta =
  sm_segment_sizes :: "nat list"
  sm_total_size :: nat
  sm_numa_node :: nat
  sm_encoding :: "encoded_segment list option"

definition slot_meta_new :: "nat list \<Rightarrow> nat \<Rightarrow> slot_meta" where
  "slot_meta_new sizes numa =
     \<lparr>sm_segment_sizes = sizes, sm_total_size = sum_list sizes, sm_numa_node = numa, sm_encoding = None\<rparr>"

definition num_segments :: "slot_meta \<Rightarrow> nat" where
  "num_segments m = length (sm_segment_sizes m)"

datatype ssd_encoding = RawPayload | EncodedPayload

record ssd_entry =
  se_shard_id :: nat
  se_begin :: nat
  se_len :: nat
  se_file_offset :: nat
  se_slots :: "slot_meta list"
  se_encoding :: ssd_encoding
  se_readers :: nat

text \<open>The representation of a sequence of parts: the common one, or \<open>Mixed\<close>.\<close>

fun merge_representation ::
  "replica_representation option \<Rightarrow> replica_representation list \<Rightarrow> replica_representation option" where
  "merge_representation acc [] = acc"
| "merge_representation acc (r # rs) =
     merge_representation
       (Some (case acc of None \<Rightarrow> r | Some previous \<Rightarrow> if previous = r then previous else Mixed)) rs"

definition unwrap_representation :: "replica_representation option \<Rightarrow> replica_representation" where
  "unwrap_representation r = (case r of None \<Rightarrow> UnknownRepresentation | Some x \<Rightarrow> x)"

definition slot_representation :: "slot_meta \<Rightarrow> replica_representation" where
  "slot_representation slot =
     (case sm_encoding slot of
        None \<Rightarrow> Raw
      | Some segments \<Rightarrow>
          unwrap_representation
            (merge_representation None (map (\<lambda>s. representation_of (es_format s)) segments)))"

definition entry_metadata :: "ssd_entry \<Rightarrow> replica_metadata" where
  "entry_metadata e =
     \<lparr>medium = Ssd,
      representation = unwrap_representation (merge_representation None (map slot_representation (se_slots e))),
      stored_bytes = Some (fold (\<lambda>slot acc. saturating_add acc (sm_total_size slot)) (se_slots e) 0)\<rparr>"

definition CUFILE_ALIGNMENT :: nat where
  "CUFILE_ALIGNMENT = 4096"

definition fits_gpu_decode :: "ssd_entry \<Rightarrow> nat \<Rightarrow> bool" where
  "fits_gpu_decode e budget =
     list_all (\<lambda>meta.
       case checked_next_multiple_of (es_stored_bytes meta) CUFILE_ALIGNMENT of
         None \<Rightarrow> False
       | Some n \<Rightarrow> (case checked_add n 8192 of None \<Rightarrow> False | Some m \<Rightarrow> m \<le> budget))
       (concat (List.map_filter sm_encoding (se_slots e)))"

datatype ssd_state = Writing ssd_entry | Committed ssd_entry | Invalid ssd_entry

fun state_entry :: "ssd_state \<Rightarrow> ssd_entry" where
  "state_entry (Writing e) = e"
| "state_entry (Committed e) = e"
| "state_entry (Invalid e) = e"

record ssd_shard =
  sh_capacity :: nat
  sh_head :: nat
  sh_tail :: nat
  sh_order :: "(state_key \<times> nat) list"

record ssd_ring =
  rb_shards :: "ssd_shard list"
  rb_next_shard :: nat
  rb_alignment :: nat
  rb_entries :: "state_key \<rightharpoonup> ssd_state"
  rb_retired :: "state_key list"
  rb_cells :: "nat \<Rightarrow> nat"
  rb_next_cell :: nat

definition new_sharded :: "nat list \<Rightarrow> nat \<Rightarrow> ssd_ring option" where
  "new_sharded capacities alignment =
     (if capacities = [] then None
      else Some
        \<lparr>rb_shards = map (\<lambda>c. \<lparr>sh_capacity = c, sh_head = 0, sh_tail = 0, sh_order = []\<rparr>) capacities,
         rb_next_shard = 0, rb_alignment = alignment, rb_entries = Map.empty, rb_retired = [],
         rb_cells = (\<lambda>_. 0), rb_next_cell = 0\<rparr>)"

definition aligned_shard_capacity :: "nat \<Rightarrow> nat \<Rightarrow> nat \<Rightarrow> (string + nat) option" where
  "aligned_shard_capacity capacity_bytes shard_count alignment =
     (if shard_count = 0 then Some (Inl ''SSD cache requires at least one shard'')
      else if alignment = 0 then None
      else
        (let capacity = capacity_bytes div shard_count div alignment * alignment in
         if capacity = 0 then Some (Inl ''SSD cache capacity is too small for the requested shard count'')
         else Some (Inr capacity)))"

section \<open>Operations\<close>

definition is_offset_valid :: "ssd_ring \<Rightarrow> ssd_entry \<Rightarrow> bool" where
  "is_offset_valid r e =
     (if se_shard_id e < length (rb_shards r)
      then se_begin e \<ge> sh_tail (rb_shards r ! se_shard_id e) else False)"

definition ring_get :: "ssd_ring \<Rightarrow> state_key \<Rightarrow> ssd_entry option" where
  "ring_get r key =
     (case rb_entries r key of
        Some (Committed e) \<Rightarrow> if is_offset_valid r e then Some e else None
      | _ \<Rightarrow> None)"

definition same_generation :: "ssd_entry \<Rightarrow> ssd_entry \<Rightarrow> bool" where
  "same_generation e f \<longleftrightarrow> se_shard_id e = se_shard_id f \<and> se_begin e = se_begin f"

definition invalidate_encoded :: "ssd_ring \<Rightarrow> state_key \<Rightarrow> ssd_entry \<Rightarrow> ssd_ring \<times> bool" where
  "invalidate_encoded r key failed =
     (if (case rb_entries r key of
            Some (Committed e) \<Rightarrow> same_generation e failed \<and> se_encoding e = EncodedPayload
          | Some (Invalid e) \<Rightarrow> same_generation e failed \<and> se_encoding e = EncodedPayload
          | _ \<Rightarrow> False)
      then
        (if rb_cells r (se_readers failed) = 0
         then (r\<lparr>rb_entries := (rb_entries r)(key := None)\<rparr>, True)
         else (r\<lparr>rb_entries := (rb_entries r)(key \<mapsto> Invalid failed)\<rparr>, True))
      else (r, False))"

definition release_invalid :: "ssd_ring \<Rightarrow> state_key \<Rightarrow> ssd_entry \<Rightarrow> ssd_ring" where
  "release_invalid r key released =
     (if (case rb_entries r key of
            Some (Invalid e) \<Rightarrow> same_generation e released \<and> rb_cells r (se_readers e) = 0
          | _ \<Rightarrow> False)
      then r\<lparr>rb_entries := (rb_entries r)(key := None)\<rparr> else r)"

text \<open>The entry an order item stands for, if the item is still its current generation.\<close>

definition current_state ::
  "(state_key \<rightharpoonup> ssd_state) \<Rightarrow> nat \<Rightarrow> state_key \<times> nat \<Rightarrow> ssd_state option" where
  "current_state es shard item =
     (case es (fst item) of
        None \<Rightarrow> None
      | Some st \<Rightarrow>
          if se_shard_id (state_entry st) = shard \<and> se_begin (state_entry st) = snd item
          then Some st else None)"

definition is_writing :: "ssd_state \<Rightarrow> bool" where
  "is_writing st = (case st of Writing _ \<Rightarrow> True | _ \<Rightarrow> False)"

fun blocked ::
  "(state_key \<rightharpoonup> ssd_state) \<Rightarrow> (nat \<Rightarrow> nat) \<Rightarrow> nat \<Rightarrow> nat \<Rightarrow> (state_key \<times> nat) list \<Rightarrow> bool" where
  "blocked es cells shard new_tail [] = False"
| "blocked es cells shard new_tail (item # order) =
     (case current_state es shard item of
        None \<Rightarrow> blocked es cells shard new_tail order
      | Some st \<Rightarrow>
          if se_begin (state_entry st) \<ge> new_tail then False
          else if is_writing st \<or> cells (se_readers (state_entry st)) \<noteq> 0 then True
          else blocked es cells shard new_tail order)"

fun prune ::
  "(state_key \<rightharpoonup> ssd_state) \<Rightarrow> state_key list \<Rightarrow> nat \<Rightarrow> nat \<Rightarrow> (state_key \<times> nat) list \<Rightarrow>
   (state_key \<times> nat) list \<times> (state_key \<rightharpoonup> ssd_state) \<times> state_key list" where
  "prune es retired shard new_tail [] = ([], es, retired)"
| "prune es retired shard new_tail (item # order) =
     (case current_state es shard item of
        Some _ \<Rightarrow>
          if snd item \<ge> new_tail then (item # order, es, retired)
          else prune (es(fst item := None)) (retired @ [fst item]) shard new_tail order
      | None \<Rightarrow> prune es retired shard new_tail order)"

definition advance_tail :: "ssd_ring \<Rightarrow> nat \<Rightarrow> nat \<Rightarrow> ssd_ring" where
  "advance_tail r shard new_tail =
     (let s = rb_shards r ! shard in
      if new_tail \<le> sh_tail s then r
      else
        (case prune (rb_entries r) (rb_retired r) shard new_tail (sh_order s) of
           (order, es, retired) \<Rightarrow>
             r\<lparr>rb_shards := (rb_shards r)[shard := s\<lparr>sh_tail := new_tail, sh_order := order\<rparr>],
               rb_entries := es, rb_retired := retired\<rparr>))"

definition allocate_contiguous :: "ssd_ring \<Rightarrow> nat \<Rightarrow> nat \<Rightarrow> (ssd_ring \<times> nat \<times> nat) option" where
  "allocate_contiguous r shard bytes =
     (let s = rb_shards r ! shard in
      if bytes = 0 \<or> bytes > sh_capacity s then None
      else
        (let phys = sh_head s mod sh_capacity s;
             space_until_end = sh_capacity s - phys
         in do {
           start \<leftarrow> (if bytes > space_until_end then checked_add (sh_head s) space_until_end
                     else Some (sh_head s));
           head \<leftarrow> checked_add start bytes;
           let new_tail = head - sh_capacity s;
           if blocked (rb_entries r) (rb_cells r) shard new_tail (sh_order s) then None
           else Some (advance_tail (r\<lparr>rb_shards := (rb_shards r)[shard := s\<lparr>sh_head := head\<rparr>]\<rparr>) shard new_tail,
                      start, start mod sh_capacity s) }))"

definition take_retired :: "ssd_ring \<Rightarrow> ssd_ring \<times> state_key list" where
  "take_retired r = (r\<lparr>rb_retired := []\<rparr>, rb_retired r)"

definition ring_commit :: "ssd_ring \<Rightarrow> state_key \<Rightarrow> bool \<Rightarrow> ssd_ring \<times> bool" where
  "ring_commit r key success =
     (case rb_entries r key of
        None \<Rightarrow> (r, False)
      | Some (Committed _) \<Rightarrow> (r, True)
      | Some (Invalid _) \<Rightarrow> (r, False)
      | Some (Writing e) \<Rightarrow>
          if \<not> is_offset_valid r e then (r\<lparr>rb_entries := (rb_entries r)(key := None)\<rparr>, False)
          else if success then (r\<lparr>rb_entries := (rb_entries r)(key \<mapsto> Committed e)\<rparr>, True)
          else (r\<lparr>rb_entries := (rb_entries r)(key := None)\<rparr>, False))"

fun sum_sizes :: "nat \<Rightarrow> slot_meta list \<Rightarrow> nat option" where
  "sum_sizes acc [] = Some acc"
| "sum_sizes acc (slot # slots) =
     do { t \<leftarrow> checked_add acc (sm_total_size slot); sum_sizes t slots }"

fun first_shard :: "ssd_ring \<Rightarrow> nat \<Rightarrow> nat list \<Rightarrow> (nat \<times> ssd_ring \<times> nat \<times> nat) option" where
  "first_shard r bytes [] = None"
| "first_shard r bytes (offset # offsets) =
     (let shard = (rb_next_shard r + offset) mod length (rb_shards r) in
      case allocate_contiguous r shard bytes of
        Some res \<Rightarrow> Some (shard, res)
      | None \<Rightarrow> first_shard r bytes offsets)"

definition ring_reserve ::
  "ssd_ring \<Rightarrow> state_key \<Rightarrow> slot_meta list \<Rightarrow> ssd_encoding \<Rightarrow> (ssd_ring \<times> ssd_entry) option" where
  "ring_reserve r key slots encoding =
     (if rb_entries r key \<noteq> None then None
      else do {
        payload \<leftarrow> sum_sizes 0 slots;
        bytes \<leftarrow> checked_next_multiple_of payload (rb_alignment r);
        (shard, r1, start, file_offset) \<leftarrow> first_shard r bytes [0..<length (rb_shards r)];
        let e = \<lparr>se_shard_id = shard, se_begin = start, se_len = bytes, se_file_offset = file_offset,
                 se_slots = slots, se_encoding = encoding, se_readers = rb_next_cell r\<rparr>;
        let s = rb_shards r1 ! shard;
        Some (r1\<lparr>rb_next_shard := (shard + 1) mod length (rb_shards r1),
                 rb_entries := (rb_entries r1)(key \<mapsto> Writing e),
                 rb_shards := (rb_shards r1)[shard := s\<lparr>sh_order := sh_order s @ [(key, start)]\<rparr>],
                 rb_cells := (rb_cells r1)(rb_next_cell r := 0),
                 rb_next_cell := rb_next_cell r + 1\<rparr>, e) })"

section \<open>Leases\<close>

definition pin :: "ssd_ring \<Rightarrow> state_key \<Rightarrow> ssd_entry \<Rightarrow> (ssd_ring \<times> ssd_entry) option" where
  "pin r key candidate =
     do { current \<leftarrow> ring_get r key;
          if se_readers current \<noteq> se_readers candidate then None
          else Some (r\<lparr>rb_cells := (rb_cells r)(se_readers current := rb_cells r (se_readers current) + 1)\<rparr>,
                     current) }"

text \<open>
  The drop of a lease: the counter is decremented without the lock; the last one then takes the lock
  and calls \<open>release_invalid\<close>. The result says whether that call follows.
\<close>

definition drop_lease :: "ssd_ring \<Rightarrow> ssd_entry \<Rightarrow> ssd_ring \<times> bool" where
  "drop_lease r e =
     (r\<lparr>rb_cells := (rb_cells r)(se_readers e := rb_cells r (se_readers e) - 1)\<rparr>,
      rb_cells r (se_readers e) = 1)"

section \<open>Eviction\<close>

text \<open>The entries an advance of the tail of a shard removes: its current items below the new tail.\<close>

definition evicts ::
  "(state_key \<rightharpoonup> ssd_state) \<Rightarrow> nat \<Rightarrow> nat \<Rightarrow> (state_key \<times> nat) list \<Rightarrow> state_key \<Rightarrow> bool" where
  "evicts es shard new_tail order k \<longleftrightarrow>
     (\<exists>st. es k = Some st \<and> se_shard_id (state_entry st) = shard \<and>
           (k, se_begin (state_entry st)) \<in> set order \<and> se_begin (state_entry st) < new_tail)"

lemma current_state_Some:
  "current_state es shard (k, g) = Some st \<longleftrightarrow>
     es k = Some st \<and> se_shard_id (state_entry st) = shard \<and> se_begin (state_entry st) = g"
  by (auto simp: current_state_def split: option.splits)

lemma evicts_Nil [simp]: "\<not> evicts es shard nt [] k"
  by (simp add: evicts_def)

lemma evicts_Cons:
  "evicts es shard nt ((k', g) # order) k \<longleftrightarrow>
     (k' = k \<and> g < nt \<and> current_state es shard (k', g) \<noteq> None) \<or> evicts es shard nt order k"
  by (auto simp: evicts_def current_state_Some)

lemma evicts_above:
  assumes "\<forall>x\<in>set order. nt \<le> snd x"
  shows "\<not> evicts es shard nt order k"
proof
  assume "evicts es shard nt order k"
  then obtain g where "(k, g) \<in> set order" "g < nt" by (auto simp: evicts_def)
  then show False using assms by fastforce
qed

lemma evicts_upd:
  assumes "current_state es shard (k', g) \<noteq> None" and "\<forall>x\<in>set order. g < snd x"
  shows "evicts (es(k' := None)) shard nt order k \<longleftrightarrow> k \<noteq> k' \<and> evicts es shard nt order k"
  using assms by (auto simp: evicts_def)

lemma evicts_current:
  assumes "current_state es shard (k', g) \<noteq> None" and "\<forall>x\<in>set order. g < snd x"
  shows "\<not> evicts es shard nt order k'"
  using assms by (fastforce simp: evicts_def current_state_Some)

lemma prune_entries:
  assumes "sorted_wrt (<) (map snd order)"
  shows "fst (snd (prune es retired shard nt order)) k =
    (if evicts es shard nt order k then None else es k)"
  using assms
proof (induction es retired shard nt order rule: prune.induct)
  case (2 es retired shard nt item order)
  obtain k' g where item: "item = (k', g)" by (cases item)
  have above: "\<forall>x\<in>set order. g < snd x" using "2.prems" by (auto simp: item)
  show ?case
  proof (cases "current_state es shard item")
    case None
    then show ?thesis using 2 by (simp add: item evicts_Cons)
  next
    case (Some st)
    then have cur: "current_state es shard (k', g) \<noteq> None" by (simp add: item)
    show ?thesis
    proof (cases "nt \<le> g")
      case True
      then have "\<not> evicts es shard nt (item # order) k" using above
        by (intro evicts_above) (auto simp: item)
      then show ?thesis using Some True by (simp add: item)
    next
      case False
      then have "fst (snd (prune es retired shard nt (item # order))) k =
        (if evicts (es(k' := None)) shard nt order k then None else (es(k' := None)) k)"
        using 2(2) [OF Some] "2.prems" Some by (simp add: item del: fun_upd_apply)
      then show ?thesis using evicts_upd [OF cur above, of nt k] False cur
        by (auto simp: item evicts_Cons simp del: fun_upd_apply) (auto simp: evicts_def)
    qed
  qed
qed simp

lemma prune_suffix: "suffix (fst (prune es retired shard nt order)) order"
  by (induction es retired shard nt order rule: prune.induct)
    (auto intro: suffix_ConsI split: option.splits simp del: fun_upd_apply)

lemma prune_stays:
  "fst (snd (prune es retired shard nt order)) k = Some st \<Longrightarrow> es k = Some st"
  by (induction es retired shard nt order rule: prune.induct)
    (auto split: option.splits if_splits)

lemma prune_keeps:
  assumes "(k, g) \<in> set order" and "fst (snd (prune es retired shard nt order)) k = Some st"
    and "se_shard_id (state_entry st) = shard" and "se_begin (state_entry st) = g"
  shows "(k, g) \<in> set (fst (prune es retired shard nt order))"
  using assms
proof (induction es retired shard nt order rule: prune.induct)
  case (2 es retired shard nt item order)
  show ?case
  proof (cases "current_state es shard item")
    case None
    have "es k = Some st" using "2.prems"(2) by (rule prune_stays)
    then have "item \<noteq> (k, g)" using None "2.prems" by (auto simp: current_state_def)
    then show ?thesis using None 2(1) [OF None] "2.prems" by simp
  next
    case (Some st')
    show ?thesis
    proof (cases "nt \<le> snd item")
      case False
      then have eq: "prune es retired shard nt (item # order) =
          prune (es(fst item := None)) (retired @ [fst item]) shard nt order"
        using Some by (simp del: fun_upd_apply)
      have "(es(fst item := None)) k = Some st" using "2.prems"(2) unfolding eq by (rule prune_stays)
      then have "item \<noteq> (k, g)" by (auto split: if_splits)
      then show ?thesis using 2(2) [OF Some] False "2.prems" unfolding eq by (auto simp del: fun_upd_apply)
    qed (use Some "2.prems" in simp)
  qed
qed simp

lemma prune_retired:
  assumes "sorted_wrt (<) (map snd order)"
  shows "set (snd (snd (prune es retired shard nt order))) =
    set retired \<union> {k. evicts es shard nt order k}"
  using assms
proof (induction es retired shard nt order rule: prune.induct)
  case (2 es retired shard nt item order)
  obtain k' g where item: "item = (k', g)" by (cases item)
  have above: "\<forall>x\<in>set order. g < snd x" using "2.prems" by (auto simp: item)
  show ?case
  proof (cases "current_state es shard item")
    case None
    then show ?thesis using 2(1) [OF None] "2.prems" by (simp add: item evicts_Cons)
  next
    case (Some st)
    then have cur: "current_state es shard (k', g) \<noteq> None" by (simp add: item)
    show ?thesis
    proof (cases "nt \<le> g")
      case True
      then have "\<not> evicts es shard nt (item # order) k" for k using above
        by (intro evicts_above) (auto simp: item)
      then show ?thesis using Some True by (simp add: item)
    next
      case False
      then show ?thesis
        using 2(2) [OF Some] "2.prems" Some cur evicts_upd [OF cur above] evicts_current [OF cur above]
        by (auto simp: item evicts_Cons simp del: fun_upd_apply)
    qed
  qed
qed auto

text \<open>What the scan before an allocation promises: nothing that is written or read is evicted.\<close>

lemma blocked_evicts:
  assumes "sorted_wrt (<) (map snd order)" and "\<not> blocked es cells shard nt order"
    and "evicts es shard nt order k" and "es k = Some st"
  shows "\<not> is_writing st" and "cells (se_readers (state_entry st)) = 0"
proof -
  have "\<not> is_writing st \<and> cells (se_readers (state_entry st)) = 0"
    using assms
  proof (induction order)
    case (Cons item order)
    obtain k' g where item: "item = (k', g)" by (cases item)
    show ?case
    proof (cases "current_state es shard item")
      case None
      then show ?thesis using Cons by (auto simp: item evicts_Cons)
    next
      case (Some st')
      then have st': "es k' = Some st'" "se_begin (state_entry st') = g"
        by (auto simp: item current_state_Some)
      have "\<not> nt \<le> g"
        using Cons.prems(1,3) evicts_above [of "item # order" nt es shard k] by (fastforce simp: item)
      then show ?thesis using Cons Some st' by (auto simp: item evicts_Cons split: if_splits)
    qed
  qed simp
  then show "\<not> is_writing st" and "cells (se_readers (state_entry st)) = 0" by simp_all
qed

section \<open>The invariant\<close>

text \<open>
  \<open>issued\<close> collects every entry a reservation ever returned: the clones that leases, candidates and
  writers may still hold.
\<close>

type_synonym ring_state = "ssd_ring \<times> ssd_entry list"

definition shard_ok :: "nat \<Rightarrow> ssd_shard \<Rightarrow> bool" where
  "shard_ok a s \<longleftrightarrow> sh_tail s = sh_head s - sh_capacity s \<and> a dvd sh_capacity s \<and> a dvd sh_head s \<and>
     sorted_wrt (<) (map snd (sh_order s)) \<and> (\<forall>x\<in>set (sh_order s). snd x < sh_head s)"

text \<open>The extent of an issued entry: inside the file, in one piece, aligned.\<close>

definition extent_ok :: "nat \<Rightarrow> ssd_shard \<Rightarrow> ssd_entry \<Rightarrow> bool" where
  "extent_ok a s e \<longleftrightarrow> 0 < se_len e \<and> se_begin e + se_len e \<le> sh_head s \<and>
     se_file_offset e = se_begin e mod sh_capacity s \<and> se_file_offset e + se_len e \<le> sh_capacity s \<and>
     a dvd se_file_offset e \<and> a dvd se_len e"

text \<open>Two issued entries are the same one, or differ in their counters and are logically disjoint.\<close>

definition apart :: "ssd_entry \<Rightarrow> ssd_entry \<Rightarrow> bool" where
  "apart e f \<longleftrightarrow> e = f \<or>
     (se_readers e \<noteq> se_readers f \<and>
      (se_shard_id e = se_shard_id f \<longrightarrow>
        se_begin e + se_len e \<le> se_begin f \<or> se_begin f + se_len f \<le> se_begin e))"

definition issued_ok :: "ssd_ring \<Rightarrow> ssd_entry list \<Rightarrow> bool" where
  "issued_ok r issued \<longleftrightarrow>
     (\<forall>e\<in>set issued. se_shard_id e < length (rb_shards r) \<and> se_readers e < rb_next_cell r \<and>
        extent_ok (rb_alignment r) (rb_shards r ! se_shard_id e) e) \<and>
     (\<forall>e\<in>set issued. \<forall>f\<in>set issued. apart e f)"

text \<open>An entry of the index: issued, above the tail, in the order of its shard, and while it is
  being written without readers.\<close>

definition live_ok :: "ssd_ring \<Rightarrow> ssd_entry list \<Rightarrow> state_key \<Rightarrow> ssd_state \<Rightarrow> bool" where
  "live_ok r issued k st \<longleftrightarrow>
     (let e = state_entry st; s = rb_shards r ! se_shard_id e in
      e \<in> set issued \<and> sh_tail s \<le> se_begin e \<and> (k, se_begin e) \<in> set (sh_order s) \<and>
      (is_writing st \<longrightarrow> rb_cells r (se_readers e) = 0))"

definition is_live :: "ssd_ring \<Rightarrow> ssd_entry \<Rightarrow> bool" where
  "is_live r e \<longleftrightarrow> (\<exists>k st. rb_entries r k = Some st \<and> state_entry st = e)"

definition ring_inv :: "ring_state \<Rightarrow> bool" where
  "ring_inv x \<longleftrightarrow>
     (case x of (r, issued) \<Rightarrow>
        (\<forall>s\<in>set (rb_shards r). shard_ok (rb_alignment r) s) \<and> issued_ok r issued \<and>
        (\<forall>k st. rb_entries r k = Some st \<longrightarrow> live_ok r issued k st) \<and>
        (\<forall>e\<in>set issued. 0 < rb_cells r (se_readers e) \<longrightarrow> is_live r e))"

text \<open>The steps of the ring: its operations, with the entries their callers can hold.\<close>

inductive ring_step :: "ring_state \<Rightarrow> ring_state \<Rightarrow> bool" where
  step_reserve: "ring_reserve r k slots enc = Some (r', e) \<Longrightarrow> ring_step (r, issued) (r', e # issued)"
| step_commit: "ring_step (r, issued) (fst (ring_commit r k success), issued)"
| step_invalidate: "f \<in> set issued \<Longrightarrow> ring_step (r, issued) (fst (invalidate_encoded r k f), issued)"
| step_release: "f \<in> set issued \<Longrightarrow> ring_step (r, issued) (release_invalid r k f, issued)"
| step_pin: "f \<in> set issued \<Longrightarrow> pin r k f = Some (r', e) \<Longrightarrow> ring_step (r, issued) (r', issued)"
| step_drop: "f \<in> set issued \<Longrightarrow> 0 < rb_cells r (se_readers f) \<Longrightarrow>
    ring_step (r, issued) (fst (drop_lease r f), issued)"
| step_retired: "ring_step (r, issued) (fst (take_retired r), issued)"

definition ring_start :: "ring_state \<Rightarrow> bool" where
  "ring_start x \<longleftrightarrow>
     (\<exists>capacities a. new_sharded capacities a = Some (fst x) \<and> (\<forall>c\<in>set capacities. a dvd c) \<and> snd x = [])"

lemma ring_invI:
  assumes "\<And>s. s \<in> set (rb_shards r) \<Longrightarrow> shard_ok (rb_alignment r) s" and "issued_ok r issued"
    and "\<And>k st. rb_entries r k = Some st \<Longrightarrow> live_ok r issued k st"
    and "\<And>e. e \<in> set issued \<Longrightarrow> 0 < rb_cells r (se_readers e) \<Longrightarrow> is_live r e"
  shows "ring_inv (r, issued)"
  using assms by (simp add: ring_inv_def)

lemma ring_invD:
  assumes "ring_inv (r, issued)"
  shows "s \<in> set (rb_shards r) \<Longrightarrow> shard_ok (rb_alignment r) s" and "issued_ok r issued"
    and "rb_entries r k = Some st \<Longrightarrow> live_ok r issued k st"
    and "e \<in> set issued \<Longrightarrow> 0 < rb_cells r (se_readers e) \<Longrightarrow> is_live r e"
  using assms by (auto simp: ring_inv_def)

lemma issuedD:
  assumes "issued_ok r issued" and "e \<in> set issued"
  shows "se_shard_id e < length (rb_shards r)" and "se_readers e < rb_next_cell r"
    and "extent_ok (rb_alignment r) (rb_shards r ! se_shard_id e) e"
    and "f \<in> set issued \<Longrightarrow> apart e f"
  using assms by (auto simp: issued_ok_def)

lemma issued_same_generation:
  assumes "issued_ok r issued" and "e \<in> set issued" and "f \<in> set issued" and "same_generation e f"
  shows "e = f"
proof -
  have "0 < se_len e" "0 < se_len f"
    using issuedD(3) [OF assms(1,2)] issuedD(3) [OF assms(1,3)] by (simp_all add: extent_ok_def)
  then show ?thesis
    using issuedD(4) [OF assms(1-3)] assms(4) by (auto simp: apart_def same_generation_def)
qed

lemma issued_same_readers:
  assumes "issued_ok r issued" and "e \<in> set issued" and "f \<in> set issued" and "se_readers e = se_readers f"
  shows "e = f"
  using issuedD(4) [OF assms(1-3)] assms(4) by (simp add: apart_def)

lemma live_unique:
  assumes "ring_inv (r, issued)" and "rb_entries r k = Some st" and "rb_entries r k' = Some st'"
    and "state_entry st = state_entry st'"
  shows "k = k'"
proof -
  let ?e = "state_entry st" let ?s = "rb_shards r ! se_shard_id (state_entry st)"
  have l: "?e \<in> set issued" "(k, se_begin ?e) \<in> set (sh_order ?s)" "(k', se_begin ?e) \<in> set (sh_order ?s)"
    using ring_invD(3) [OF assms(1,2)] ring_invD(3) [OF assms(1,3)] assms(4)
    by (auto simp: live_ok_def Let_def)
  then have "shard_ok (rb_alignment r) ?s"
    using ring_invD(1) [OF assms(1)] issuedD(1) [OF ring_invD(2) [OF assms(1)]] by auto
  then have "distinct (map snd (sh_order ?s))" by (auto simp: shard_ok_def strict_sorted_iff)
  then show ?thesis using l(2,3) by (metis distinct_map fst_conv inj_onD snd_conv)
qed

section \<open>The invariant is kept\<close>

lemma is_live_upd:
  assumes "is_live r e" and "rb_entries r key = Some st" and "e \<noteq> state_entry st"
    and "rb_entries r' = (rb_entries r)(key := x)"
  shows "is_live r' e"
  using assms unfolding is_live_def by (metis fun_upd_other option.inject)

lemma frame_simps [simp]:
  "issued_ok (r\<lparr>rb_entries := es\<rparr>) issued = issued_ok r issued"
  "issued_ok (r\<lparr>rb_cells := cells\<rparr>) issued = issued_ok r issued"
  "issued_ok (r\<lparr>rb_retired := rt\<rparr>) issued = issued_ok r issued"
  "live_ok (r\<lparr>rb_entries := es\<rparr>) issued k st = live_ok r issued k st"
  "live_ok (r\<lparr>rb_retired := rt\<rparr>) issued k st = live_ok r issued k st"
  "is_live (r\<lparr>rb_cells := cells\<rparr>) e = is_live r e"
  "is_live (r\<lparr>rb_retired := rt\<rparr>) e = is_live r e"
  by (simp_all add: issued_ok_def live_ok_def is_live_def)

lemma drop_entry_inv:
  assumes inv: "ring_inv (r, issued)" and key: "rb_entries r key = Some st"
    and free: "rb_cells r (se_readers (state_entry st)) = 0"
  shows "ring_inv (r\<lparr>rb_entries := (rb_entries r)(key := None)\<rparr>, issued)"
proof (rule ring_invI)
  let ?r = "r\<lparr>rb_entries := (rb_entries r)(key := None)\<rparr>"
  show "is_live ?r e" if e: "e \<in> set issued" "0 < rb_cells ?r (se_readers e)" for e
  proof (rule is_live_upd [OF _ key])
    show "is_live r e" using ring_invD(4) [OF inv e(1)] e(2) by simp
    show "e \<noteq> state_entry st" using e(2) free by auto
  qed simp
  show "live_ok ?r issued k t" if "rb_entries ?r k = Some t" for k t
    using ring_invD(3) [OF inv, of k t] that by (simp split: if_splits)
  show "shard_ok (rb_alignment ?r) s" if "s \<in> set (rb_shards ?r)" for s
    using ring_invD(1) [OF inv] that by simp
  show "issued_ok ?r issued" using ring_invD(2) [OF inv] by simp
qed

lemma restate_entry_inv:
  assumes inv: "ring_inv (r, issued)" and key: "rb_entries r key = Some st"
    and same: "state_entry st' = state_entry st" and read: "\<not> is_writing st'"
  shows "ring_inv (r\<lparr>rb_entries := (rb_entries r)(key \<mapsto> st')\<rparr>, issued)"
proof (rule ring_invI)
  let ?r = "r\<lparr>rb_entries := (rb_entries r)(key \<mapsto> st')\<rparr>"
  show "is_live ?r e" if e: "e \<in> set issued" "0 < rb_cells ?r (se_readers e)" for e
  proof (cases "e = state_entry st")
    case True
    then show ?thesis using same by (auto simp: is_live_def)
  next
    case False
    have "is_live r e" using ring_invD(4) [OF inv e(1)] e(2) by simp
    then show ?thesis by (rule is_live_upd [OF _ key False]) simp
  qed
  show "live_ok ?r issued k t" if "rb_entries ?r k = Some t" for k t
    using ring_invD(3) [OF inv, of k] that key same read
    by (auto simp: live_ok_def Let_def split: if_splits)
  show "shard_ok (rb_alignment ?r) s" if "s \<in> set (rb_shards ?r)" for s
    using ring_invD(1) [OF inv] that by simp
  show "issued_ok ?r issued" using ring_invD(2) [OF inv] by simp
qed

lemma commit_inv:
  assumes "ring_inv (r, issued)"
  shows "ring_inv (fst (ring_commit r key success), issued)"
proof (cases "rb_entries r key")
  case (Some st)
  show ?thesis
  proof (cases st)
    case (Writing e)
    have "rb_cells r (se_readers e) = 0"
      using ring_invD(3) [OF assms Some] Writing by (simp add: live_ok_def is_writing_def Let_def)
    then have "ring_inv (r\<lparr>rb_entries := (rb_entries r)(key := None)\<rparr>, issued)"
      and "ring_inv (r\<lparr>rb_entries := (rb_entries r)(key \<mapsto> Committed e)\<rparr>, issued)"
      using drop_entry_inv [OF assms Some] restate_entry_inv [OF assms Some, of "Committed e"] Writing
      by (simp_all add: is_writing_def)
    then show ?thesis using Some Writing by (simp add: ring_commit_def)
  qed (use assms Some in \<open>simp_all add: ring_commit_def\<close>)
qed (use assms in \<open>simp add: ring_commit_def\<close>)

lemma invalidate_inv:
  assumes inv: "ring_inv (r, issued)" and f: "f \<in> set issued"
  shows "ring_inv (fst (invalidate_encoded r key f), issued)"
proof (cases "snd (invalidate_encoded r key f)")
  case True
  then obtain st where st: "rb_entries r key = Some st" "same_generation (state_entry st) f"
    by (auto simp: invalidate_encoded_def split: option.splits ssd_state.splits if_splits)
  have "state_entry st = f"
    using issued_same_generation [OF ring_invD(2) [OF inv] _ f st(2)] ring_invD(3) [OF inv st(1)]
    by (simp add: live_ok_def Let_def)
  then show ?thesis
    using drop_entry_inv [OF inv st(1)] restate_entry_inv [OF inv st(1), of "Invalid f"] inv
    by (auto simp: invalidate_encoded_def is_writing_def)
qed (use inv in \<open>auto simp: invalidate_encoded_def split: if_splits\<close>)

lemma release_inv:
  assumes inv: "ring_inv (r, issued)"
  shows "ring_inv (release_invalid r key f, issued)"
proof (cases "rb_entries r key")
  case (Some st)
  show ?thesis
    using drop_entry_inv [OF inv Some] inv Some
    by (cases st) (auto simp: release_invalid_def)
qed (use inv in \<open>simp add: release_invalid_def\<close>)

lemma pin_inv:
  assumes inv: "ring_inv (r, issued)" and "pin r key f = Some (r', e)"
  shows "ring_inv (r', issued)"
proof -
  have key: "rb_entries r key = Some (Committed e)"
    and r': "r' = r\<lparr>rb_cells := (rb_cells r)(se_readers e := rb_cells r (se_readers e) + 1)\<rparr>"
    using assms(2) by (auto simp: pin_def ring_get_def split: Option.bind_splits option.splits ssd_state.splits if_splits)
  have e: "e \<in> set issued" using ring_invD(3) [OF inv key] by (simp add: live_ok_def Let_def)
  note same = issued_same_readers [OF ring_invD(2) [OF inv] _ e]
  have writing: "se_readers (state_entry st) \<noteq> se_readers e"
    if st: "rb_entries r k = Some st" "is_writing st" for k st
  proof
    assume "se_readers (state_entry st) = se_readers e"
    then have "state_entry st = e"
      using same ring_invD(3) [OF inv st(1)] by (simp add: live_ok_def Let_def)
    then have "k = key" using live_unique [OF inv st(1) key] by simp
    then show False using st key by (auto simp: is_writing_def)
  qed
  show ?thesis unfolding r'
  proof (rule ring_invI)
    fix f assume f: "f \<in> set issued"
      "0 < rb_cells (r\<lparr>rb_cells := (rb_cells r)(se_readers e := rb_cells r (se_readers e) + 1)\<rparr>) (se_readers f)"
    show "is_live (r\<lparr>rb_cells := (rb_cells r)(se_readers e := rb_cells r (se_readers e) + 1)\<rparr>) f"
    proof (cases "se_readers f = se_readers e")
      case True
      then have "f = e" using same f(1) by simp
      then show ?thesis using key by (simp add: is_live_def) (metis state_entry.simps(2))
    next
      case False
      then show ?thesis using f(2) ring_invD(4) [OF inv f(1)] by simp
    qed
  next
    fix k st assume "rb_entries (r\<lparr>rb_cells := (rb_cells r)(se_readers e := rb_cells r (se_readers e) + 1)\<rparr>) k = Some st"
    then show "live_ok (r\<lparr>rb_cells := (rb_cells r)(se_readers e := rb_cells r (se_readers e) + 1)\<rparr>) issued k st"
      using ring_invD(3) [OF inv, of k st] writing [of k st] by (simp add: live_ok_def Let_def)
  qed (use ring_invD(1,2) [OF inv] in simp_all)
qed

lemma drop_lease_inv:
  assumes inv: "ring_inv (r, issued)"
  shows "ring_inv (fst (drop_lease r f), issued)"
  unfolding drop_lease_def fst_conv
proof (rule ring_invI)
  let ?c = "(rb_cells r)(se_readers f := rb_cells r (se_readers f) - 1)"
  show "live_ok (r\<lparr>rb_cells := ?c\<rparr>) issued k st" if "rb_entries (r\<lparr>rb_cells := ?c\<rparr>) k = Some st" for k st
    using ring_invD(3) [OF inv, of k st] that by (auto simp: live_ok_def Let_def)
  show "is_live (r\<lparr>rb_cells := ?c\<rparr>) e"
    if "e \<in> set issued" and "0 < rb_cells (r\<lparr>rb_cells := ?c\<rparr>) (se_readers e)" for e
    using ring_invD(4) [OF inv that(1)] that(2) by (simp split: if_splits)
qed (use ring_invD(1,2) [OF inv] in simp_all)

lemma take_retired_inv:
  "ring_inv (r, issued) \<Longrightarrow> ring_inv (fst (take_retired r), issued)"
  by (simp add: take_retired_def ring_inv_def)

text \<open>What an allocation does to a ring that keeps the invariant.\<close>

definition allocated :: "ssd_ring \<Rightarrow> nat \<Rightarrow> nat \<Rightarrow> nat \<Rightarrow> ssd_ring \<Rightarrow> bool" where
  "allocated r shard start bytes r1 \<longleftrightarrow>
     (let s = rb_shards r ! shard; s1 = rb_shards r1 ! shard; head = start + bytes in
      rb_shards r1 = (rb_shards r)[shard := s1] \<and> rb_alignment r1 = rb_alignment r \<and>
      rb_cells r1 = rb_cells r \<and> rb_next_cell r1 = rb_next_cell r \<and>
      sh_capacity s1 = sh_capacity s \<and> sh_head s1 = head \<and> sh_tail s1 = head - sh_capacity s \<and>
      suffix (sh_order s1) (sh_order s) \<and>
      set (rb_retired r1) = set (rb_retired r) \<union> {k. rb_entries r k \<noteq> None \<and> rb_entries r1 k = None} \<and>
      (\<forall>k st. rb_entries r1 k = Some st \<longrightarrow> rb_entries r k = Some st \<and>
         (se_shard_id (state_entry st) = shard \<longrightarrow>
            head - sh_capacity s \<le> se_begin (state_entry st) \<and>
            (k, se_begin (state_entry st)) \<in> set (sh_order s1))) \<and>
      (\<forall>k st. rb_entries r k = Some st \<longrightarrow> rb_entries r1 k \<noteq> Some st \<longrightarrow>
         \<not> is_writing st \<and> rb_cells r (se_readers (state_entry st)) = 0))"

lemma allocate_bounds:
  assumes "allocate_contiguous r shard bytes = Some (r1, start, off)"
  defines "s \<equiv> rb_shards r ! shard"
  shows "0 < bytes" and "sh_head s \<le> start" and "off = start mod sh_capacity s"
    and "off + bytes \<le> sh_capacity s"
    and "a dvd sh_head s \<Longrightarrow> a dvd sh_capacity s \<Longrightarrow> a dvd start"
proof -
  let ?c = "sh_capacity s" and ?h = "sh_head s"
  let ?gap = "?c - ?h mod ?c"
  have ok: "0 < bytes" "bytes \<le> ?c" "off = start mod ?c"
    and start: "start = (if bytes > ?gap then ?h + ?gap else ?h)"
    using assms(1) unfolding s_def
    by (auto simp: allocate_contiguous_def Let_def checked_add_def
        split: if_splits Option.bind_splits)
  then show "0 < bytes" "off = start mod ?c" by simp_all
  have c: "0 < ?c" using ok by simp
  show "?h \<le> start" using start by simp
  have wrap: "?h + ?gap = (?h div ?c + 1) * ?c"
    using mod_less_divisor [OF c, of ?h] div_mult_mod_eq [of ?h ?c] add_mult_distrib [of "?h div ?c" 1 ?c]
    by linarith
  show "off + bytes \<le> ?c"
  proof (cases "bytes > ?gap")
    case True
    then have "start = (?h div ?c + 1) * ?c" using start wrap by simp
    then have "start mod ?c = 0" by simp
    then show ?thesis using ok by simp
  next
    case False
    then show ?thesis using start ok mod_less_divisor [OF c, of ?h] by simp
  qed
  show "a dvd start" if "a dvd ?h" "a dvd ?c"
    using start wrap that by (auto simp: dvd_mult)
qed

lemma allocate_allocated:
  assumes inv: "ring_inv (r, issued)" and shard: "shard < length (rb_shards r)"
    and "allocate_contiguous r shard bytes = Some (r1, start, off)"
  shows "allocated r shard start bytes r1"
proof -
  define s where "s = rb_shards r ! shard"
  define nt where "nt = start + bytes - sh_capacity s"
  let ?r = "r\<lparr>rb_shards := (rb_shards r)[shard := s\<lparr>sh_head := start + bytes\<rparr>]\<rparr>"
  have free: "\<not> blocked (rb_entries r) (rb_cells r) shard nt (sh_order s)"
    and r1: "r1 = advance_tail ?r shard nt"
    using assms(3) unfolding nt_def s_def
    by (auto simp: allocate_contiguous_def Let_def checked_add_def
        split: if_splits Option.bind_splits)
  have ok: "shard_ok (rb_alignment r) s" using ring_invD(1) [OF inv] shard by (simp add: s_def)
  then have sorted: "sorted_wrt (<) (map snd (sh_order s))" and tail: "sh_tail s = sh_head s - sh_capacity s"
    by (simp_all add: shard_ok_def)
  have le: "sh_tail s \<le> nt" using allocate_bounds(2) [OF assms(3)] tail by (simp add: nt_def s_def)
  have live: "sh_tail s \<le> se_begin (state_entry st) \<and> (k, se_begin (state_entry st)) \<in> set (sh_order s)"
    if "rb_entries r k = Some st" "se_shard_id (state_entry st) = shard" for k st
    using ring_invD(3) [OF inv that(1)] that(2) by (auto simp: live_ok_def Let_def s_def)
  show ?thesis
  proof (cases "nt \<le> sh_tail s")
    case True
    then have "r1 = ?r" "nt = sh_tail s" using le shard by (simp_all add: r1 advance_tail_def Let_def)
    then show ?thesis using shard live by (auto simp: allocated_def Let_def nt_def s_def)
  next
    case False
    obtain order es rt where p: "prune (rb_entries r) (rb_retired r) shard nt (sh_order s) = (order, es, rt)"
      by (cases "prune (rb_entries r) (rb_retired r) shard nt (sh_order s)")
    have es: "es k = (if evicts (rb_entries r) shard nt (sh_order s) k then None else rb_entries r k)" for k
      using prune_entries [OF sorted, of "rb_entries r" "rb_retired r" shard nt k] p by simp
    have r1': "rb_shards r1 = (rb_shards r)[shard := s\<lparr>sh_head := start + bytes, sh_tail := nt, sh_order := order\<rparr>]"
      "rb_entries r1 = es" "rb_alignment r1 = rb_alignment r" "rb_cells r1 = rb_cells r"
      "rb_next_cell r1 = rb_next_cell r"
      using False shard p by (simp_all add: r1 advance_tail_def Let_def)
    have keep: "rb_entries r k = Some st \<and> (se_shard_id (state_entry st) = shard \<longrightarrow>
        nt \<le> se_begin (state_entry st) \<and> (k, se_begin (state_entry st)) \<in> set order)"
      if "es k = Some st" for k st
      using that es [of k] live [of k st]
        prune_keeps [of k "se_begin (state_entry st)" "sh_order s" "rb_entries r" "rb_retired r" shard nt st] p
      by (auto simp: evicts_def split: if_splits)
    have lost: "\<not> is_writing st \<and> rb_cells r (se_readers (state_entry st)) = 0"
      if "rb_entries r k = Some st" "es k \<noteq> Some st" for k st
      using blocked_evicts [OF sorted free _ that(1)] that es [of k] by (auto split: if_splits)
    have "set (rb_retired r1) = set (rb_retired r) \<union> {k. evicts (rb_entries r) shard nt (sh_order s) k}"
      using prune_retired [OF sorted, of "rb_entries r" "rb_retired r" shard nt] p False shard
      by (simp add: r1 advance_tail_def Let_def)
    moreover have "evicts (rb_entries r) shard nt (sh_order s) k \<longleftrightarrow> rb_entries r k \<noteq> None \<and> es k = None" for k
      using es [of k] by (auto simp: evicts_def)
    ultimately have ret: "set (rb_retired r1) =
        set (rb_retired r) \<union> {k. rb_entries r k \<noteq> None \<and> es k = None}" by simp
    show ?thesis
      using shard keep lost ret prune_suffix [of "rb_entries r" "rb_retired r" shard nt "sh_order s"] p
      by (simp add: allocated_def Let_def r1' nt_def s_def)
  qed
qed

lemma first_shard_Some:
  assumes "first_shard r bytes offsets = Some (shard, r1, start, off)" and "rb_shards r \<noteq> []"
  shows "shard < length (rb_shards r) \<and> allocate_contiguous r shard bytes = Some (r1, start, off)"
  using assms by (induction offsets) (auto simp: Let_def split: option.splits)

lemma sum_sizes_Some: "sum_sizes acc slots = Some n \<Longrightarrow> n = acc + (\<Sum>slot\<leftarrow>slots. sm_total_size slot)"
  by (induction slots arbitrary: acc) (fastforce simp: checked_add_def split: Option.bind_splits if_splits)+




lemma reserve_cases:
  assumes "ring_reserve r key slots encoding = Some (r', e)"
  obtains shard r1 start off bytes where "rb_entries r key = None" and "shard < length (rb_shards r)"
    and "allocate_contiguous r shard bytes = Some (r1, start, off)" and "rb_alignment r dvd bytes"
    and "e = \<lparr>se_shard_id = shard, se_begin = start, se_len = bytes, se_file_offset = off,
      se_slots = slots, se_encoding = encoding, se_readers = rb_next_cell r\<rparr>"
    and "rb_shards r' = (rb_shards r1)[shard :=
      (rb_shards r1 ! shard)\<lparr>sh_order := sh_order (rb_shards r1 ! shard) @ [(key, start)]\<rparr>]"
    and "rb_entries r' = (rb_entries r1)(key \<mapsto> Writing e)" and "rb_alignment r' = rb_alignment r1"
    and "rb_cells r' = (rb_cells r1)(rb_next_cell r := 0)" and "rb_next_cell r' = rb_next_cell r + 1"
    and "checked_next_multiple_of (\<Sum>slot\<leftarrow>slots. sm_total_size slot) (rb_alignment r) = Some bytes"
    and "rb_retired r' = rb_retired r1"
proof -
  obtain payload bytes shard r1 start off where
    payload: "sum_sizes 0 slots = Some payload" and
    steps: "rb_entries r key = None" "checked_next_multiple_of payload (rb_alignment r) = Some bytes"
      "first_shard r bytes [0..<length (rb_shards r)] = Some (shard, r1, start, off)"
    and e: "e = \<lparr>se_shard_id = shard, se_begin = start, se_len = bytes, se_file_offset = off,
      se_slots = slots, se_encoding = encoding, se_readers = rb_next_cell r\<rparr>"
    and r': "r' = r1\<lparr>rb_next_shard := (shard + 1) mod length (rb_shards r1),
                 rb_entries := (rb_entries r1)(key \<mapsto> Writing e),
                 rb_shards := (rb_shards r1)[shard :=
                   (rb_shards r1 ! shard)\<lparr>sh_order := sh_order (rb_shards r1 ! shard) @ [(key, start)]\<rparr>],
                 rb_cells := (rb_cells r1)(rb_next_cell r := 0),
                 rb_next_cell := rb_next_cell r + 1\<rparr>"
    using assms by (auto simp: ring_reserve_def Let_def split: if_splits Option.bind_splits)
  have "rb_shards r \<noteq> []" using steps(3) by auto
  note shard = first_shard_Some [OF steps(3) this]
  have "rb_alignment r dvd bytes"
    using checked_next_multiple_of_Some(2) [OF steps(2)] by (simp add: dvd_eq_mod_eq_0)
  moreover have "payload = (\<Sum>slot\<leftarrow>slots. sm_total_size slot)" using sum_sizes_Some [OF payload] by simp
  ultimately show thesis using that [of shard bytes r1 start off] steps(1,2) shard e r' by simp
qed

lemma issued_reserve:
  assumes ok: "issued_ok r issued" and al: "allocated r shard start bytes r1"
    and shard: "shard < length (rb_shards r)" and head: "sh_head (rb_shards r ! shard) \<le> start"
    and e: "se_shard_id e = shard" "se_begin e = start" "se_len e = bytes" "se_readers e = rb_next_cell r"
    and new: "extent_ok (rb_alignment r) (rb_shards r1 ! shard) e"
    and r': "rb_shards r' = (rb_shards r1)[shard := (rb_shards r1 ! shard)\<lparr>sh_order := order\<rparr>]"
      "rb_alignment r' = rb_alignment r1" "rb_next_cell r' = rb_next_cell r + 1"
  shows "issued_ok r' (e # issued)"
proof -
  have len: "length (rb_shards r') = length (rb_shards r)" "rb_alignment r' = rb_alignment r"
    using al by (auto simp: allocated_def Let_def r' dest: arg_cong [of _ _ length])
  have old: "extent_ok (rb_alignment r') (rb_shards r' ! se_shard_id f) f \<and> apart e f \<and> apart f e"
    if f: "f \<in> set issued" for f
  proof (cases "se_shard_id f = shard")
    case True
    then show ?thesis using issuedD(2,3) [OF ok f] al head shard e r'(1) len
      by (auto simp: extent_ok_def apart_def allocated_def Let_def)
  next
    case False
    moreover have "rb_shards r' ! se_shard_id f = rb_shards r ! se_shard_id f"
      using False al by (metis allocated_def nth_list_update_neq r'(1))
    ultimately show ?thesis using issuedD(2,3) [OF ok f] e len by (auto simp: apart_def)
  qed
  have "extent_ok (rb_alignment r') (rb_shards r' ! shard) e"
    using new shard len r' by (auto simp: extent_ok_def)
  then show ?thesis using old ok shard e len r'(3) by (auto simp: issued_ok_def apart_def less_Suc_eq)
qed

lemma allocated_other:
  assumes "allocated r shard start bytes r1" and "i \<noteq> shard"
  shows "rb_shards r1 ! i = rb_shards r ! i"
  using assms by (metis allocated_def nth_list_update_neq)

lemma allocated_length:
  "allocated r shard start bytes r1 \<Longrightarrow> length (rb_shards r1) = length (rb_shards r)"
  unfolding allocated_def Let_def by (metis length_list_update)

lemma allocated_keeps:
  assumes "allocated r shard start bytes r1" and "rb_entries r k = Some st"
    and "is_writing st \<or> rb_cells r (se_readers (state_entry st)) \<noteq> 0"
  shows "rb_entries r1 k = Some st"
proof (rule ccontr)
  assume "rb_entries r1 k \<noteq> Some st"
  then have "\<not> is_writing st \<and> rb_cells r (se_readers (state_entry st)) = 0"
    using assms(1,2) by (simp add: allocated_def Let_def)
  then show False using assms(3) by simp
qed

lemma shard_reserve:
  assumes ok: "shard_ok a s" and "suffix (sh_order s1) (sh_order s)" and "sh_head s \<le> start"
    and "sh_head s1 = start + bytes" and "sh_capacity s1 = sh_capacity s"
    and "sh_tail s1 = start + bytes - sh_capacity s"
    and "0 < bytes" and "a dvd start" and "a dvd bytes"
  shows "shard_ok a (s1\<lparr>sh_order := sh_order s1 @ [(key, start)]\<rparr>)"
proof -
  obtain pre where pre: "sh_order s = pre @ sh_order s1" using assms(2) by (auto simp: suffix_def)
  have "\<forall>x\<in>set (sh_order s). snd x < start"
    using ok assms(3) order_less_le_trans unfolding shard_ok_def by blast
  then have "\<forall>x\<in>set (sh_order s1). snd x < start" by (simp add: pre)
  then show ?thesis using assms by (auto simp: shard_ok_def pre sorted_wrt_append)
qed

lemma reserve_inv:
  assumes inv: "ring_inv (r, issued)" and res: "ring_reserve r key slots encoding = Some (r', e)"
  shows "ring_inv (r', e # issued)"
  using res
proof (cases rule: reserve_cases)
  case (1 shard r1 start off bytes)
  note al = allocate_allocated [OF inv 1(2,3)]
  note b = allocate_bounds [OF 1(3)]
  define s s1 where "s = rb_shards r ! shard" and "s1 = rb_shards r1 ! shard"
  have ok: "shard_ok (rb_alignment r) s" using ring_invD(1) [OF inv] 1(2) by (simp add: s_def)
  have s1: "rb_alignment r1 = rb_alignment r" "rb_cells r1 = rb_cells r" "sh_head s1 = start + bytes"
    "sh_capacity s1 = sh_capacity s" "sh_tail s1 = start + bytes - sh_capacity s"
    "suffix (sh_order s1) (sh_order s)"
    using al by (simp_all add: allocated_def Let_def s_def s1_def)
  have len: "length (rb_shards r1) = length (rb_shards r)" using allocated_length [OF al] .
  have dvd: "rb_alignment r dvd start" using b(5) ok by (simp add: shard_ok_def s_def)
  have shard': "rb_shards r' ! shard = s1\<lparr>sh_order := sh_order s1 @ [(key, start)]\<rparr>"
    using 1(2,6) len by (simp add: s1_def)
  have other: "rb_shards r' ! i = rb_shards r ! i" if "i \<noteq> shard" for i
    using that allocated_other [OF al that] 1(6) by simp
  show ?thesis
  proof (rule ring_invI)
    fix x assume "x \<in> set (rb_shards r')"
    then obtain i where i: "i < length (rb_shards r)" "x = rb_shards r' ! i"
      using 1(6) len by (auto simp: in_set_conv_nth)
    show "shard_ok (rb_alignment r') x"
    proof (cases "i = shard")
      case True
      then show ?thesis
        using shard_reserve [OF ok s1(6) _ s1(3-5) b(1) dvd 1(4)] b(2) i shard' s1(1) 1(8)
        by (simp add: s_def)
    next
      case False
      then show ?thesis using i other ring_invD(1) [OF inv] 1(8) s1(1) by simp
    qed
  next
    have "extent_ok (rb_alignment r) s1 e"
      using b(1,3,4) s1 1(4,5) dvd ok by (simp add: extent_ok_def s_def shard_ok_def dvd_mod)
    then show "issued_ok r' (e # issued)"
      using 1 b(2) by (intro issued_reserve [OF ring_invD(2) [OF inv] al]) (simp_all add: s1_def)
  next
    fix k st assume st: "rb_entries r' k = Some st"
    show "live_ok r' (e # issued) k st"
    proof (cases "k = key")
      case True
      then have "st = Writing e" using st 1(7) by simp
      moreover have "sh_tail s1 \<le> start" using b(4) s1(5) by (simp add: s_def)
      ultimately show ?thesis using True 1(5,9) shard' by (simp add: live_ok_def Let_def)
    next
      case False
      then have st1: "rb_entries r1 k = Some st" using st 1(7) by simp
      then have "rb_entries r k = Some st" and here: "se_shard_id (state_entry st) = shard \<longrightarrow>
          sh_tail s1 \<le> se_begin (state_entry st) \<and> (k, se_begin (state_entry st)) \<in> set (sh_order s1)"
        using al s1(5) by (auto simp: allocated_def Let_def s_def s1_def)
      then have live: "live_ok r issued k st" using ring_invD(3) [OF inv] by simp
      then have "se_readers (state_entry st) < rb_next_cell r"
        using issuedD(2) [OF ring_invD(2) [OF inv]] by (simp add: live_ok_def Let_def)
      then show ?thesis using live here other shard' s1(2) 1(9)
        by (cases "se_shard_id (state_entry st) = shard") (simp_all add: live_ok_def Let_def)
    qed
  next
    fix f assume f: "f \<in> set (e # issued)" "0 < rb_cells r' (se_readers f)"
    then have f': "f \<in> set issued" "0 < rb_cells r (se_readers f)"
      using 1(5,9) s1(2) by (auto split: if_splits)
    obtain k st where k: "rb_entries r k = Some st" "state_entry st = f"
      using ring_invD(4) [OF inv f'] by (auto simp: is_live_def)
    then have "rb_entries r1 k = Some st" "k \<noteq> key"
      using allocated_keeps [OF al k(1)] f'(2) 1(1) by auto
    then show "is_live r' f" using k 1(7) by (auto simp: is_live_def)
  qed
qed

lemma ring_step_inv: "ring_inv x \<Longrightarrow> ring_step x y \<Longrightarrow> ring_inv y"
  by (erule ring_step.cases)
    (auto intro: reserve_inv commit_inv invalidate_inv release_inv pin_inv drop_lease_inv take_retired_inv)

interpretation rb: invariant_system ring_start ring_step ring_inv
proof
  show "ring_inv x" if "ring_start x" for x
    using that
    by (cases x) (auto simp: ring_start_def new_sharded_def ring_inv_def issued_ok_def shard_ok_def
        split: if_splits)
  show "ring_inv y" if "ring_inv x" and "ring_step x y" for x y
    using that by (rule ring_step_inv)
qed

abbreviation ring_reach :: "ring_state \<Rightarrow> bool" where
  "ring_reach \<equiv> reach ring_start ring_step"

section \<open>Properties\<close>

text \<open>The bytes of the shard's file an entry occupies.\<close>

definition extent :: "ssd_entry \<Rightarrow> nat set" where
  "extent e = {se_file_offset e..<se_file_offset e + se_len e}"

lemma window_disjoint:
  fixes c :: nat
  assumes "b1 + l1 \<le> b2" and "b2 + l2 \<le> h" and "h - c \<le> b1"
    and "b1 mod c + l1 \<le> c" and "b2 mod c + l2 \<le> c"
  shows "{b1 mod c..<b1 mod c + l1} \<inter> {b2 mod c..<b2 mod c + l2} = {}"
proof (rule ccontr)
  assume "\<not> ?thesis"
  then obtain z where z: "b1 mod c \<le> z" "z < b1 mod c + l1" "b2 mod c \<le> z" "z < b2 mod c + l2"
    by (metis disjoint_iff atLeastLessThan_iff)
  define x y where "x = b1 + (z - b1 mod c)" and "y = b2 + (z - b2 mod c)"
  have "x mod c = z" unfolding x_def
    using z assms(4) by (subst mod_add_left_eq [symmetric]) (simp add: mod_less)
  moreover have "y mod c = z" unfolding y_def
    using z assms(5) by (subst mod_add_left_eq [symmetric]) (simp add: mod_less)
  moreover have xy: "x < y" "y - x < c" using assms(1-3) z unfolding x_def y_def by linarith+
  ultimately have "c dvd y - x" using mod_eq_dvd_iff_nat [of x y c] by simp
  then show False using xy nat_dvd_not_less [of "y - x" c] by simp
qed

lemma live_disjoint:
  assumes inv: "ring_inv (r, issued)" and "is_live r e" and "is_live r f" and "e \<noteq> f"
    and shard: "se_shard_id e = se_shard_id f"
  shows "extent e \<inter> extent f = {}"
proof -
  let ?s = "rb_shards r ! se_shard_id f"
  have live: "g \<in> set issued \<and> sh_tail ?s \<le> se_begin g" if g: "is_live r g" "se_shard_id g = se_shard_id f" for g
  proof -
    obtain k st where "rb_entries r k = Some st" "state_entry st = g" 
      using g(1) unfolding is_live_def by blast
    then show ?thesis using ring_invD(3) [OF inv] g(2) by (fastforce simp: live_ok_def Let_def)
  qed
  have e: "e \<in> set issued" "sh_tail ?s \<le> se_begin e" and f: "f \<in> set issued" "sh_tail ?s \<le> se_begin f"
    using live [OF assms(2)] live [OF assms(3)] shard by auto
  note ok = ring_invD(2) [OF inv]
  have "shard_ok (rb_alignment r) ?s" using issuedD(1) [OF ok f(1)] ring_invD(1) [OF inv] by simp
  then have tail: "sh_tail ?s = sh_head ?s - sh_capacity ?s" by (simp add: shard_ok_def)
  have ext: "extent_ok (rb_alignment r) ?s e" "extent_ok (rb_alignment r) ?s f"
    using issuedD(3) [OF ok e(1)] issuedD(3) [OF ok f(1)] shard by simp_all
  consider "se_begin e + se_len e \<le> se_begin f" | "se_begin f + se_len f \<le> se_begin e"
    using issuedD(4) [OF ok e(1) f(1)] assms(4) shard by (auto simp: apart_def)
  then show ?thesis
  proof cases
    case 1
    then show ?thesis
      using window_disjoint [of "se_begin e" "se_len e" "se_begin f" "se_len f" "sh_head ?s" "sh_capacity ?s"]
        ext e(2) tail by (auto simp: extent_def extent_ok_def)
  next
    case 2
    then show ?thesis
      using window_disjoint [of "se_begin f" "se_len f" "se_begin e" "se_len e" "sh_head ?s" "sh_capacity ?s"]
        ext f(2) tail by (auto simp: extent_def extent_ok_def)
  qed
qed

definition demo_slot :: slot_meta where
  "demo_slot = slot_meta_new [100, 200] 0"

definition demo_entry :: ssd_entry where
  "demo_entry = \<lparr>se_shard_id = 0, se_begin = 0, se_len = 512, se_file_offset = 0, se_slots = [demo_slot],
     se_encoding = RawPayload, se_readers = 0\<rparr>"

definition demo_ring :: ssd_ring where
  "demo_ring = \<lparr>rb_shards = [\<lparr>sh_capacity = 1024, sh_head = 512, sh_tail = 0, sh_order = [(StateKey [1] [2], 0)]\<rparr>],
     rb_next_shard = 0, rb_alignment = 512, rb_entries = [StateKey [1] [2] \<mapsto> Committed demo_entry],
     rb_retired = [], rb_cells = (\<lambda>_. 0), rb_next_cell = 1\<rparr>"

definition demo_pinned :: ssd_ring where
  "demo_pinned = demo_ring\<lparr>rb_cells := (\<lambda>_. 0)(0 := 1)\<rparr>"

definition demo_second :: ssd_entry where
  "demo_second = \<lparr>se_shard_id = 0, se_begin = 512, se_len = 512, se_file_offset = 512, se_slots = [demo_slot],
     se_encoding = RawPayload, se_readers = 1\<rparr>"

definition demo_two :: ssd_ring where
  "demo_two = \<lparr>rb_shards = [\<lparr>sh_capacity = 1024, sh_head = 1024, sh_tail = 0,
       sh_order = [(StateKey [1] [2], 0), (StateKey [1] [3], 512)]\<rparr>],
     rb_next_shard = 0, rb_alignment = 512,
     rb_entries = [StateKey [1] [2] \<mapsto> Committed demo_entry, StateKey [1] [3] \<mapsto> Writing demo_second],
     rb_retired = [], rb_cells = (\<lambda>_. 0)(0 := 1), rb_next_cell = 2\<rparr>"

lemmas reserve_defs = ring_reserve_def checked_next_multiple_of_def checked_add_def u64_max_def
  allocate_contiguous_def advance_tail_def current_state_def slot_meta_new_def

lemma demo_ring_reach: "ring_reach (demo_ring, [demo_entry])"
proof -
  let ?r0 = "\<lparr>rb_shards = [\<lparr>sh_capacity = 1024, sh_head = 0, sh_tail = 0, sh_order = []\<rparr>], rb_next_shard = 0,
    rb_alignment = 512, rb_entries = Map.empty, rb_retired = [], rb_cells = \<lambda>_. 0, rb_next_cell = 0\<rparr>"
  let ?r1 = "demo_ring\<lparr>rb_entries := [StateKey [1] [2] \<mapsto> Writing demo_entry]\<rparr>"
  have "new_sharded [1024] 512 = Some ?r0" by (simp add: new_sharded_def)
  then have "ring_start (?r0, [])" unfolding ring_start_def
    by (intro exI [of _ "[1024]"] exI [of _ 512]) simp
  moreover have "ring_reserve ?r0 (StateKey [1] [2]) [demo_slot] RawPayload = Some (?r1, demo_entry)"
    by (simp add: reserve_defs demo_slot_def demo_entry_def demo_ring_def Let_def fun_eq_iff)
  ultimately have "ring_reach (?r1, [demo_entry])" by (blast intro: reach_start reach_step step_reserve)
  moreover have "demo_ring = fst (ring_commit ?r1 (StateKey [1] [2]) True)"
    by (simp add: ring_commit_def is_offset_valid_def demo_ring_def demo_entry_def fun_eq_iff)
  ultimately show ?thesis using reach_step step_commit by metis
qed

lemma demo_pinned_reach: "ring_reach (demo_pinned, [demo_entry])"
proof -
  have "pin demo_ring (StateKey [1] [2]) demo_entry = Some (demo_pinned, demo_entry)"
    by (simp add: pin_def ring_get_def is_offset_valid_def demo_pinned_def demo_ring_def demo_entry_def)
  then show ?thesis using reach_step [OF demo_ring_reach step_pin] by simp
qed

lemma demo_reserve:
  "ring_reserve demo_pinned (StateKey [1] [3]) [demo_slot] RawPayload = Some (demo_two, demo_second)"
  by (simp add: reserve_defs demo_pinned_def demo_ring_def demo_two_def demo_second_def demo_entry_def
      demo_slot_def is_writing_def Let_def fun_eq_iff)

lemma demo_two_reach: "ring_reach (demo_two, [demo_second, demo_entry])"
  using reach_step [OF demo_pinned_reach step_reserve [OF demo_reserve]] .

text \<open>C7. In every reachable ring, the entries of two keys, in whatever state, never share a byte of
  a cache file.\<close>

theorem ssd_extents_disjoint:
  assumes "ring_reach (r, issued)" and "rb_entries r k1 = Some s1" and "rb_entries r k2 = Some s2"
    and "k1 \<noteq> k2" and "se_shard_id (state_entry s1) = se_shard_id (state_entry s2)"
  shows "extent (state_entry s1) \<inter> extent (state_entry s2) = {}"
proof -
  have inv: "ring_inv (r, issued)" using assms(1) by (rule rb.reach_inv)
  have "state_entry s1 \<noteq> state_entry s2" using live_unique [OF inv assms(2,3)] assms(4) by auto
  moreover have "is_live r (state_entry s1)" "is_live r (state_entry s2)"
    using assms(2,3) by (auto simp: is_live_def)
  ultimately show ?thesis using live_disjoint [OF inv] assms(5) by blast
qed

theorem ssd_extents_disjoint_witness:
  "extent demo_entry = {0..<512} \<and> extent demo_second = {512..<1024} \<and>
   extent demo_entry \<inter> extent demo_second = {}"
  using ssd_extents_disjoint [OF demo_two_reach, of "StateKey [1] [2]" "Committed demo_entry"
      "StateKey [1] [3]" "Writing demo_second"]
  by (simp add: demo_two_def extent_def demo_entry_def demo_second_def)

text \<open>C8. While a read lease of an entry is outstanding, no reservation hands out bytes of its extent:
  neither eviction nor invalidation gives them away before the last reader is done.\<close>

theorem leased_extent_not_reused:
  assumes reach: "ring_reach (r, issued)" and e: "e \<in> set issued" and leased: "0 < rb_cells r (se_readers e)"
    and res: "ring_reserve r key slots encoding = Some (r', f)"
    and shard: "se_shard_id f = se_shard_id e"
  shows "extent e \<inter> extent f = {}"
proof -
  have inv: "ring_inv (r, issued)" using reach by (rule rb.reach_inv)
  note inv' = reserve_inv [OF inv res]
  have new: "rb_entries r' key = Some (Writing f)" "se_readers f = rb_next_cell r"
    "rb_cells r' (se_readers e) = rb_cells r (se_readers e)"
    using res issuedD(2) [OF ring_invD(2) [OF inv] e] allocate_allocated [OF inv]
    by (auto elim!: reserve_cases simp: allocated_def Let_def)
  have "is_live r' e" using ring_invD(4) [OF inv'] e leased new(3) by simp
  moreover have "is_live r' f" using new(1) state_entry.simps(1) unfolding is_live_def by blast
  moreover have "e \<noteq> f" using issuedD(2) [OF ring_invD(2) [OF inv] e] new(2) by auto
  ultimately show ?thesis using live_disjoint [OF inv'] shard by simp
qed

theorem leased_extent_not_reused_witness:
  "ring_reserve demo_pinned (StateKey [1] [3]) [demo_slot] RawPayload = Some (demo_two, demo_second) \<and>
   0 < rb_cells demo_pinned (se_readers demo_entry) \<and> extent demo_entry \<inter> extent demo_second = {}"
  using leased_extent_not_reused [OF demo_pinned_reach, of demo_entry, OF _ _ demo_reserve] demo_reserve
  by (simp add: demo_pinned_def demo_ring_def demo_entry_def demo_second_def)

text \<open>C29. A reserved extent lies in one piece inside the file of its shard, starts and ends at the
  alignment, and holds the payload with less than one alignment unit to spare.\<close>

theorem reserved_extent_fits:
  assumes "ring_reach (r, issued)" and "ring_reserve r key slots encoding = Some (r', e)"
  shows "se_shard_id e < length (rb_shards r) \<and>
    se_file_offset e + se_len e \<le> sh_capacity (rb_shards r ! se_shard_id e) \<and>
    se_file_offset e mod rb_alignment r = 0 \<and> se_len e mod rb_alignment r = 0 \<and>
    (\<Sum>slot\<leftarrow>slots. sm_total_size slot) \<le> se_len e \<and>
    se_len e < (\<Sum>slot\<leftarrow>slots. sm_total_size slot) + rb_alignment r"
  using assms(2)
proof (cases rule: reserve_cases)
  case (1 shard r1 start off bytes)
  have inv: "ring_inv (r, issued)" using assms(1) by (rule rb.reach_inv)
  have "shard_ok (rb_alignment r) (rb_shards r ! shard)" using ring_invD(1) [OF inv] 1(2) by simp
  then have "rb_alignment r dvd off"
    using allocate_bounds(3) [OF 1(3)] allocate_bounds(5) [OF 1(3), of "rb_alignment r"]
    by (simp add: shard_ok_def dvd_mod)
  then show ?thesis
    using allocate_bounds(4) [OF 1(3)] checked_next_multiple_of_Some [OF 1(11)] 1(2,4,5)
    by (simp add: dvd_eq_mod_eq_0)
qed

theorem reserved_extent_fits_witness:
  "se_file_offset demo_second + se_len demo_second = 1024 \<and> se_len demo_second mod 512 = 0 \<and>
   (\<Sum>slot\<leftarrow>[demo_slot]. sm_total_size slot) = 300 \<and> 300 \<le> se_len demo_second"
  using reserved_extent_fits [OF demo_pinned_reach demo_reserve]
  by (simp add: demo_second_def demo_pinned_def demo_ring_def demo_slot_def slot_meta_new_def)

text \<open>C36. The keys a reservation evicts are exactly the ones it adds to the retired list, which the
  store then withdraws from the inventory.\<close>

theorem reserve_retires_evicted:
  assumes "ring_reach (r, issued)" and "ring_reserve r key slots encoding = Some (r', e)"
  shows "set (rb_retired r') = set (rb_retired r) \<union> {k. rb_entries r k \<noteq> None \<and> rb_entries r' k = None}"
  using assms(2)
proof (cases rule: reserve_cases)
  case (1 shard r1 start off bytes)
  have "allocated r shard start bytes r1"
    using allocate_allocated [OF rb.reach_inv [OF assms(1)] 1(2,3)] .
  then have "set (rb_retired r1) = set (rb_retired r) \<union> {k. rb_entries r k \<noteq> None \<and> rb_entries r1 k = None}"
    by (simp add: allocated_def Let_def)
  then show ?thesis using 1(1,7,12) by auto
qed

theorem reserve_retires_evicted_witness:
  "\<exists>r' e. ring_reserve demo_ring (StateKey [1] [3]) [demo_slot, demo_slot] RawPayload = Some (r', e) \<and>
     StateKey [1] [2] \<in> set (rb_retired r')"
proof -
  obtain r' e where res: "ring_reserve demo_ring (StateKey [1] [3]) [demo_slot, demo_slot] RawPayload = Some (r', e)"
    and "rb_entries r' (StateKey [1] [2]) = None"
    by (simp add: reserve_defs demo_ring_def demo_entry_def demo_slot_def is_writing_def Let_def)
  moreover have "rb_entries demo_ring (StateKey [1] [2]) \<noteq> None" by (simp add: demo_ring_def)
  ultimately show ?thesis using reserve_retires_evicted [OF demo_ring_reach res] by auto
qed



end
