(* ===== verification/Residency_Inventory.thy ===== *)
theory Residency_Inventory
  imports Global_Index "HOL-Library.Sublist"
begin

text \<open>
  The residency inventory of an owner (\<open>orbitkv-core/src/storage/inventory.rs\<close>): the resident records,
  the bounded journal of changes, the paged snapshot and the coalesced deltas read from it.

  \<^item> The outer \<open>None\<close> of an operation is a panic or a loop that never ends; the read errors are values.
  \<^item> \<open>size_of::<InventoryRecord>()\<close> is the argument \<open>sz\<close>, the readings of the clocks are arguments
    (\<open>clock\<close>, \<open>micros\<close>).
  \<^item> The values held by the two watch channels are the fields \<open>iv_changed\<close> and \<open>iv_flush_requested\<close>.
  \<^item> \<open>wait_to_publish\<close> (timers of the asynchronous runtime) is not modelled.
\<close>

section \<open>State\<close>

record inventory =
  iv_residents :: residence_map
  iv_journal :: "inventory_record list"
  iv_sequence :: nat
  iv_journal_bytes :: nat
  iv_journal_bytes_peak :: nat
  iv_byte_limit :: nat
  iv_history_gaps :: nat
  iv_last_change_mono_ns :: nat
  iv_flush_through_sequence :: nat
  iv_delta_input_records :: nat
  iv_delta_input_bytes :: nat
  iv_delta_output_records :: nat
  iv_delta_frames :: nat
  iv_delta_encoded_bytes :: nat
  iv_coalescing_windows :: nat
  iv_coalescing_wait_micros :: nat
  iv_scope_filter_input_records :: nat
  iv_scope_filter_output_records :: nat
  iv_scope_filter_micros :: nat
  iv_changed :: nat
  iv_flush_requested :: nat
  iv_publish_coalesce_window :: duration

record inventory_delta =
  id_through :: nat
  id_records :: "inventory_record list"
  id_input_records :: nat
  id_input_bytes :: nat

record inventory_page =
  pg_records :: "inventory_record list"
  pg_next :: "residence option"
  pg_complete :: bool

datatype read_error = HistoryGap | RecordTooLarge | InvalidRecord

definition with_publish_coalescing :: "nat \<Rightarrow> duration \<Rightarrow> string + inventory" where
  "with_publish_coalescing byte_limit window =
     (if window > 5000000 then Inl ''inventory publication coalescing cannot exceed 5 ms''
      else Inr
        \<lparr>iv_residents = [], iv_journal = [], iv_sequence = 0, iv_journal_bytes = 0, iv_journal_bytes_peak = 0,
         iv_byte_limit = byte_limit, iv_history_gaps = 0, iv_last_change_mono_ns = 0,
         iv_flush_through_sequence = 0, iv_delta_input_records = 0, iv_delta_input_bytes = 0,
         iv_delta_output_records = 0, iv_delta_frames = 0, iv_delta_encoded_bytes = 0,
         iv_coalescing_windows = 0, iv_coalescing_wait_micros = 0, iv_scope_filter_input_records = 0,
         iv_scope_filter_output_records = 0, iv_scope_filter_micros = 0, iv_changed = 0,
         iv_flush_requested = 0, iv_publish_coalesce_window = window\<rparr>)"

definition inventory_new :: "nat \<Rightarrow> inventory option" where
  "inventory_new byte_limit = (case with_publish_coalescing byte_limit 0 of Inl _ \<Rightarrow> None | Inr iv \<Rightarrow> Some iv)"

record inventory_status =
  is_sequence :: nat
  is_resident_records :: nat
  is_journal_records :: nat
  is_journal_bytes :: nat
  is_journal_bytes_peak :: nat
  is_journal_capacity_bytes :: nat
  is_history_gaps :: nat
  is_last_change_mono_ns :: nat
  is_flush_through_sequence :: nat
  is_delta_input_records :: nat
  is_delta_input_bytes :: nat
  is_delta_output_records :: nat
  is_delta_frames :: nat
  is_delta_encoded_bytes :: nat
  is_coalescing_windows :: nat
  is_coalescing_wait_micros :: nat
  is_scope_filter_input_records :: nat
  is_scope_filter_output_records :: nat
  is_scope_filter_micros :: nat

definition inventory_status_of :: "inventory \<Rightarrow> inventory_status" where
  "inventory_status_of iv =
     \<lparr>is_sequence = iv_sequence iv, is_resident_records = length (iv_residents iv),
      is_journal_records = length (iv_journal iv), is_journal_bytes = iv_journal_bytes iv,
      is_journal_bytes_peak = iv_journal_bytes_peak iv, is_journal_capacity_bytes = iv_byte_limit iv,
      is_history_gaps = iv_history_gaps iv, is_last_change_mono_ns = iv_last_change_mono_ns iv,
      is_flush_through_sequence = iv_flush_through_sequence iv,
      is_delta_input_records = iv_delta_input_records iv, is_delta_input_bytes = iv_delta_input_bytes iv,
      is_delta_output_records = iv_delta_output_records iv, is_delta_frames = iv_delta_frames iv,
      is_delta_encoded_bytes = iv_delta_encoded_bytes iv, is_coalescing_windows = iv_coalescing_windows iv,
      is_coalescing_wait_micros = iv_coalescing_wait_micros iv,
      is_scope_filter_input_records = iv_scope_filter_input_records iv,
      is_scope_filter_output_records = iv_scope_filter_output_records iv,
      is_scope_filter_micros = iv_scope_filter_micros iv\<rparr>"

section \<open>Changes\<close>

text \<open>The record a change appends, if it changes anything; \<open>sequence\<close> is the one after the current.\<close>

definition change_record ::
  "inventory \<Rightarrow> state_key \<Rightarrow> replica_medium \<Rightarrow> replica_metadata option \<Rightarrow> inventory_record option" where
  "change_record iv key m md =
     (let old = Option.bind (map_of (iv_residents iv) (key, m)) rec_metadata in
      if old = md then None
      else Some \<lparr>rec_key = key, rec_sequence = iv_sequence iv + 1, rec_present = (md \<noteq> None),
                 rec_metadata = (case md of None \<Rightarrow> old | Some x \<Rightarrow> Some x)\<rparr>)"

text \<open>The loop that drops the oldest records; over an empty journal it would never end.\<close>

fun trim_journal ::
  "nat \<Rightarrow> nat \<Rightarrow> nat \<Rightarrow> inventory_record list \<Rightarrow> (inventory_record list \<times> nat) option" where
  "trim_journal sz limit bytes [] = (if bytes > limit then None else Some ([], bytes))"
| "trim_journal sz limit bytes (r # rs) =
     (if bytes > limit
      then do { rest \<leftarrow> usub bytes (record_estimated_size sz r); trim_journal sz limit rest rs }
      else Some (r # rs, bytes))"

definition inventory_change ::
  "nat \<Rightarrow> (int \<times> int) option \<Rightarrow> inventory \<Rightarrow> state_key \<Rightarrow> replica_medium \<Rightarrow> replica_metadata option \<Rightarrow>
   inventory option" where
  "inventory_change sz clock iv key m md =
     (if \<not> (m = Dram \<or> m = Ssd) \<or> (case md of None \<Rightarrow> False | Some x \<Rightarrow> medium x \<noteq> m) then None
      else
        (case change_record iv key m md of
           None \<Rightarrow> Some iv
         | Some r \<Rightarrow> do {
             sequence \<leftarrow> checked_add (iv_sequence iv) 1;
             (journal, bytes) \<leftarrow> trim_journal sz (iv_byte_limit iv)
               (iv_journal_bytes iv + record_estimated_size sz r) (iv_journal iv @ [r]);
             Some (iv\<lparr>iv_sequence := sequence,
                      iv_residents := (if rec_present r then bt_insert (key, m) r (iv_residents iv)
                                       else bt_remove (key, m) (iv_residents iv)),
                      iv_journal := journal, iv_journal_bytes := bytes,
                      iv_journal_bytes_peak := max (iv_journal_bytes_peak iv) bytes,
                      iv_last_change_mono_ns := monotonic_ns clock, iv_changed := sequence\<rparr>) }))"

section \<open>Reads\<close>

fun page_loop ::
  "nat \<Rightarrow> inventory_scope \<Rightarrow> nat \<Rightarrow> nat \<Rightarrow> inventory_record list \<Rightarrow> residence option \<Rightarrow>
   (residence \<times> inventory_record) list \<Rightarrow>
   read_error + inventory_record list \<times> residence option \<times> bool \<times> nat" where
  "page_loop sz scope scanned scanned_bytes records next_id [] = Inr (records, next_id, True, scanned)"
| "page_loop sz scope scanned scanned_bytes records next_id ((ident, r) # source) =
     (let bytes = record_estimated_size sz r in
      if scanned = INVENTORY_BATCH_RECORDS \<or> (scanned > 0 \<and> scanned_bytes + bytes > INVENTORY_BATCH_BYTES)
      then Inr (records, next_id, False, scanned)
      else if scanned = 0 \<and> bytes > INVENTORY_BATCH_BYTES then Inl RecordTooLarge
      else page_loop sz scope (scanned + 1) (scanned_bytes + bytes)
             (if scope_contains scope (namespace (rec_key r)) then records @ [r] else records)
             (Some ident) source)"

definition residents_after :: "inventory \<Rightarrow> residence option \<Rightarrow> (residence \<times> inventory_record) list" where
  "residents_after iv after =
     (case after of None \<Rightarrow> iv_residents iv | Some a \<Rightarrow> filter (\<lambda>e. a < fst e) (iv_residents iv))"

definition count_scope_filter :: "inventory \<Rightarrow> nat \<Rightarrow> nat \<Rightarrow> nat \<Rightarrow> inventory" where
  "count_scope_filter iv inputs outputs micros =
     iv\<lparr>iv_scope_filter_input_records := saturating_add (iv_scope_filter_input_records iv) inputs,
        iv_scope_filter_output_records := saturating_add (iv_scope_filter_output_records iv) outputs,
        iv_scope_filter_micros := saturating_add (iv_scope_filter_micros iv) (min micros u64_max)\<rparr>"

definition scoped_page ::
  "nat \<Rightarrow> nat \<Rightarrow> inventory \<Rightarrow> residence option \<Rightarrow> inventory_scope \<Rightarrow>
   inventory \<times> (read_error + inventory_page)" where
  "scoped_page sz micros iv after scope =
     (case page_loop sz scope 0 0 [] None (residents_after iv after) of
        Inl e \<Rightarrow> (iv, Inl e)
      | Inr (records, next_id, complete, inputs) \<Rightarrow>
          (count_scope_filter iv inputs (length records) micros,
           Inr \<lparr>pg_records = records, pg_next = next_id, pg_complete = complete\<rparr>))"

definition page ::
  "nat \<Rightarrow> nat \<Rightarrow> inventory \<Rightarrow> residence option \<Rightarrow> inventory \<times> (read_error + inventory_record list)" where
  "page sz micros iv after =
     (case scoped_page sz micros iv after AllNamespaces of
        (iv', Inl e) \<Rightarrow> (iv', Inl e)
      | (iv', Inr p) \<Rightarrow> (iv', Inr (pg_records p)))"

fun bounded_records_loop ::
  "nat \<Rightarrow> inventory_record list \<Rightarrow> nat \<Rightarrow> inventory_record list \<Rightarrow> read_error + inventory_record list" where
  "bounded_records_loop sz result bytes [] = Inr result"
| "bounded_records_loop sz result bytes (r # rs) =
     (let n = record_estimated_size sz r in
      if n > INVENTORY_BATCH_BYTES then Inl RecordTooLarge
      else if length result = INVENTORY_BATCH_RECORDS \<or> bytes + n > INVENTORY_BATCH_BYTES then Inr result
      else bounded_records_loop sz (result @ [r]) (bytes + n) rs)"

definition bounded_records :: "nat \<Rightarrow> inventory_record list \<Rightarrow> read_error + inventory_record list" where
  "bounded_records sz rs = bounded_records_loop sz [] 0 rs"

text \<open>\<open>VecDeque::range(start..end)\<close>, which panics outside the queue.\<close>

definition queue_range :: "'a list \<Rightarrow> nat \<Rightarrow> nat \<Rightarrow> 'a list option" where
  "queue_range q i j = (if i \<le> j \<and> j \<le> length q then Some (take (j - i) (drop i q)) else None)"

definition changes ::
  "nat \<Rightarrow> inventory \<Rightarrow> nat \<Rightarrow> nat \<Rightarrow> (inventory \<times> (read_error + inventory_record list)) option" where
  "changes sz iv after through =
     (if after > through \<or> through > iv_sequence iv \<or>
         (after \<noteq> iv_sequence iv \<and>
          (case iv_journal iv of [] \<Rightarrow> True | r # _ \<Rightarrow> rec_sequence r > after + 1))
      then Some (iv\<lparr>iv_history_gaps := saturating_add (iv_history_gaps iv) 1\<rparr>, Inl HistoryGap)
      else if after = through then Some (iv, Inr [])
      else
        (case iv_journal iv of
           [] \<Rightarrow> Some (iv, Inl HistoryGap)
         | r # _ \<Rightarrow> do {
             i \<leftarrow> usub (after + 1) (rec_sequence r);
             j \<leftarrow> usub through (rec_sequence r);
             rs \<leftarrow> queue_range (iv_journal iv) i (j + 1);
             Some (iv, bounded_records sz rs) }))"

fun coalesce ::
  "inventory_scope \<Rightarrow> residence_map \<Rightarrow> inventory_record list \<Rightarrow> read_error + residence_map" where
  "coalesce scope latest [] = Inr latest"
| "coalesce scope latest (r # rs) =
     (case rec_metadata r of
        None \<Rightarrow> Inl InvalidRecord
      | Some md \<Rightarrow>
          coalesce scope
            (if scope_contains scope (namespace (rec_key r)) then bt_insert (rec_key r, medium md) r latest
             else latest) rs)"

definition coalesced_changes_scoped ::
  "nat \<Rightarrow> nat \<Rightarrow> inventory \<Rightarrow> nat \<Rightarrow> nat \<Rightarrow> inventory_scope \<Rightarrow>
   (inventory \<times> (read_error + inventory_delta)) option" where
  "coalesced_changes_scoped sz micros iv after through scope =
     do { (iv1, res) \<leftarrow> changes sz iv after through;
          case res of
            Inl e \<Rightarrow> Some (iv1, Inl e)
          | Inr input \<Rightarrow>
              (case coalesce scope [] input of
                 Inl e \<Rightarrow> Some (iv1, Inl e)
               | Inr records \<Rightarrow>
                   Some (count_scope_filter iv1 (length input) (length records) micros,
                     Inr \<lparr>id_through = (if input = [] then after else rec_sequence (last input)),
                          id_records = bt_values records, id_input_records = length input,
                          id_input_bytes = (\<Sum>r\<leftarrow>input. record_estimated_size sz r)\<rparr>)) }"

definition coalesced_changes ::
  "nat \<Rightarrow> nat \<Rightarrow> inventory \<Rightarrow> nat \<Rightarrow> nat \<Rightarrow> (inventory \<times> (read_error + inventory_delta)) option" where
  "coalesced_changes sz micros iv after through = coalesced_changes_scoped sz micros iv after through AllNamespaces"

definition record_delta_stream ::
  "inventory \<Rightarrow> nat \<Rightarrow> nat \<Rightarrow> nat \<Rightarrow> nat \<Rightarrow> nat \<Rightarrow> duration \<Rightarrow> inventory" where
  "record_delta_stream iv input_records input_bytes output_records frames encoded_bytes waited =
     iv\<lparr>iv_delta_input_records := saturating_add (iv_delta_input_records iv) (min input_records u64_max),
        iv_delta_input_bytes := saturating_add (iv_delta_input_bytes iv) (min input_bytes u64_max),
        iv_delta_output_records := saturating_add (iv_delta_output_records iv) (min output_records u64_max),
        iv_delta_frames := saturating_add (iv_delta_frames iv) (min frames u64_max),
        iv_delta_encoded_bytes := saturating_add (iv_delta_encoded_bytes iv) (min encoded_bytes u64_max),
        iv_coalescing_windows := saturating_add (iv_coalescing_windows iv) 1,
        iv_coalescing_wait_micros :=
          saturating_add (iv_coalescing_wait_micros iv) (min (waited div 1000) u64_max)\<rparr>"

definition contains_record :: "inventory \<Rightarrow> inventory_record \<Rightarrow> replica_medium \<Rightarrow> bool" where
  "contains_record iv r m \<longleftrightarrow> rec_present r \<and>
     (case map_of (iv_residents iv) (rec_key r, m) of
        None \<Rightarrow> False | Some resident \<Rightarrow> rec_sequence resident = rec_sequence r)"

definition request_flush :: "inventory \<Rightarrow> nat \<Rightarrow> inventory" where
  "request_flush iv target =
     (let t = max (iv_flush_through_sequence iv) target in
      iv\<lparr>iv_flush_through_sequence := t, iv_flush_requested := t, iv_changed := iv_sequence iv\<rparr>)"

definition capture_fence :: "inventory \<Rightarrow> inventory \<times> nat" where
  "capture_fence iv = (request_flush iv (iv_sequence iv), iv_sequence iv)"

section \<open>The history of an inventory\<close>

text \<open>
  The records of every change so far, oldest first, are the history; the residents are what replaying it
  gives. \<open>scoped\<close> cuts a map of residents down to the namespaces of a scope.
\<close>

type_synonym inventory_state = "inventory \<times> inventory_record list"

definition residence_of :: "inventory_record \<Rightarrow> residence" where
  "residence_of r = (rec_key r, medium (the (rec_metadata r)))"

definition replay :: "inventory_record list \<Rightarrow> residence \<rightharpoonup> inventory_record" where
  "replay log = put_records (map (\<lambda>r. (residence_of r, r)) log) Map.empty"

definition scoped ::
  "inventory_scope \<Rightarrow> (residence \<rightharpoonup> inventory_record) \<Rightarrow> residence \<rightharpoonup> inventory_record" where
  "scoped scope f res = (if scope_contains scope (namespace (fst res)) then f res else None)"

definition kept :: "inventory_record \<Rightarrow> inventory_record option" where
  "kept r = (if rec_present r then Some r else None)"

definition log_ok :: "inventory_record list \<Rightarrow> bool" where
  "log_ok log \<longleftrightarrow>
     (\<forall>i<length log. rec_sequence (log ! i) = i + 1 \<and>
        (\<exists>md. rec_metadata (log ! i) = Some md \<and> medium md \<in> {Dram, Ssd}))"

definition inventory_inv :: "nat \<Rightarrow> inventory_state \<Rightarrow> bool" where
  "inventory_inv sz x \<longleftrightarrow>
     (case x of (iv, log) \<Rightarrow>
        iv_sequence iv = length log \<and> log_ok log \<and> suffix (iv_journal iv) log \<and>
        bt_wf (iv_residents iv) \<and> map_of (iv_residents iv) = replay log \<and>
        iv_journal_bytes iv = (\<Sum>r\<leftarrow>iv_journal iv. record_estimated_size sz r) \<and>
        iv_journal_bytes iv \<le> iv_byte_limit iv)"

inductive inventory_step :: "nat \<Rightarrow> inventory_state \<Rightarrow> inventory_state \<Rightarrow> bool" for sz where
  inv_change: "inventory_change sz clock iv key m md = Some iv' \<Longrightarrow>
     inventory_step sz (iv, log)
       (iv', log @ (case change_record iv key m md of None \<Rightarrow> [] | Some r \<Rightarrow> [r]))"
| inv_page: "inventory_step sz (iv, log) (fst (scoped_page sz micros iv after scope), log)"
| inv_delta: "coalesced_changes_scoped sz micros iv after through scope = Some (iv', res) \<Longrightarrow>
     inventory_step sz (iv, log) (iv', log)"
| inv_changes: "changes sz iv after through = Some (iv', res') \<Longrightarrow> inventory_step sz (iv, log) (iv', log)"
| inv_record: "inventory_step sz (iv, log)
     (record_delta_stream iv inputs bytes outputs frames encoded waited, log)"
| inv_flush: "inventory_step sz (iv, log) (request_flush iv target, log)"
| inv_fence: "inventory_step sz (iv, log) (fst (capture_fence iv), log)"

definition inventory_start :: "inventory_state \<Rightarrow> bool" where
  "inventory_start x \<longleftrightarrow> (\<exists>limit window. with_publish_coalescing limit window = Inr (fst x)) \<and> snd x = []"

subsection \<open>Replaying\<close>

lemma put_records_last:
  "put_records us f res = (case map_of (rev us) res of None \<Rightarrow> f res | Some r \<Rightarrow> kept r)"
  by (induction us arbitrary: f) (auto simp: kept_def map_add_def split: option.splits prod.splits)

lemma put_records_append: "put_records (us @ ws) f = put_records ws (put_records us f)"
  by (simp add: put_records_def)

text \<open>The last record of a residence in a list of records.\<close>

definition latest_of :: "inventory_record list \<Rightarrow> residence \<rightharpoonup> inventory_record" where
  "latest_of rs = map_of (rev (map (\<lambda>r. (residence_of r, r)) rs))"

lemma latest_of_simps [simp]:
  "latest_of [] = Map.empty"
  "latest_of (rs @ [r]) = (latest_of rs)(residence_of r \<mapsto> r)"
  by (simp_all add: latest_of_def)

lemma latest_of_append: "latest_of (xs @ ys) = latest_of xs ++ latest_of ys"
  by (simp add: latest_of_def)

lemma latest_of_Some:
  "latest_of rs res = Some r \<Longrightarrow> r \<in> set rs \<and> residence_of r = res"
  by (auto simp: latest_of_def dest: map_of_SomeD)

lemma latest_of_None: "latest_of rs res = None \<longleftrightarrow> res \<notin> residence_of ` set rs"
  by (simp add: latest_of_def map_of_eq_None_iff image_image)

lemma replay_append:
  "replay (xs @ ys) res = (case latest_of ys res of None \<Rightarrow> replay xs res | Some r \<Rightarrow> kept r)"
  by (simp add: replay_def put_records_append put_records_last [of "map _ ys"] latest_of_def split: option.split)

lemma replay_snoc: "replay (log @ [r]) = (replay log)(residence_of r := kept r)"
  by (auto simp: replay_append latest_of_def)

lemma replay_latest: "replay log res = Option.bind (latest_of log res) kept"
  using replay_append [of "[]" log res] by (auto simp: replay_def split: option.splits)

lemma replay_Some: "replay log res = Some r \<Longrightarrow> r \<in> set log \<and> residence_of r = res \<and> rec_present r"
  by (auto simp: replay_latest kept_def bind_eq_Some_conv dest: latest_of_Some split: if_splits)

lemma log_ok_append: "log_ok (xs @ ys) \<Longrightarrow> log_ok xs"
  unfolding log_ok_def by (metis length_append nth_append trans_less_add1)

lemma log_ok_snoc:
  "log_ok (log @ [r]) \<longleftrightarrow>
     log_ok log \<and> rec_sequence r = length log + 1 \<and> (\<exists>md. rec_metadata r = Some md \<and> medium md \<in> {Dram, Ssd})"
  by (auto simp: log_ok_def nth_append less_Suc_eq)

lemma log_ok_set:
  assumes "log_ok log" and "r \<in> set log"
  shows "0 < rec_sequence r" and "rec_sequence r \<le> length log" and "log ! (rec_sequence r - 1) = r"
    and "\<exists>md. rec_metadata r = Some md \<and> medium md \<in> {Dram, Ssd}"
proof -
  obtain i where i: "i < length log" "log ! i = r" using assms(2) by (auto simp: in_set_conv_nth)
  then have "rec_sequence r = i + 1" "\<exists>md. rec_metadata r = Some md \<and> medium md \<in> {Dram, Ssd}"
    using assms(1) by (auto simp: log_ok_def)
  then show "0 < rec_sequence r" "rec_sequence r \<le> length log" "log ! (rec_sequence r - 1) = r"
    "\<exists>md. rec_metadata r = Some md \<and> medium md \<in> {Dram, Ssd}" using i by auto
qed

subsection \<open>The invariant is kept\<close>

lemma trim_journal_ok:
  assumes "bytes = (\<Sum>r\<leftarrow>journal. record_estimated_size sz r)"
  shows "\<exists>j. trim_journal sz limit bytes journal = Some (j, \<Sum>r\<leftarrow>j. record_estimated_size sz r) \<and>
    suffix j journal \<and> (\<Sum>r\<leftarrow>j. record_estimated_size sz r) \<le> limit"
  using assms
proof (induction journal arbitrary: bytes)
  case (Cons r rs)
  obtain j where "trim_journal sz limit (\<Sum>r\<leftarrow>rs. record_estimated_size sz r) rs =
      Some (j, \<Sum>r\<leftarrow>j. record_estimated_size sz r)"
    "suffix j rs" "(\<Sum>r\<leftarrow>j. record_estimated_size sz r) \<le> limit"
    using Cons.IH by blast
  then show ?case using Cons.prems by (auto simp: usub_eq_Some_iff usub_def intro: suffix_ConsI)
qed simp

lemma replay_resident:
  assumes "inventory_inv sz (iv, log)" and "map_of (iv_residents iv) res = Some r"
  shows "residence_of r = res" and "rec_present r" and "\<exists>md. rec_metadata r = Some md \<and> medium md = snd res"
proof -
  have "replay log res = Some r" "log_ok log" using assms by (simp_all add: inventory_inv_def)
  then show "residence_of r = res" "rec_present r" "\<exists>md. rec_metadata r = Some md \<and> medium md = snd res"
    using replay_Some log_ok_set(4) by (fastforce simp: residence_of_def)+
qed

text \<open>What a change appends to the history: a record of the changed residence with the next number.\<close>

lemma change_record_Some:
  assumes inv: "inventory_inv sz (iv, log)" and "change_record iv key m md = Some r"
    and "m = Dram \<or> m = Ssd" and "case md of None \<Rightarrow> True | Some x \<Rightarrow> medium x = m"
  shows "rec_sequence r = length log + 1" and "residence_of r = (key, m)" and "rec_present r \<longleftrightarrow> md \<noteq> None"
    and "\<exists>x. rec_metadata r = Some x \<and> medium x \<in> {Dram, Ssd}"
proof -
  have seq: "iv_sequence iv = length log" using inv by (simp add: inventory_inv_def)
  have old: "medium x = m" if "Option.bind (map_of (iv_residents iv) (key, m)) rec_metadata = Some x" for x
    using that replay_resident(3) [OF inv, of "(key, m)"] by (auto simp: bind_eq_Some_conv)
  show "rec_sequence r = length log + 1" "rec_present r \<longleftrightarrow> md \<noteq> None"
    using assms(2) seq by (auto simp: change_record_def Let_def split: if_splits)
  obtain x where x: "rec_metadata r = Some x" "medium x = m"
    using assms(2,4) old by (auto simp: change_record_def Let_def split: if_splits option.splits)
  then show "\<exists>x. rec_metadata r = Some x \<and> medium x \<in> {Dram, Ssd}" using assms(3) by auto
  show "residence_of r = (key, m)"
    using assms(2) x by (auto simp: residence_of_def change_record_def Let_def split: if_splits)
qed

text \<open>A well-formed change of an inventory that keeps the invariant ends and keeps it.\<close>

lemma inventory_change_ok:
  assumes inv: "inventory_inv sz (iv, log)" and "m = Dram \<or> m = Ssd"
    and "case md of None \<Rightarrow> True | Some x \<Rightarrow> medium x = m" and "iv_sequence iv < u64_max"
  shows "\<exists>iv'. inventory_change sz clock iv key m md = Some iv' \<and>
    inventory_inv sz (iv', log @ (case change_record iv key m md of None \<Rightarrow> [] | Some r \<Rightarrow> [r]))"
proof (cases "change_record iv key m md")
  case None
  then show ?thesis using assms by (auto simp: inventory_change_def split: option.splits)
next
  case (Some r)
  note r = change_record_Some [OF inv Some assms(2,3)]
  have i: "iv_sequence iv = length log" "log_ok log" "suffix (iv_journal iv) log" "bt_wf (iv_residents iv)"
    "map_of (iv_residents iv) = replay log"
    "iv_journal_bytes iv = (\<Sum>r\<leftarrow>iv_journal iv. record_estimated_size sz r)"
    using inv by (simp_all add: inventory_inv_def)
  obtain j where j: "trim_journal sz (iv_byte_limit iv) (iv_journal_bytes iv + record_estimated_size sz r)
        (iv_journal iv @ [r]) = Some (j, \<Sum>r\<leftarrow>j. record_estimated_size sz r)"
    "suffix j (iv_journal iv @ [r])" "(\<Sum>r\<leftarrow>j. record_estimated_size sz r) \<le> iv_byte_limit iv"
    using trim_journal_ok [of "iv_journal_bytes iv + record_estimated_size sz r" sz "iv_journal iv @ [r]"] i(6)
    by auto
  have "suffix (iv_journal iv @ [r]) (log @ [r])" using i(3) by (auto simp: suffix_def)
  then have sfx: "suffix j (log @ [r])" using j(2) suffix_order.trans by blast
  have "log_ok (log @ [r])" using i(2) r by (auto simp: log_ok_snoc)
  moreover have "replay (log @ [r]) = (replay log)((key, m) := kept r)" using r(2) by (simp add: replay_snoc)
  ultimately show ?thesis
    using Some assms(2-4) j(1,3) sfx i
    by (auto simp: inventory_change_def inventory_inv_def checked_add_def kept_def split: option.splits)
qed

lemma inventory_change_Some:
  assumes "inventory_change sz clock iv key m md = Some iv'"
  shows "m = Dram \<or> m = Ssd" and "case md of None \<Rightarrow> True | Some x \<Rightarrow> medium x = m"
    and "change_record iv key m md \<noteq> None \<Longrightarrow> iv_sequence iv < u64_max"
  using assms
  by (auto simp: inventory_change_def checked_add_def split: option.splits if_splits Option.bind_splits)

lemma inventory_change_inv:
  assumes inv: "inventory_inv sz (iv, log)" and "inventory_change sz clock iv key m md = Some iv'"
  shows "inventory_inv sz (iv', log @ (case change_record iv key m md of None \<Rightarrow> [] | Some r \<Rightarrow> [r]))"
proof (cases "change_record iv key m md")
  case None
  then show ?thesis using assms by (auto simp: inventory_change_def split: if_splits)
next
  case (Some r)
  then show ?thesis
    using inventory_change_ok [OF inv inventory_change_Some(1,2) [OF assms(2)], of clock key]
      inventory_change_Some(3) [OF assms(2)] assms(2) by auto
qed

lemma inventory_inv_cong:
  assumes "inventory_inv sz (iv, log)" and "iv_sequence iv' = iv_sequence iv" and "iv_journal iv' = iv_journal iv"
    and "iv_residents iv' = iv_residents iv" and "iv_journal_bytes iv' = iv_journal_bytes iv"
    and "iv_byte_limit iv' = iv_byte_limit iv"
  shows "inventory_inv sz (iv', log)"
  using assms by (simp add: inventory_inv_def)

lemma changes_frame:
  assumes "changes sz iv after through = Some (iv', res)"
  shows "iv' = iv \<or> iv' = iv\<lparr>iv_history_gaps := saturating_add (iv_history_gaps iv) 1\<rparr>"
  using assms by (auto simp: changes_def split: if_splits list.splits Option.bind_splits)

lemma coalesced_frame:
  assumes "coalesced_changes_scoped sz micros iv after through scope = Some (iv', res)"
  shows "\<exists>iv1 res1 inputs outputs. changes sz iv after through = Some (iv1, res1) \<and>
    (iv' = iv1 \<or> iv' = count_scope_filter iv1 inputs outputs micros)"
proof -
  obtain iv1 res1 where c: "changes sz iv after through = Some (iv1, res1)"
    using assms by (auto simp: coalesced_changes_scoped_def bind_eq_Some_conv)
  then show ?thesis using assms by (cases res1) (auto simp: coalesced_changes_scoped_def split: sum.splits)
qed

lemma scoped_page_frame:
  "\<exists>inputs outputs. fst (scoped_page sz micros iv after scope) \<in> {iv, count_scope_filter iv inputs outputs micros}"
  by (auto simp: scoped_page_def split: sum.splits)

lemma inventory_step_inv:
  assumes "inventory_inv sz x" and "inventory_step sz x y"
  shows "inventory_inv sz y"
  using assms(2,1)
proof cases
  case (inv_change clock iv key m md iv' log)
  then show ?thesis using inventory_change_inv assms(1) by simp
next
  case (inv_page iv log micros after scope)
  then show ?thesis
    using assms(1) scoped_page_frame [of sz micros iv after scope]
    by (auto elim!: inventory_inv_cong simp: count_scope_filter_def)
next
  case (inv_delta micros iv after through scope iv' res log)
  then show ?thesis
    using assms(1) by (auto elim!: inventory_inv_cong dest!: coalesced_frame changes_frame simp: count_scope_filter_def)
next
  case (inv_changes iv after through iv' res' log)
  then show ?thesis using assms(1) by (auto elim!: inventory_inv_cong dest!: changes_frame)
next
  case (inv_record iv log inputs bytes outputs frames encoded waited)
  then show ?thesis using assms(1) by (auto elim!: inventory_inv_cong simp: record_delta_stream_def)
next
  case (inv_flush iv log target)
  then show ?thesis using assms(1) by (auto elim!: inventory_inv_cong simp: request_flush_def Let_def)
next
  case (inv_fence iv log)
  then show ?thesis
    using assms(1) by (auto elim!: inventory_inv_cong simp: capture_fence_def request_flush_def Let_def)
qed

interpretation iv: invariant_system inventory_start "inventory_step sz" "inventory_inv sz" for sz
proof
  show "inventory_inv sz x" if "inventory_start x" for x
    using that
    by (cases x) (auto simp: inventory_start_def with_publish_coalescing_def inventory_inv_def log_ok_def
        replay_def split: if_splits)
  show "inventory_inv sz y" if "inventory_inv sz x" and "inventory_step sz x y" for x y
    using that by (rule inventory_step_inv)
qed

abbreviation inventory_reach :: "nat \<Rightarrow> inventory_state \<Rightarrow> bool" where
  "inventory_reach sz \<equiv> reach inventory_start (inventory_step sz)"

section \<open>What the reads return\<close>

lemma bounded_records_loop_prefix:
  assumes "bounded_records_loop sz result bytes rs = Inr out"
  shows "\<exists>n\<le>length rs. out = result @ take n rs \<and> (rs \<noteq> [] \<longrightarrow> result = [] \<longrightarrow> bytes = 0 \<longrightarrow> 0 < n)"
  using assms
proof (induction sz result bytes rs rule: bounded_records_loop.induct)
  case (2 sz result bytes r rs)
  show ?case
  proof (cases "length result = INVENTORY_BATCH_RECORDS \<or> bytes + record_estimated_size sz r > INVENTORY_BATCH_BYTES")
    case True
    then show ?thesis using "2.prems"
      by (intro exI [of _ 0]) (auto simp: Let_def INVENTORY_BATCH_RECORDS_def split: if_splits)
  next
    case False
    then obtain n where "n \<le> length rs" "out = (result @ [r]) @ take n rs"
      using 2 by (fastforce simp: Let_def split: if_splits)
    then show ?thesis by (intro exI [of _ "Suc n"]) simp
  qed
qed simp

lemma bounded_records_loop_error: "bounded_records_loop sz result bytes rs = Inl e \<Longrightarrow> e = RecordTooLarge"
  by (induction sz result bytes rs rule: bounded_records_loop.induct) (auto simp: Let_def split: if_splits)

lemma journal_segment:
  assumes inv: "inventory_inv sz (iv, log)" and journal: "iv_journal iv = r # rest"
    and "rec_sequence r \<le> after + 1" and "after < through" and "through \<le> iv_sequence iv"
  shows "usub (after + 1) (rec_sequence r) = Some (after + 1 - rec_sequence r)"
    and "usub through (rec_sequence r) = Some (through - rec_sequence r)"
    and "queue_range (iv_journal iv) (after + 1 - rec_sequence r) (through - rec_sequence r + 1) =
      Some (take (through - after) (drop after log))"
proof -
  obtain pre where pre: "log = pre @ iv_journal iv"
    using inv by (auto simp: inventory_inv_def suffix_def)
  have "log ! length pre = r" "length pre < length log" using journal pre by simp_all
  then have r: "rec_sequence r = length pre + 1" using inv by (auto simp: inventory_inv_def log_ok_def)
  have len: "length log = iv_sequence iv" using inv by (simp add: inventory_inv_def)
  show "usub (after + 1) (rec_sequence r) = Some (after + 1 - rec_sequence r)"
    "usub through (rec_sequence r) = Some (through - rec_sequence r)"
    using assms(3,4) by (simp_all add: usub_def)
  have "drop after log = drop (after - length pre) (iv_journal iv)" using assms(3) r by (simp add: pre)
  moreover have "through - length pre \<le> length (iv_journal iv)" using assms(5) len by (simp add: pre)
  moreover have "through - rec_sequence r + 1 = through - length pre" "after + 1 - rec_sequence r = after - length pre"
    using assms(3,4) r by simp_all
  ultimately show "queue_range (iv_journal iv) (after + 1 - rec_sequence r) (through - rec_sequence r + 1) =
      Some (take (through - after) (drop after log))"
    using assms(3,4) r by (simp add: queue_range_def)
qed

text \<open>A read of the journal never panics; what it returns is the segment of the history after \<open>after\<close>, cut
  off at the batch bounds but never empty while there is something to read.\<close>

lemma changes_exact:
  assumes inv: "inventory_inv sz (iv, log)"
  shows "\<exists>iv' res. changes sz iv after through = Some (iv', res) \<and>
    (\<forall>rs. res = Inr rs \<longrightarrow> after \<le> through \<and> through \<le> length log \<and>
      (\<exists>n. after \<le> n \<and> n \<le> through \<and> rs = take (n - after) (drop after log) \<and> (after < through \<longrightarrow> after < n)))"
proof -
  have len: "iv_sequence iv = length log" using inv by (simp add: inventory_inv_def)
  let ?gap = "after > through \<or> through > iv_sequence iv \<or>
         (after \<noteq> iv_sequence iv \<and> (case iv_journal iv of [] \<Rightarrow> True | r # _ \<Rightarrow> rec_sequence r > after + 1))"
  consider (gap) ?gap | (none) "after = through" "through \<le> iv_sequence iv" | (other) "\<not> ?gap" "after \<noteq> through"
    by linarith
  then show ?thesis
  proof cases
    case gap
    then show ?thesis by (simp add: changes_def)
  next
    case none
    then show ?thesis using len by (auto simp: changes_def)
  next
    case other
    then obtain r rest where read: "iv_journal iv = r # rest" "rec_sequence r \<le> after + 1" "after < through"
        "through \<le> iv_sequence iv"
      by (cases "iv_journal iv") auto
    note seg = journal_segment [OF inv read]
    let ?rs = "take (through - after) (drop after log)"
    have eq: "changes sz iv after through = Some (iv, bounded_records sz ?rs)"
      using read seg unfolding changes_def by (simp add: read(1))
    have rs: "?rs \<noteq> []" "length ?rs = through - after" using read(3,4) len by auto
    have "\<exists>n. after \<le> n \<and> n \<le> through \<and> out = take (n - after) (drop after log) \<and> (after < through \<longrightarrow> after < n)"
      if out: "bounded_records sz ?rs = Inr out" for out
    proof -
      obtain k where "k \<le> length ?rs" "out = take k ?rs" "0 < k"
        using bounded_records_loop_prefix [OF out [unfolded bounded_records_def]] rs(1) by auto
      then show ?thesis using rs(2) by (intro exI [of _ "after + k"]) auto
    qed
    then show ?thesis using eq read len by auto
  qed
qed

lemma coalesce_latest:
  assumes "coalesce scope latest rs = Inr out"
  shows "map_of out = map_of latest ++ latest_of (filter (\<lambda>r. scope_contains scope (namespace (rec_key r))) rs)"
    and "bt_wf latest \<Longrightarrow> bt_wf out"
proof -
  let ?in = "\<lambda>r. scope_contains scope (namespace (rec_key r))"
  have "map_of out = map_of latest ++ latest_of (filter ?in rs) \<and> (bt_wf latest \<longrightarrow> bt_wf out)"
    using assms
  proof (induction scope latest rs rule: coalesce.induct)
    case (2 scope latest r rs)
    then obtain md where "rec_metadata r = Some md" by (auto split: option.splits)
    then show ?case
      using 2 latest_of_append [of "[r]" "filter (\<lambda>r. scope_contains scope (namespace (rec_key r))) rs"]
      by (auto simp: residence_of_def latest_of_def map_add_assoc [symmetric] split: if_splits)
  qed simp
  then show "map_of out = map_of latest ++ latest_of (filter ?in rs)" "bt_wf latest \<Longrightarrow> bt_wf out" by simp_all
qed

definition segment :: "inventory_record list \<Rightarrow> nat \<Rightarrow> nat \<Rightarrow> inventory_record list" where
  "segment log a n = take (n - a) (drop a log)"

text \<open>The contents of a delta: for each residence in scope its last record of a segment of the history.\<close>

definition delta_of ::
  "inventory_record list \<Rightarrow> inventory_scope \<Rightarrow> nat \<Rightarrow> nat \<Rightarrow> residence_map \<Rightarrow> bool" where
  "delta_of log scope a n us \<longleftrightarrow> bt_wf us \<and> map_of us = scoped scope (latest_of (segment log a n))"

lemma latest_of_filter:
  "latest_of (filter (\<lambda>r. scope_contains scope (namespace (rec_key r))) rs) = scoped scope (latest_of rs)"
proof (induction rs rule: rev_induct)
  case (snoc r rs)
  then show ?case by (auto simp: scoped_def fun_eq_iff residence_of_def)
qed (simp add: scoped_def fun_eq_iff)

lemma coalesced_exact:
  assumes inv: "inventory_inv sz (iv, log)"
    and "coalesced_changes_scoped sz micros iv after through scope = Some (iv', Inr d)"
  shows "\<exists>us. id_records d = bt_values us \<and> delta_of log scope after (id_through d) us"
    and "after \<le> id_through d" and "id_through d \<le> through" and "through \<le> length log"
    and "after < through \<Longrightarrow> after < id_through d" and "id_input_records d = id_through d - after"
proof -
  obtain iv1 res where "changes sz iv after through = Some (iv1, res)"
    using assms(2) by (auto simp: coalesced_changes_scoped_def bind_eq_Some_conv)
  moreover from this obtain input where "res = Inr input"
    using assms(2) by (cases res) (auto simp: coalesced_changes_scoped_def)
  ultimately have c: "changes sz iv after through = Some (iv1, Inr input)" by simp
  then obtain n where n: "after \<le> n" "n \<le> through" "through \<le> length log" "input = segment log after n"
    "after < through \<longrightarrow> after < n"
    using changes_exact [OF inv, of after through] by (auto simp: segment_def)
  obtain us where us: "coalesce scope [] input = Inr us" "id_records d = bt_values us"
    "id_through d = (if input = [] then after else rec_sequence (last input))" "id_input_records d = length input"
    using assms(2) c by (auto simp: coalesced_changes_scoped_def split: sum.splits)
  have "rec_sequence (last input) = n" if "input \<noteq> []"
  proof -
    have len: "length input = n - after" "after < n" using that n by (auto simp: segment_def)
    then have "last input = log ! (after + (n - after - 1))"
      using that n by (simp add: last_conv_nth) (simp add: segment_def)
    then have "last input = log ! (n - 1)" using len by simp
    moreover have "n - 1 < length log" "0 < n" using len n by auto
    ultimately show ?thesis using inv by (auto simp: inventory_inv_def log_ok_def)
  qed
  moreover have "after = n" if "input = []" using that n by (auto simp: segment_def)
  ultimately have through: "id_through d = n" using us(3) by auto
  have "delta_of log scope after n us"
    using coalesce_latest [OF us(1)] by (simp add: delta_of_def latest_of_filter n(4))
  then show "\<exists>us. id_records d = bt_values us \<and> delta_of log scope after (id_through d) us"
    using us(2) through by auto
  show "after \<le> id_through d" "id_through d \<le> through" "through \<le> length log"
    "after < through \<Longrightarrow> after < id_through d" "id_input_records d = id_through d - after"
    using n through us(4) by (auto simp: segment_def)
qed

lemma coalesce_ok:
  assumes "\<forall>r\<in>set rs. rec_metadata r \<noteq> None"
  shows "\<exists>out. coalesce scope latest rs = Inr out"
  using assms by (induction scope latest rs rule: coalesce.induct) auto

text \<open>A coalesced read never panics and never meets a record without metadata.\<close>

lemma coalesced_total:
  assumes inv: "inventory_inv sz (iv, log)"
  shows "\<exists>iv' res. coalesced_changes_scoped sz micros iv after through scope = Some (iv', res) \<and>
    inventory_inv sz (iv', log) \<and> res \<noteq> Inl InvalidRecord"
proof -
  obtain iv1 res where c: "changes sz iv after through = Some (iv1, res)"
    and seg: "\<And>rs. res = Inr rs \<Longrightarrow> \<exists>n. rs = take (n - after) (drop after log)"
    using changes_exact [OF inv, of after through] by blast
  have "res \<noteq> Inl InvalidRecord"
    using c by (auto simp: changes_def bounded_records_def bind_eq_Some_conv split: if_splits list.splits
        dest: bounded_records_loop_error)
  moreover have "\<exists>out. coalesce scope [] rs = Inr out" if "res = Inr rs" for rs
  proof -
    have "set rs \<subseteq> set log" using seg [OF that] by (auto dest!: in_set_takeD in_set_dropD)
    moreover have "log_ok log" using inv by (simp add: inventory_inv_def)
    ultimately show ?thesis using coalesce_ok log_ok_set(4) by (metis option.distinct(1) subsetD)
  qed
  ultimately obtain iv' res' where r: "coalesced_changes_scoped sz micros iv after through scope = Some (iv', res')"
    "res' \<noteq> Inl InvalidRecord"
    using c by (cases res) (auto simp: coalesced_changes_scoped_def)
  then show ?thesis using inventory_step_inv [OF inv inv_delta [OF r(1)]] by blast
qed

section \<open>Replicas of an inventory\<close>

text \<open>
  A replica that is being built from pages read at different times and from deltas: every residence has
  the value it had at some time between \<open>q\<close>, up to which all changes are known to be covered, and \<open>hi\<close>.
\<close>

definition fuzzy ::
  "inventory_record list \<Rightarrow> inventory_scope \<Rightarrow> nat \<Rightarrow> nat \<Rightarrow> residence_map \<Rightarrow> bool" where
  "fuzzy log scope q hi records \<longleftrightarrow>
     (\<forall>res. \<exists>t. q \<le> t \<and> t \<le> hi \<and> map_of records res = scoped scope (replay (take t log)) res)"

lemma fuzzy_exact: "fuzzy log scope q q records \<longleftrightarrow> map_of records = scoped scope (replay (take q log))"
  by (force simp: fuzzy_def fun_eq_iff)

lemma fuzzy_weaken: "fuzzy log scope q hi records \<Longrightarrow> hi \<le> hi' \<Longrightarrow> fuzzy log scope q hi' records"
  unfolding fuzzy_def by (meson order_trans)

lemma take_segment: "a \<le> n \<Longrightarrow> take n log = take a log @ segment log a n"
  by (simp add: segment_def flip: take_add)

lemma segment_split: "a \<le> t \<Longrightarrow> t \<le> n \<Longrightarrow> segment log a n = segment log a t @ segment log t n"
  unfolding segment_def
  by (metis drop_drop le_add_diff_inverse ordered_cancel_comm_monoid_diff_class.add_diff_assoc2
      ordered_cancel_comm_monoid_diff_class.diff_add take_add)

lemma segment_sequence:
  assumes "log_ok log" and "r \<in> set (segment log a n)"
  shows "a < rec_sequence r" and "rec_sequence r \<le> n"
proof -
  obtain i where i: "i < length (segment log a n)" "segment log a n ! i = r"
    using assms(2) by (auto simp: in_set_conv_nth)
  then have "a + i < length log" "a + i < n" "log ! (a + i) = r" by (auto simp: segment_def)
  then show "a < rec_sequence r" "rec_sequence r \<le> n" using assms(1) by (auto simp: log_ok_def)
qed

lemma replay_quiet:
  assumes "q \<le> t" and "t \<le> n" and "latest_of (segment log q n) res = None"
  shows "replay (take n log) res = replay (take t log) res"
proof -
  have "latest_of (segment log t n) res = None"
    using assms(3) segment_split [OF assms(1,2), of log] by (simp add: latest_of_append)
  then show ?thesis using take_segment [OF assms(2), of log] by (simp add: replay_append)
qed

lemma latest_newest:
  assumes "log_ok log" and "latest_of (segment log q n) res = Some r" and "p \<in> set (segment log q n)"
    and "residence_of p = res"
  shows "rec_sequence p \<le> rec_sequence r"
proof (rule ccontr)
  assume lt: "\<not> ?thesis"
  have r: "r \<in> set (segment log q n)" using latest_of_Some [OF assms(2)] by simp
  let ?s = "rec_sequence r"
  have s: "q \<le> ?s" "?s \<le> n" using segment_sequence [OF assms(1) r] by simp_all
  have seg: "segment log q n = segment log q ?s @ segment log ?s n" by (rule segment_split [OF s])
  have "p \<notin> set (segment log q ?s)" using segment_sequence(2) [OF assms(1)] lt by blast
  then have "p \<in> set (segment log ?s n)" using assms(3) seg by simp
  then obtain x where x: "latest_of (segment log ?s n) res = Some x"
    using latest_of_None [of "segment log ?s n" res] assms(4) by fastforce
  then have "r = x" using assms(2) seg by (simp add: latest_of_append)
  then show False using x segment_sequence(1) [OF assms(1)] latest_of_Some by blast
qed

lemma scoped_Some: "scoped scope f res = Some r \<longleftrightarrow> scope_contains scope (namespace (fst res)) \<and> f res = Some r"
  by (auto simp: scoped_def)

text \<open>A value that is newer than the last change of a segment was read after that segment.\<close>

lemma newer_is_late:
  assumes log: "log_ok log" and "q \<le> t" and r: "latest_of (segment log q n) res = Some r"
    and p: "replay (take t log) res = Some p" "rec_sequence p > rec_sequence r"
  shows "n \<le> t"
proof (rule ccontr)
  assume late: "\<not> n \<le> t"
  have mem: "p \<in> set (take t log)" "residence_of p = res" using replay_Some [OF p(1)] by simp_all
  have split: "take t log = take q log @ segment log q t" "segment log q n = segment log q t @ segment log t n"
    by (rule take_segment [OF assms(2)]) (rule segment_split [OF assms(2)], use late in simp)
  have "r \<in> set (segment log q n)" using latest_of_Some [OF r] by simp
  then have "q < rec_sequence p" using segment_sequence(1) [OF log] p(2) by fastforce
  moreover have "rec_sequence x \<le> q" if "x \<in> set (take q log)" for x
    using segment_sequence(2) [OF log, of x 0 q] that by (simp add: segment_def)
  ultimately have "p \<in> set (segment log q n)" using mem(1) split by fastforce
  then show False using latest_newest [OF log r _ mem(2)] p(2) by simp
qed

text \<open>A delta moves the covered sequence of a replica forward, whatever time its parts are from.\<close>

lemma fuzzy_step:
  assumes log: "log_ok log" and fuzzy: "fuzzy log scope q hi records" and d: "delta_of log scope q n us"
    and "q \<le> n" and "n \<le> hi"
  shows "fuzzy log scope n hi (apply_records records us)"
  unfolding fuzzy_def
proof
  fix res
  obtain t where t: "q \<le> t" "t \<le> hi" "map_of records res = scoped scope (replay (take t log)) res"
    using fuzzy unfolding fuzzy_def by blast
  have distinct: "distinct (map fst us)" and us: "map_of us res = scoped scope (latest_of (segment log q n)) res"
    using d by (simp_all add: delta_of_def bt_wf_distinct)
  note get = apply_records_get [OF distinct, of records res]
  show "\<exists>t. n \<le> t \<and> t \<le> hi \<and> map_of (apply_records records us) res = scoped scope (replay (take t log)) res"
  proof (cases "map_of us res")
    case None
    then have out: "map_of (apply_records records us) res = scoped scope (replay (take t log)) res"
      using get t(3) by simp
    show ?thesis
    proof (cases "n \<le> t")
      case True
      then show ?thesis using out t(2) by blast
    next
      case False
      then have "scoped scope (replay (take n log)) res = scoped scope (replay (take t log)) res"
        using replay_quiet [of q t n log res] t(1) us None by (auto simp: scoped_def)
      then show ?thesis using out assms(5) by (intro exI [of _ n]) simp
    qed
  next
    case (Some r)
    then have r: "latest_of (segment log q n) res = Some r" "scope_contains scope (namespace (fst res))"
      using us by (auto simp: scoped_Some dest: sym)
    show ?thesis
    proof (cases "newer (map_of records res) r")
      case True
      then obtain p where p: "map_of records res = Some p" "rec_sequence p > rec_sequence r"
        by (cases "map_of records res") (simp_all add: newer_def)
      then have "replay (take t log) res = Some p" using t(3) scoped_Some by metis
      then have "n \<le> t" using newer_is_late [OF log t(1) r(1)] p(2) by blast
      moreover have "map_of (apply_records records us) res = map_of records res" using get Some True by simp
      ultimately show ?thesis using t by metis
    next
      case False
      then have "map_of (apply_records records us) res = kept r" using get Some by (simp add: kept_def)
      moreover have "scoped scope (replay (take n log)) res = kept r"
        using r take_segment [OF assms(4), of log] by (simp add: scoped_def replay_append)
      ultimately show ?thesis using assms(5) by (intro exI [of _ n]) simp
    qed
  qed
qed

lemma delta_exact:
  assumes "log_ok log" and "delta_of log scope q n us" and "q \<le> n"
    and "map_of records = scoped scope (replay (take q log))"
  shows "map_of (apply_records records us) = scoped scope (replay (take n log))"
proof -
  have "fuzzy log scope q n records" using assms(3,4) fuzzy_weaken fuzzy_exact by blast
  then show ?thesis using fuzzy_step [OF assms(1) _ assms(2,3)] fuzzy_exact by blast
qed

text \<open>The receiver's validation of a delta recovers exactly the updates the source coalesced.\<close>

lemma latest_records_values:
  assumes "latest_records scope lo hi acc (bt_values us) = Inr latest" and "bt_wf acc" and "distinct (map fst us)"
    and "\<forall>(res, r)\<in>set us. residence_of r = res" and "fst ` set us \<inter> fst ` set acc = {}"
  shows "map_of latest = map_of acc ++ map_of us \<and> bt_wf latest"
  using assms
proof (induction us arbitrary: acc)
  case (Cons u us)
  obtain res r where u: "u = (res, r)" by (cases u)
  have v: "validate_record r = Inr res"
    using Cons.prems(1,4) u
    by (auto simp: bt_values_def validate_record_Inr rbind_eq_Inr_iff residence_of_def split: if_splits)
  have "map_of acc res = None" using Cons.prems(5) u by (auto simp: map_of_eq_None_iff)
  then have "latest_records scope lo hi (bt_insert res r acc) (bt_values us) = Inr latest"
    using Cons.prems(1) v u by (auto simp: bt_values_def split: if_splits)
  moreover have "fst ` set us \<inter> fst ` set (bt_insert res r acc) = {}" using Cons.prems(3,5) u by auto
  ultimately have "map_of latest = map_of (bt_insert res r acc) ++ map_of us \<and> bt_wf latest"
    using Cons.IH [of "bt_insert res r acc"] Cons.prems u by (auto simp del: fun_upd_apply)
  moreover have "map_of us res = None" using Cons.prems(3) u by (auto simp: map_of_eq_None_iff)
  ultimately show ?case by (auto simp: u map_add_def fun_eq_iff split: option.splits)
qed (simp add: bt_values_def)

lemma delta_of_values:
  assumes "delta_of log scope q n us" and "latest_records scope lo hi [] (bt_values us) = Inr latest"
  shows "delta_of log scope q n latest"
proof -
  have us: "bt_wf us" "map_of us = scoped scope (latest_of (segment log q n))"
    using assms(1) by (auto simp: delta_of_def)
  have "residence_of r = res" if "(res, r) \<in> set us" for res r
    using that us latest_of_Some by (auto simp: in_set_iff_map_of scoped_def split: if_splits)
  then show ?thesis
    using latest_records_values [OF assms(2)] us by (fastforce simp: delta_of_def bt_wf_distinct)
qed

section \<open>Pages\<close>

lemma page_loop_take:
  assumes "page_loop sz scope scanned bytes acc cursor source = Inr (records, next_id, complete, inputs)"
  shows "\<exists>n\<le>length source.
    records = acc @ filter (\<lambda>r. scope_contains scope (namespace (rec_key r))) (map snd (take n source)) \<and>
    next_id = (if n = 0 then cursor else Some (fst (source ! (n - 1)))) \<and> (complete \<longleftrightarrow> n = length source) \<and>
    (scanned = 0 \<longrightarrow> source \<noteq> [] \<longrightarrow> 0 < n)"
  using assms
proof (induction sz scope scanned bytes acc cursor source rule: page_loop.induct)
  case (2 sz scope scanned bytes acc cursor ident r source)
  show ?case
  proof (cases "scanned = INVENTORY_BATCH_RECORDS \<or>
      (scanned > 0 \<and> bytes + record_estimated_size sz r > INVENTORY_BATCH_BYTES)")
    case True
    then show ?thesis using "2.prems"
      by (intro exI [of _ 0]) (auto simp: Let_def INVENTORY_BATCH_RECORDS_def)
  next
    case False
    then have "\<not> (scanned = 0 \<and> record_estimated_size sz r > INVENTORY_BATCH_BYTES)"
      using "2.prems" by (auto simp: Let_def)
    with 2 False obtain n where n: "n \<le> length source"
      "records = (if scope_contains scope (namespace (rec_key r)) then acc @ [r] else acc) @
         filter (\<lambda>r. scope_contains scope (namespace (rec_key r))) (map snd (take n source))"
      "next_id = (if n = 0 then Some ident else Some (fst (source ! (n - 1))))" "complete \<longleftrightarrow> n = length source"
      by (auto simp: Let_def)
    then show ?thesis by (intro exI [of _ "Suc n"]) (auto simp: nth_Cons')
  qed
qed simp

text \<open>
  The part of the residents a page covers: those after the cursor it was asked for and, unless it is the
  last one, not after the cursor it returns.
\<close>

definition covers :: "residence option \<Rightarrow> inventory_page \<Rightarrow> residence \<Rightarrow> bool" where
  "covers after p res \<longleftrightarrow> (case after of None \<Rightarrow> True | Some a \<Rightarrow> a < res) \<and>
     (pg_complete p \<or> (case pg_next p of None \<Rightarrow> False | Some b \<Rightarrow> res \<le> b))"

lemma bt_wf_take_keys:
  assumes "bt_wf m" and "0 < n" and "n \<le> length m"
  shows "k \<in> fst ` set (take n m) \<longleftrightarrow> k \<in> fst ` set m \<and> k \<le> fst (m ! (n - 1))"
proof -
  have sorted: "sorted_wrt (<) (map fst m)" using assms(1) by (simp add: bt_wf_def)
  have le: "fst (m ! i) \<le> fst (m ! (n - 1)) \<longleftrightarrow> i < n" if "i < length m" for i
    using sorted_wrt_nth_less [OF sorted, of i "n - 1"] sorted_wrt_nth_less [OF sorted, of "n - 1" i] that assms(2,3)
    by (cases i "n - 1" rule: linorder_cases) (auto simp: leD less_imp_le)
  show ?thesis
  proof
    assume "k \<in> fst ` set (take n m)"
    then obtain i where "i < n" "i < length m" "k = fst (m ! i)" by (auto simp: in_set_conv_nth)
    then show "k \<in> fst ` set m \<and> k \<le> fst (m ! (n - 1))" using le [of i] by auto
  next
    assume k: "k \<in> fst ` set m \<and> k \<le> fst (m ! (n - 1))"
    then obtain i where "i < length m" "k = fst (m ! i)" by (auto simp: in_set_conv_nth)
    then have "i < n" "m ! i \<in> set (take n m)" using le [of i] k \<open>i < length m\<close>
      by (auto simp: in_set_conv_nth intro!: exI [of _ i])
    then show "k \<in> fst ` set (take n m)" using \<open>k = fst (m ! i)\<close> by simp
  qed
qed

lemma residents_after_get:
  assumes "inventory_inv sz (iv, log)"
  shows "bt_wf (residents_after iv after)"
    and "map_of (residents_after iv after) res =
      (if case after of None \<Rightarrow> True | Some a \<Rightarrow> a < res then replay log res else None)"
    and "e \<in> set (residents_after iv after) \<Longrightarrow> residence_of (snd e) = fst e"
proof -
  have wf: "bt_wf (iv_residents iv)" "map_of (iv_residents iv) = replay log"
    using assms by (simp_all add: inventory_inv_def)
  show "bt_wf (residents_after iv after)" using wf(1) by (auto simp: residents_after_def intro: bt_wf_filter split: option.split)
  have "map_of (filter (\<lambda>e. P (fst e)) m) k = (if P k then map_of m k else None)"
    for P and k :: residence and m :: residence_map by (induction m) auto
  then show "map_of (residents_after iv after) res =
      (if case after of None \<Rightarrow> True | Some a \<Rightarrow> a < res then replay log res else None)"
    using wf(2) by (simp add: residents_after_def split: option.split)
  show "residence_of (snd e) = fst e" if "e \<in> set (residents_after iv after)"
  proof -
    have "e \<in> set (iv_residents iv)" using that by (simp add: residents_after_def split: option.splits)
    then have "map_of (iv_residents iv) (fst e) = Some (snd e)"
      using bt_wf_distinct [OF wf(1)] by (simp add: map_of_is_SomeI)
    then show ?thesis by (rule replay_resident(1) [OF assms])
  qed
qed

lemma map_of_filter_fst: "map_of (filter (\<lambda>e. P (fst e)) m) k = (if P k then map_of m k else None)"
  by (induction m) auto

lemma map_of_take: "map_of (take n m) k = (if k \<in> fst ` set (take n m) then map_of m k else None)"
proof -
  have "map_of m = map_of (drop n m) ++ map_of (take n m)" by (metis append_take_drop_id map_of_append)
  then show ?thesis by (auto simp: map_add_def map_of_eq_None_iff split: option.splits)
qed

lemma map_of_rev: "distinct (map fst m) \<Longrightarrow> map_of (rev m) = map_of m"
proof (induction m)
  case (Cons e m)
  then have "map_of m (fst e) = None" by (simp add: map_of_eq_None_iff)
  then show ?case using Cons by (auto simp: map_add_def fun_eq_iff split: option.splits)
qed simp

lemma page_exact:
  assumes inv: "inventory_inv sz (iv, log)" and "scoped_page sz micros iv after scope = (iv', Inr p)"
  shows "covers after p res \<Longrightarrow>
      map_of (map (\<lambda>r. (residence_of r, r)) (pg_records p)) res = scoped scope (replay log) res"
    and "r \<in> set (pg_records p) \<Longrightarrow> covers after p (residence_of r)"
    and "\<not> pg_complete p \<Longrightarrow> \<exists>b. pg_next p = Some b \<and> (case after of None \<Rightarrow> True | Some a \<Rightarrow> a < b)"
    and "latest_of (pg_records p) = map_of (map (\<lambda>r. (residence_of r, r)) (pg_records p))"
proof -
  define source where "source = residents_after iv after"
  let ?in = "\<lambda>r. scope_contains scope (namespace (rec_key r))"
  note src = residents_after_get [OF inv, where after = after, folded source_def]
  obtain n where n: "n \<le> length source" "pg_records p = filter ?in (map snd (take n source))"
    "pg_next p = (if n = 0 then None else Some (fst (source ! (n - 1))))"
    "pg_complete p \<longleftrightarrow> n = length source" "source \<noteq> [] \<longrightarrow> 0 < n"
    using assms(2) page_loop_take [of sz scope 0 0 "[]" None source]
    by (auto simp: scoped_page_def source_def split: sum.splits)
  have own: "residence_of (snd e) = fst e" "?in (snd e) = scope_contains scope (namespace (fst (fst e)))"
    if "e \<in> set (take n source)" for e
    using src(3) [OF in_set_takeD [OF that]] by (auto simp: residence_of_def prod_eq_iff)
  have "map (\<lambda>r. (residence_of r, r)) (pg_records p) =
      map (\<lambda>e. (residence_of (snd e), snd e)) (filter (\<lambda>e. ?in (snd e)) (take n source))"
    unfolding n(2) by (simp add: filter_map comp_def)
  also have "\<dots> = filter (\<lambda>e. ?in (snd e)) (take n source)"
    by (rule map_idI) (use own(1) in \<open>auto simp: prod_eq_iff\<close>)
  also have "\<dots> = filter (\<lambda>e. scope_contains scope (namespace (fst (fst e)))) (take n source)"
    by (rule filter_cong) (use own(2) in auto)
  finally have recs: "map (\<lambda>r. (residence_of r, r)) (pg_records p) =
      filter (\<lambda>e. scope_contains scope (namespace (fst (fst e)))) (take n source)" .
  have "distinct (map fst (take n source))"
    using bt_wf_distinct [OF src(1)] by (simp add: take_map [symmetric])
  then show "latest_of (pg_records p) = map_of (map (\<lambda>r. (residence_of r, r)) (pg_records p))"
    unfolding latest_of_def recs by (intro map_of_rev distinct_map_filter)
  have keys: "k \<in> fst ` set (take n source) \<longleftrightarrow> k \<in> fst ` set source \<and> (n = length source \<or> k \<le> fst (source ! (n - 1)))"
    for k using bt_wf_take_keys [OF src(1), of n k] n(1,5) by (cases "n = 0") (auto simp: take_all)
  have after: "case after of None \<Rightarrow> True | Some a \<Rightarrow> a < k" if "k \<in> fst ` set source" for k
    using that src(2) [of k] by (metis (mono_tags, lifting) map_of_eq_None_iff)
  show "map_of (map (\<lambda>r. (residence_of r, r)) (pg_records p)) res = scoped scope (replay log) res"
    if c: "covers after p res"
  proof -
    have "res \<in> fst ` set (take n source) \<longleftrightarrow> res \<in> fst ` set source"
      using c keys [of res] n(3,4) by (auto simp: covers_def split: if_splits)
    then have "map_of (take n source) res = map_of source res"
      by (metis map_of_eq_None_iff map_of_take)
    then show ?thesis
      using c src(2) [of res] by (simp add: recs map_of_filter_fst [of "\<lambda>k. scope_contains scope (namespace (fst k))"]
        scoped_def covers_def)
  qed
  show "covers after p (residence_of r)" if "r \<in> set (pg_records p)"
  proof -
    have "residence_of r \<in> fst ` set (take n source)" using that own(1) by (force simp: n(2))
    then show ?thesis using keys [of "residence_of r"] after n(3,4)
      by (auto simp: covers_def)
  qed
  show "\<exists>b. pg_next p = Some b \<and> (case after of None \<Rightarrow> True | Some a \<Rightarrow> a < b)" if "\<not> pg_complete p"
  proof -
    have "0 < n" "n - 1 < length source" using that n(1,4,5) by auto
    then show ?thesis using after [of "fst (source ! (n - 1))"] n(3) by (simp del: One_nat_def)
  qed
qed

section \<open>Properties\<close>

definition demo_md :: replica_metadata where
  "demo_md = \<lparr>medium = Dram, representation = Raw, stored_bytes = Some 64\<rparr>"

definition demo_change :: inventory_record where
  "demo_change = \<lparr>rec_key = StateKey [5] [6], rec_sequence = 1, rec_present = True, rec_metadata = Some demo_md\<rparr>"

definition demo_withdrawal :: inventory_record where
  "demo_withdrawal = demo_change\<lparr>rec_sequence := 2, rec_present := False\<rparr>"

definition demo_inventory :: inventory where
  "demo_inventory =
     the (do { iv0 \<leftarrow> inventory_new 200; iv1 \<leftarrow> inventory_change 96 None iv0 (StateKey [5] [6]) Dram (Some demo_md);
               inventory_change 96 None iv1 (StateKey [5] [6]) Dram None })"

lemmas inventory_eval = inventory_new_def with_publish_coalescing_def inventory_change_def change_record_def
  record_estimated_size_def usub_def checked_add_def u64_max_def monotonic_ns_def bt_remove_def Let_def

lemma demo_inventory_reach: "inventory_reach 96 (demo_inventory, [demo_change, demo_withdrawal])"
proof -
  obtain iv0 where iv0: "with_publish_coalescing 200 0 = Inr iv0" by (simp add: with_publish_coalescing_def)
  then have r0: "inventory_reach 96 (iv0, [])" by (intro reach_start) (auto simp: inventory_start_def)
  obtain iv1 where iv1: "inventory_change 96 None iv0 (StateKey [5] [6]) Dram (Some demo_md) = Some iv1"
    and c1: "change_record iv0 (StateKey [5] [6]) Dram (Some demo_md) = Some demo_change"
    and iv2: "inventory_change 96 None iv1 (StateKey [5] [6]) Dram None = Some demo_inventory"
    and c2: "change_record iv1 (StateKey [5] [6]) Dram None = Some demo_withdrawal"
    using iv0 unfolding demo_inventory_def
    by (auto simp: inventory_eval demo_md_def demo_change_def demo_withdrawal_def)
  show ?thesis
    using reach_step [OF reach_step [OF r0 inv_change [OF iv1]] inv_change [OF iv2]] c1 c2 by simp
qed

text \<open>C28. A change of a reachable inventory always ends and succeeds: the loop that trims the journal never
  runs on an empty journal, and the byte counter never underflows.\<close>

theorem inventory_change_terminates:
  assumes "inventory_reach sz (iv, log)" and "m = Dram \<or> m = Ssd"
    and "case md of None \<Rightarrow> True | Some x \<Rightarrow> medium x = m" and "iv_sequence iv < u64_max"
  shows "\<exists>iv'. inventory_change sz clock iv key m md = Some iv'"
  using inventory_change_ok [OF iv.reach_inv [OF assms(1)] assms(2-4)] by blast

theorem inventory_change_terminates_witness:
  "\<exists>iv'. inventory_change 96 None demo_inventory (StateKey [7] [8]) Ssd None = Some iv'"
  using inventory_change_terminates [OF demo_inventory_reach, of Ssd None None "StateKey [7] [8]"]
  by (simp add: demo_inventory_def inventory_eval demo_md_def)

text \<open>C18. In every reachable inventory the residents are exactly what replaying all changes ever made gives,
  the journal is the newest part of those changes, and its byte counter is exact and within the limit.\<close>

theorem inventory_is_replay:
  assumes "inventory_reach sz (iv, log)"
  shows "map_of (iv_residents iv) = replay log \<and> suffix (iv_journal iv) log \<and> iv_sequence iv = length log \<and>
    iv_journal_bytes iv = (\<Sum>r\<leftarrow>iv_journal iv. record_estimated_size sz r) \<and>
    iv_journal_bytes iv \<le> iv_byte_limit iv"
  using iv.reach_inv [OF assms] by (simp add: inventory_inv_def)

theorem inventory_is_replay_witness:
  "iv_residents demo_inventory = [] \<and> replay [demo_change, demo_withdrawal] (StateKey [5] [6], Dram) = None \<and>
   iv_sequence demo_inventory = 2"
proof -
  have "iv_residents demo_inventory = []" by (simp add: demo_inventory_def inventory_eval demo_md_def)
  then show ?thesis
    using inventory_is_replay [OF demo_inventory_reach] by (auto dest: fun_cong [of _ _ "(StateKey [5] [6], Dram)"])
qed

text \<open>C21. Reading the journal never panics, and what it returns is the segment of the history right after
  \<open>after\<close>: cut off at the batch bounds, but never empty while there is something to read.\<close>

theorem journal_read_exact:
  assumes "inventory_reach sz (iv, log)"
  shows "\<exists>iv' res. changes sz iv after through = Some (iv', res) \<and>
    (\<forall>rs. res = Inr rs \<longrightarrow> after \<le> through \<and> through \<le> length log \<and>
      (\<exists>n. after \<le> n \<and> n \<le> through \<and> rs = take (n - after) (drop after log) \<and> (after < through \<longrightarrow> after < n)))"
  using changes_exact [OF iv.reach_inv [OF assms]] .

theorem journal_read_exact_witness:
  "\<exists>iv' rs. changes 96 demo_inventory 1 2 = Some (iv', Inr rs) \<and> rs = [demo_withdrawal]"
proof -
  obtain iv' rs where r: "changes 96 demo_inventory 1 2 = Some (iv', Inr rs)"
    by (simp add: demo_inventory_def changes_def queue_range_def bounded_records_def inventory_eval demo_md_def
        INVENTORY_BATCH_BYTES_def INVENTORY_BATCH_RECORDS_def)
  then obtain n where "n \<le> 2" "1 < n" "rs = take (n - 1) (drop 1 [demo_change, demo_withdrawal])"
    using journal_read_exact [OF demo_inventory_reach, of 1 2] by auto
  then show ?thesis using r by (auto simp: le_Suc_eq numeral_2_eq_2)
qed

end
