(* ===== verification/Wire_Primitives.thy ===== *)
theory Wire_Primitives
  imports Orbit_Prelude
begin

text \<open>
  What the wire formats use of the standard library beyond the prelude: the bits of an \<open>i32\<close> and the test of
  \<open>str::from_utf8\<close>.
\<close>

section \<open>Signed integers\<close>

text \<open>\<open>i32\<close> in two's complement.\<close>

definition i32_code :: "int \<Rightarrow> nat" where
  "i32_code i = nat (i mod 4294967296)"

definition i32_decode :: "nat \<Rightarrow> int" where
  "i32_decode n = (if n < 2147483648 then int n else int n - 4294967296)"

definition i32_range :: "int \<Rightarrow> bool" where
  "i32_range i \<longleftrightarrow> - 2147483648 \<le> i \<and> i \<le> 2147483647"

lemma i32_code_less [simp]: "i32_code i < 4294967296"
  by (simp add: i32_code_def nat_less_iff)

lemma i32_decode_code: "i32_range i \<Longrightarrow> i32_decode (i32_code i) = i"
proof -
  assume i: "i32_range i"
  show ?thesis
  proof (cases "0 \<le> i")
    case True
    then have "i mod 4294967296 = i" using i by (simp add: i32_range_def)
    then show ?thesis using True i by (simp add: i32_range_def i32_code_def i32_decode_def)
  next
    case False
    then have "i mod 4294967296 = i + 4294967296"
      using i by (intro int_mod_pos_eq [where q = "- 1"]) (simp_all add: i32_range_def)
    then show ?thesis using False i by (simp add: i32_range_def i32_code_def i32_decode_def)
  qed
qed

lemma i32_code_decode: "n < 4294967296 \<Longrightarrow> i32_code (i32_decode n) = n \<and> i32_range (i32_decode n)"
proof -
  assume n: "n < 4294967296"
  have "(int n - 4294967296) mod 4294967296 = int n" if "\<not> n < 2147483648"
    using n by (intro int_mod_pos_eq [where q = "- 1"]) simp_all
  then show ?thesis using n by (simp add: i32_code_def i32_decode_def i32_range_def)
qed

section \<open>UTF-8\<close>

text \<open>\<open>str::from_utf8\<close>: well-formed UTF-8, without surrogates and overlong forms.\<close>

definition continuation :: "nat \<Rightarrow> bool" where
  "continuation b \<longleftrightarrow> 128 \<le> b \<and> b \<le> 191"

fun utf8_nats :: "nat list \<Rightarrow> bool" where
  "utf8_nats [] = True"
| "utf8_nats (a # rest) =
     (if a \<le> 127 then utf8_nats rest
      else if 194 \<le> a \<and> a \<le> 223 then
        (case rest of b # r \<Rightarrow> continuation b \<and> utf8_nats r | _ \<Rightarrow> False)
      else if 224 \<le> a \<and> a \<le> 239 then
        (case rest of b # c # r \<Rightarrow>
           continuation b \<and> continuation c \<and> (a = 224 \<longrightarrow> 160 \<le> b) \<and> (a = 237 \<longrightarrow> b \<le> 159) \<and> utf8_nats r
         | _ \<Rightarrow> False)
      else if 240 \<le> a \<and> a \<le> 244 then
        (case rest of b # c # d # r \<Rightarrow>
           continuation b \<and> continuation c \<and> continuation d \<and> (a = 240 \<longrightarrow> 144 \<le> b) \<and> (a = 244 \<longrightarrow> b \<le> 143) \<and>
           utf8_nats r
         | _ \<Rightarrow> False)
      else False)"

definition utf8_valid :: "bytes \<Rightarrow> bool" where
  "utf8_valid bs = utf8_nats (map unat bs)"

end
