(* ===== verification/Inventory_Wire.thy ===== *)
theory Inventory_Wire
  imports Global_Index Wire_Primitives
begin

text \<open>
  The messages of the inventory stream (\<open>orbitkv-proto/proto/engine.proto\<close>), the conversion of records to
  and from them (\<open>orbitkv-proto/src/inventory.rs\<close>), and the opening of a session
  (\<open>decode_scope\<close>, \<open>encode_scope\<close> and \<open>validate_open\<close> of \<open>orbitkv-server/src/cluster/inventory.rs\<close>).

  \<^item> A protobuf enumeration field is the \<open>i32\<close> on the wire.
  \<^item> Strings of the protocol are their UTF-8 bytes; \<open>utf8_valid\<close> is \<open>str::from_utf8\<close>.
  \<^item> What the third-party crates do is an argument: \<open>uuid_from_slice\<close> and \<open>uuid_as_bytes\<close> of \<open>uuid\<close>,
    the SHA-256 of \<open>sha2\<close>, the encoded length of a message of \<open>prost\<close>.
\<close>

section \<open>Messages\<close>

record wire_metadata =
  wm_medium :: int
  wm_representation :: int
  wm_stored_bytes :: "nat option"

record wire_record =
  wr_namespace :: bytes
  wr_block_hash :: bytes
  wr_sequence :: nat
  wr_present :: bool
  wr_metadata :: "wire_metadata option"

record inventory_open =
  op_protocol :: bytes
  op_cluster_uuid :: bytes
  op_source_node :: bytes
  op_source_epoch :: nat
  op_source_incarnation :: bytes
  op_requester_incarnation :: bytes
  op_scope_digest :: bytes
  op_session_id :: bytes
  op_resume_sequence :: "nat option"
  op_installed_view_id :: bytes
  op_scope_mode :: int
  op_scope_namespaces :: "bytes list"

record inventory_ack =
  ack_consumed_frame_id :: nat
  ack_installed_view_id :: bytes
  ack_applied_sequence :: nat

datatype client_body = BodyOpen inventory_open | BodyAck inventory_ack | BodyFlushThrough nat

text \<open>\<open>SnapshotBegin\<close> carries the snapshot, the view and the start sequence; \<open>SnapshotPage\<close> the snapshot,
  the page number and the records; \<open>Delta\<close> the covered interval and the records; \<open>SnapshotCommit\<close> the
  snapshot, the view, the final sequence, the transcript digest and the page count; \<open>Progress\<close> the covered
  and the head sequence.\<close>

datatype server_body =
    SnapshotBegin bytes bytes nat
  | SnapshotPage bytes nat "wire_record list"
  | Delta nat nat "wire_record list"
  | SnapshotCommit bytes bytes nat bytes nat
  | Progress nat nat
  | ResetRequired string

record server_frame =
  sf_frame_id :: nat
  sf_session_id :: bytes
  sf_body :: "server_body option"

section \<open>Records\<close>

fun medium_to_wire :: "replica_medium \<Rightarrow> int" where
  "medium_to_wire UnknownMedium = 0"
| "medium_to_wire Dram = 1"
| "medium_to_wire Ssd = 2"
| "medium_to_wire Hbm = 3"

fun representation_to_wire :: "replica_representation \<Rightarrow> int" where
  "representation_to_wire UnknownRepresentation = 0"
| "representation_to_wire Raw = 1"
| "representation_to_wire AnsRepresentation = 2"
| "representation_to_wire Fp8 = 3"
| "representation_to_wire TurboQuantRepresentation = 4"
| "representation_to_wire Mixed = 5"

definition metadata_to_wire :: "replica_metadata \<Rightarrow> wire_metadata" where
  "metadata_to_wire md =
     \<lparr>wm_medium = medium_to_wire (medium md), wm_representation = representation_to_wire (representation md),
      wm_stored_bytes = stored_bytes md\<rparr>"

definition medium_from_wire :: "int \<Rightarrow> replica_medium" where
  "medium_from_wire n =
     (if n = 1 then Dram else if n = 2 then Ssd else if n = 3 then Hbm else UnknownMedium)"

definition representation_from_wire :: "int \<Rightarrow> replica_representation" where
  "representation_from_wire n =
     (if n = 1 then Raw else if n = 2 then AnsRepresentation else if n = 3 then Fp8 else if n = 4 then TurboQuantRepresentation
      else if n = 5 then Mixed else UnknownRepresentation)"

definition metadata_from_wire :: "wire_metadata \<Rightarrow> replica_metadata" where
  "metadata_from_wire w =
     \<lparr>medium = medium_from_wire (wm_medium w), representation = representation_from_wire (wm_representation w),
      stored_bytes = wm_stored_bytes w\<rparr>"

definition record_to_wire :: "inventory_record \<Rightarrow> wire_record" where
  "record_to_wire r =
     \<lparr>wr_namespace = namespace (rec_key r), wr_block_hash = hash (rec_key r), wr_sequence = rec_sequence r,
      wr_present = rec_present r, wr_metadata = map_option metadata_to_wire (rec_metadata r)\<rparr>"

definition record_from_wire :: "wire_record \<Rightarrow> inventory_record" where
  "record_from_wire w =
     \<lparr>rec_key = StateKey (wr_namespace w) (wr_block_hash w), rec_sequence = wr_sequence w,
      rec_present = wr_present w, rec_metadata = map_option metadata_from_wire (wr_metadata w)\<rparr>"

lemma medium_round_trip [simp]: "medium_from_wire (medium_to_wire m) = m"
  by (cases m) (simp_all add: medium_from_wire_def)

lemma representation_round_trip [simp]: "representation_from_wire (representation_to_wire r) = r"
  by (cases r) (simp_all add: representation_from_wire_def)

lemma metadata_round_trip [simp]: "metadata_from_wire (metadata_to_wire md) = md"
  by (simp add: metadata_from_wire_def metadata_to_wire_def)

lemma record_round_trip [simp]: "record_from_wire (record_to_wire r) = r"
  by (cases r; cases "rec_key r") (simp add: record_from_wire_def record_to_wire_def option.map_comp comp_def option.map_ident)

section \<open>Opening a session\<close>

definition SCOPE_ALL :: int where "SCOPE_ALL = 1"
definition SCOPE_EXACT :: int where "SCOPE_EXACT = 2"

fun encode_scope :: "inventory_scope \<Rightarrow> int \<times> bytes list" where
  "encode_scope AllNamespaces = (SCOPE_ALL, [])"
| "encode_scope (ExactNamespaces nss) = (SCOPE_EXACT, nss)"

definition decode_scope :: "inventory_open \<Rightarrow> string + inventory_scope" where
  "decode_scope opn =
     (if op_scope_mode opn = 0 then Inl ''inventory client does not declare a scope descriptor''
      else if op_scope_mode opn = SCOPE_ALL then
        (if op_scope_namespaces opn = [] then Inr AllNamespaces
         else Inl ''all-namespace scope carries exact namespaces'')
      else if op_scope_mode opn = SCOPE_EXACT then
        (if \<not> list_all utf8_valid (op_scope_namespaces opn) then Inl ''inventory namespace is not UTF-8''
         else rbind (scope_exact (op_scope_namespaces opn)) (\<lambda>scope.
           if scope_namespaces scope \<noteq> Some (op_scope_namespaces opn)
           then Inl ''exact inventory namespaces are not sorted and unique''
           else Inr scope))
      else Inl ''unknown inventory scope mode'')"

definition uuid_from :: "(bytes \<Rightarrow> uuid option) \<Rightarrow> bytes \<Rightarrow> string \<Rightarrow> string + uuid" where
  "uuid_from uuid_from_slice bs label = ok_or (uuid_from_slice bs) (''invalid '' @ label)"

definition optional_uuid :: "(bytes \<Rightarrow> uuid option) \<Rightarrow> bytes \<Rightarrow> string \<Rightarrow> string + uuid option" where
  "optional_uuid uuid_from_slice bs label =
     (if bs = [] then Inr None else rbind (ok_or (uuid_from_slice bs) (''invalid '' @ label)) (\<lambda>u. Inr (Some u)))"

record member =
  mb_node_id :: bytes
  mb_epoch :: nat
  mb_owner :: cache_owner
  mb_protocol :: bytes
  mb_lease :: int

record open_identity =
  oi_source :: member
  oi_requester :: cache_owner
  oi_session_id :: uuid
  oi_scope :: inventory_scope

definition INVENTORY_STREAM_PROTOCOL :: bytes where
  "INVENTORY_STREAM_PROTOCOL = ascii ''orbitkv/inventory-stream/v4''"

text \<open>\<open>live\<close> is \<open>InventoryRuntime::member\<close>: the live member of an incarnation; \<open>encoded\<close> the encoded length
  of the message.\<close>

definition validate_open ::
  "(bytes \<Rightarrow> uuid option) \<Rightarrow> (bytes \<Rightarrow> bytes) \<Rightarrow> uuid \<Rightarrow> member \<Rightarrow> (uuid \<Rightarrow> member option) \<Rightarrow> nat \<Rightarrow>
   inventory_open \<Rightarrow> string + open_identity" where
  "validate_open uuid_from_slice sha cluster own live encoded opn =
     (if encoded > INVENTORY_OPEN_MAX_BYTES then Inl ''inventory Open exceeds the encoded byte limit''
      else
        rbind (uuid_from uuid_from_slice (op_cluster_uuid opn) ''cluster UUID'') (\<lambda>cluster_uuid.
        rbind (uuid_from uuid_from_slice (op_source_incarnation opn) ''source incarnation'') (\<lambda>source_incarnation.
        rbind (uuid_from uuid_from_slice (op_requester_incarnation opn) ''requester incarnation'') (\<lambda>requester_incarnation.
        rbind (uuid_from uuid_from_slice (op_session_id opn) ''session ID'') (\<lambda>session_id.
        rbind (decode_scope opn) (\<lambda>scope.
          if op_protocol opn \<noteq> INVENTORY_STREAM_PROTOCOL
             \<or> cluster_uuid \<noteq> cluster
             \<or> op_scope_digest opn \<noteq> scope_digest sha scope
             \<or> op_source_node opn \<noteq> mb_node_id own
             \<or> op_source_epoch opn \<noteq> mb_epoch own
             \<or> source_incarnation \<noteq> incarnation (mb_owner own)
          then Inl ''inventory Open source, cluster or scope identity differs''
          else rbind (ok_or (live requester_incarnation) ''requester is not a live member'') (\<lambda>requester.
            Inr \<lparr>oi_source = own, oi_requester = mb_owner requester, oi_session_id = session_id,
                 oi_scope = scope\<rparr>)))))))"

text \<open>The \<open>Open\<close> message of a receiver: \<open>follow_source_once\<close>.\<close>

definition open_message ::
  "(uuid \<Rightarrow> bytes) \<Rightarrow> (bytes \<Rightarrow> bytes) \<Rightarrow> uuid \<Rightarrow> member \<Rightarrow> uuid \<Rightarrow> uuid \<Rightarrow> inventory_scope \<Rightarrow>
   (uuid \<times> nat) option \<Rightarrow> inventory_open" where
  "open_message uuid_as_bytes sha cluster source own_incarnation session_id scope installed =
     \<lparr>op_protocol = INVENTORY_STREAM_PROTOCOL, op_cluster_uuid = uuid_as_bytes cluster,
      op_source_node = mb_node_id source, op_source_epoch = mb_epoch source,
      op_source_incarnation = uuid_as_bytes (incarnation (mb_owner source)),
      op_requester_incarnation = uuid_as_bytes own_incarnation,
      op_scope_digest = scope_digest sha scope, op_session_id = uuid_as_bytes session_id,
      op_resume_sequence = map_option snd installed,
      op_installed_view_id = (case installed of None \<Rightarrow> [] | Some (view_id, _) \<Rightarrow> uuid_as_bytes view_id),
      op_scope_mode = fst (encode_scope scope), op_scope_namespaces = snd (encode_scope scope)\<rparr>"

lemma scope_round_trip:
  assumes "scope = AllNamespaces \<or> (\<exists>nss. scope_exact nss = Inr scope \<and> list_all utf8_valid nss)"
    and "(op_scope_mode opn, op_scope_namespaces opn) = encode_scope scope"
  shows "decode_scope opn = Inr scope"
proof (cases "scope = AllNamespaces")
  case True
  then show ?thesis using assms(2) by (simp add: decode_scope_def SCOPE_ALL_def)
next
  case False
  then obtain nss where nss: "scope_exact nss = Inr scope" "list_all utf8_valid nss" using assms(1) by blast
  note s = scope_exact_Inr [OF nss(1)]
  have opn: "op_scope_mode opn = SCOPE_EXACT" "op_scope_namespaces opn = sort_dedup nss"
    using assms(2) s(1) by simp_all
  have "sort_dedup (sort_dedup nss) = sort_dedup nss" by (rule sort_dedup_cong) simp
  then have "scope_exact (sort_dedup nss) = Inr scope"
    using s by (simp add: scope_exact_def del: scope_canonical_bytes.simps)
  moreover have "list_all utf8_valid (sort_dedup nss)" using nss(2) by (simp add: list_all_iff)
  ultimately show ?thesis
    using opn s(1) by (simp add: decode_scope_def SCOPE_ALL_def SCOPE_EXACT_def)
qed

text \<open>C30. A receiver's \<open>Open\<close> message, built for the source it wants to follow, is accepted by that source:
  the source reads back the receiver's scope, session and identity.\<close>

theorem open_accepted:
  assumes uuid: "\<And>u. uuid_from_slice (uuid_as_bytes u) = Some u"
    and "scope = AllNamespaces \<or> (\<exists>nss. scope_exact nss = Inr scope \<and> list_all utf8_valid nss)"
    and "live requester = Some m" and "encoded \<le> INVENTORY_OPEN_MAX_BYTES"
  shows "validate_open uuid_from_slice sha cluster source live encoded
      (open_message uuid_as_bytes sha cluster source requester session scope installed) =
    Inr \<lparr>oi_source = source, oi_requester = mb_owner m, oi_session_id = session, oi_scope = scope\<rparr>"
proof -
  let ?open = "open_message uuid_as_bytes sha cluster source requester session scope installed"
  have "decode_scope ?open = Inr scope" using assms(2) by (rule scope_round_trip) (simp add: open_message_def)
  then show ?thesis using assms(1,3,4) by (simp add: validate_open_def uuid_from_def open_message_def)
qed

definition demo_member :: member where
  "demo_member = \<lparr>mb_node_id = ascii ''n1'', mb_epoch = 3, mb_owner = \<lparr>endpoint = [1], incarnation = 9\<rparr>,
     mb_protocol = INVENTORY_STREAM_PROTOCOL, mb_lease = 4\<rparr>"

text \<open>The big-endian bytes of a UUID, the instance of the two functions of the \<open>uuid\<close> crate.\<close>

definition uuid_be_bytes :: "uuid \<Rightarrow> bytes" where
  "uuid_be_bytes u = rev (le_bytes 16 (unat u))"

definition uuid_of_be :: "bytes \<Rightarrow> uuid option" where
  "uuid_of_be bs = (if length bs = 16 then Some (word_of_nat (le_nat (rev bs))) else None)"

lemma uuid_of_be_bytes: "uuid_of_be (uuid_be_bytes u) = Some u"
proof -
  have "unat u < 2 ^ 128" using unsigned_less [of u, where ?'a = nat] by simp
  then have "le_nat (le_bytes 16 (unat u)) = unat u" by (simp add: le_nat_le_bytes)
  then show ?thesis by (simp add: uuid_of_be_def uuid_be_bytes_def)
qed

theorem open_accepted_witness:
  "validate_open uuid_of_be id 7 demo_member (\<lambda>u. Some demo_member) 100
     (open_message uuid_be_bytes id 7 demo_member 8 5 (ExactNamespaces [[65]]) (Some (2, 4))) =
   Inr \<lparr>oi_source = demo_member, oi_requester = mb_owner demo_member, oi_session_id = 5,
        oi_scope = ExactNamespaces [[65]]\<rparr>"
proof -
  have "scope_exact [[65]] = Inr (ExactNamespaces [[65]])"
    by (simp add: scope_exact_def sort_dedup_def INVENTORY_SCOPE_MAX_NAMESPACES_def INVENTORY_OPEN_MAX_BYTES_def
        INVENTORY_SCOPE_DOMAIN_def)
  then show ?thesis
    using open_accepted [of uuid_of_be uuid_be_bytes "ExactNamespaces [[65]]" "\<lambda>u. Some demo_member" 8 demo_member 100 id
        7 demo_member 5 "Some (2, 4)"] uuid_of_be_bytes
    by (force simp: utf8_valid_def INVENTORY_OPEN_MAX_BYTES_def)
qed

end
