(* ===== verification/Inventory_Source.thy ===== *)
theory Inventory_Source
  imports Residency_Inventory Inventory_Wire
begin

text \<open>
  The source side of an inventory session (\<open>orbitkv-server/src/cluster/inventory.rs\<close>): deltas bounded by
  the frame size, the sender with its credit window, the client's control messages, and the snapshot that
  is served to a new receiver.

  \<^item> The inventory changes while a session runs, so every call of it takes the inventory observed at that
    moment; what the call itself changes there is only counters.
  \<^item> \<open>encode\<close> is \<open>encode_to_vec\<close> of a frame and \<open>body_len\<close> is \<open>encoded_len\<close> of a message (both \<open>prost\<close>),
    \<open>sha\<close> is the SHA-256 of \<open>sha2\<close>, \<open>uuid_as_bytes\<close> is of \<open>uuid\<close>.
  \<^item> Timeouts, the pacing of the outbound bytes and the semaphores are not modelled; a wait for the client's
    control messages is the list of the values it sees.
\<close>

definition FRAME_BYTES :: nat where "FRAME_BYTES = 524288"
definition MESSAGE_BYTES :: nat where "MESSAGE_BYTES = 1048576"
definition STREAM_CREDIT_BYTES :: nat where "STREAM_CREDIT_BYTES = 1048576"

section \<open>Bounded deltas\<close>

fun sum_record_sizes :: "nat \<Rightarrow> nat \<Rightarrow> wire_record list \<Rightarrow> nat option" where
  "sum_record_sizes sz acc [] = Some acc"
| "sum_record_sizes sz acc (w # ws) =
     do { n \<leftarrow> checked_add acc (record_estimated_size sz (record_from_wire w)); sum_record_sizes sz n ws }"

definition validate_records :: "nat \<Rightarrow> wire_record list \<Rightarrow> string + unit" where
  "validate_records sz records =
     (if length records > INVENTORY_BATCH_RECORDS
      then Inl ''inventory frame record count exceeds the decoded limit''
      else rbind (ok_or (sum_record_sizes sz 0 records) ''inventory decoded byte count overflow'') (\<lambda>bytes.
        if bytes > FRAME_BYTES then Inl ''inventory frame exceeds the decoded byte limit'' else Inr ()))"

text \<open>\<open>None\<close> is a panic or a loop that never ends; \<open>micros\<close> the clock readings of the successive calls.\<close>

partial_function (option) bounded_delta_loop ::
  "(server_body \<Rightarrow> nat) \<Rightarrow> nat \<Rightarrow> (nat \<Rightarrow> nat) \<Rightarrow> inventory \<Rightarrow> nat \<Rightarrow> nat \<Rightarrow> inventory_scope \<Rightarrow>
   (inventory \<times> (read_error + inventory_delta)) option" where
  "bounded_delta_loop body_len sz micros iv after limit scope =
     Option.bind (coalesced_changes_scoped sz (micros limit) iv after limit scope) (\<lambda>(iv1, res).
       case res of
         Inl e \<Rightarrow>
           if e = RecordTooLarge \<and> limit > after + 1
           then bounded_delta_loop body_len sz micros iv1 after (after + (limit - after) div 2) scope
           else Some (iv1, Inl e)
       | Inr d \<Rightarrow>
           if body_len (Delta after (id_through d) (map record_to_wire (id_records d))) \<le> FRAME_BYTES
           then Some (iv1, Inr d)
           else if id_input_records d \<le> 1 then Some (iv1, Inl RecordTooLarge)
           else bounded_delta_loop body_len sz micros iv1 after (after + (id_through d - after) div 2) scope)"

definition bounded_delta ::
  "(server_body \<Rightarrow> nat) \<Rightarrow> nat \<Rightarrow> (nat \<Rightarrow> nat) \<Rightarrow> inventory \<Rightarrow> nat \<Rightarrow> nat \<Rightarrow> inventory_scope \<Rightarrow>
   (inventory \<times> (read_error + inventory_delta)) option" where
  "bounded_delta body_len sz micros iv after through scope =
     bounded_delta_loop body_len sz micros iv after through scope"

section \<open>Client control\<close>

record client_control =
  cc_consumed_frame_id :: nat
  cc_installed_view_id :: "uuid option"
  cc_applied_sequence :: nat
  cc_flush_through :: nat
  cc_invalid :: "string option"

definition control_default :: client_control where
  "control_default = \<lparr>cc_consumed_frame_id = 0, cc_installed_view_id = None, cc_applied_sequence = 0,
     cc_flush_through = 0, cc_invalid = None\<rparr>"

text \<open>One frame of the client: the new control value, the inventory, and whether the input goes on.\<close>

definition client_frame ::
  "(bytes \<Rightarrow> uuid option) \<Rightarrow> inventory \<Rightarrow> client_control \<Rightarrow> client_body option \<Rightarrow>
   string + inventory \<times> client_control \<times> bool" where
  "client_frame uuid_from_slice iv c body =
     (case body of
        Some (BodyAck ack) \<Rightarrow>
          rbind (optional_uuid uuid_from_slice (ack_installed_view_id ack) ''installed view ID'') (\<lambda>installed.
            if ack_consumed_frame_id ack < cc_consumed_frame_id c \<or> ack_applied_sequence ack < cc_applied_sequence c
            then Inr (iv, c\<lparr>cc_invalid := Some ''inventory acknowledgement moved backwards''\<rparr>, True)
            else Inr (iv, c\<lparr>cc_consumed_frame_id := ack_consumed_frame_id ack, cc_installed_view_id := installed,
                            cc_applied_sequence := ack_applied_sequence ack\<rparr>, True))
      | Some (BodyFlushThrough target) \<Rightarrow>
          Inr (request_flush iv target, c\<lparr>cc_flush_through := max (cc_flush_through c) target\<rparr>, True)
      | _ \<Rightarrow> Inr (iv, c\<lparr>cc_invalid := Some ''duplicate or empty inventory control frame''\<rparr>, False))"

section \<open>Sender\<close>

record frame_sender =
  fs_session_id :: bytes
  fs_next_frame :: nat
  fs_outstanding_bytes :: nat
  fs_outstanding :: "(nat \<times> nat) list"

definition sender_new :: "bytes \<Rightarrow> frame_sender" where
  "sender_new session = \<lparr>fs_session_id = session, fs_next_frame = 1, fs_outstanding_bytes = 0, fs_outstanding = []\<rparr>"

definition sender_frame ::
  "(server_frame \<Rightarrow> bytes) \<Rightarrow> frame_sender \<Rightarrow> server_body \<Rightarrow> string + server_frame \<times> frame_sender" where
  "sender_frame encode s body =
     (let f = \<lparr>sf_frame_id = fs_next_frame s, sf_session_id = fs_session_id s, sf_body = Some body\<rparr> in
      rbind (ok_or (checked_add (fs_next_frame s) 1) ''inventory frame ID exhausted'') (\<lambda>n.
        if length (encode f) > MESSAGE_BYTES then Inl ''inventory frame exceeds encoded message limit''
        else Inr (f, s\<lparr>fs_next_frame := n\<rparr>)))"

fun pop_acknowledged :: "nat \<Rightarrow> nat \<Rightarrow> (nat \<times> nat) list \<Rightarrow> (nat \<times> (nat \<times> nat) list) option" where
  "pop_acknowledged consumed bytes [] = Some (bytes, [])"
| "pop_acknowledged consumed bytes ((frame, n) # rest) =
     (if frame \<le> consumed then do { b \<leftarrow> usub bytes n; pop_acknowledged consumed b rest }
      else Some (bytes, (frame, n) # rest))"

definition release_acknowledged :: "client_control \<Rightarrow> frame_sender \<Rightarrow> (string + frame_sender) option" where
  "release_acknowledged c s =
     (case cc_invalid c of
        Some e \<Rightarrow> Some (Inl e)
      | None \<Rightarrow>
          if cc_consumed_frame_id c \<ge> fs_next_frame s
          then Some (Inl ''inventory client acknowledged an unsent frame'')
          else do { (bytes, rest) \<leftarrow> pop_acknowledged (cc_consumed_frame_id c) (fs_outstanding_bytes s) (fs_outstanding s);
                    Some (Inr (s\<lparr>fs_outstanding_bytes := bytes, fs_outstanding := rest\<rparr>)) })"

text \<open>The wait for credit: the list holds the control values seen, the current one first.\<close>

fun send_credit ::
  "nat \<Rightarrow> client_control list \<Rightarrow> frame_sender \<Rightarrow> (string + frame_sender \<times> client_control) option" where
  "send_credit bytes [] s = Some (Inl ''inventory frame credit acknowledgement timed out'')"
| "send_credit bytes (c # cs) s =
     (if fs_outstanding_bytes s + bytes > STREAM_CREDIT_BYTES
      then do {
        r \<leftarrow> release_acknowledged c s;
        case r of
          Inl e \<Rightarrow> Some (Inl e)
        | Inr s1 \<Rightarrow>
            if fs_outstanding_bytes s1 + bytes \<le> STREAM_CREDIT_BYTES then Some (Inr (s1, c))
            else send_credit bytes cs s1 }
      else Some (Inr (s, c)))"

text \<open>\<open>waits\<close> is the error of the waits for the aggregate budget and the response queue, if one fails.\<close>

definition sender_send ::
  "bool \<Rightarrow> string option \<Rightarrow> nat \<Rightarrow> nat \<Rightarrow> client_control list \<Rightarrow> frame_sender \<Rightarrow> (string + frame_sender) option" where
  "sender_send registered waits frame_id bytes controls s =
     (if \<not> registered then Some (Inl ''inventory source membership is fenced'')
      else do {
        r \<leftarrow> send_credit bytes controls s;
        case r of
          Inl e \<Rightarrow> Some (Inl e)
        | Inr (s1, c) \<Rightarrow> do {
            r2 \<leftarrow> release_acknowledged c s1;
            case r2 of
              Inl e \<Rightarrow> Some (Inl e)
            | Inr s2 \<Rightarrow>
                if bytes > u32_max then Some (Inl ''inventory frame size overflow'')
                else
                  (case waits of
                     Some e \<Rightarrow> Some (Inl e)
                   | None \<Rightarrow> Some (Inr (s2\<lparr>fs_outstanding_bytes := fs_outstanding_bytes s2 + bytes,
                                             fs_outstanding := fs_outstanding s2 @ [(frame_id, bytes)]\<rparr>))) } })"

section \<open>Serving a snapshot\<close>

text \<open>What a snapshot has produced so far: the sender, the hashed transcript, the frames.\<close>

record snapshot_run =
  sr_sender :: frame_sender
  sr_transcript :: bytes
  sr_frames :: "server_frame list"

definition emit :: "(server_frame \<Rightarrow> bytes) \<Rightarrow> server_body \<Rightarrow> snapshot_run \<Rightarrow> string + snapshot_run" where
  "emit encode body run =
     rbind (sender_frame encode (sr_sender run) body) (\<lambda>(f, s).
       Inr \<lparr>sr_sender = s, sr_transcript = sr_transcript run @ encode f, sr_frames = sr_frames run @ [f]\<rparr>)"

fun read_error_name :: "read_error \<Rightarrow> string" where
  "read_error_name HistoryGap = ''HistoryGap''"
| "read_error_name RecordTooLarge = ''RecordTooLarge''"
| "read_error_name InvalidRecord = ''InvalidRecord''"

fun serve_pages ::
  "(server_frame \<Rightarrow> bytes) \<Rightarrow> (server_body \<Rightarrow> nat) \<Rightarrow> nat \<Rightarrow> nat \<Rightarrow> inventory_scope \<Rightarrow> bytes \<Rightarrow> residence option \<Rightarrow> nat \<Rightarrow>
   snapshot_run \<Rightarrow> inventory list \<Rightarrow> (snapshot_run \<times> (string + nat)) option" where
  "serve_pages encode body_len sz micros scope sid cursor page_number run [] = None"
| "serve_pages encode body_len sz micros scope sid cursor page_number run (iv # ivs) =
     (case snd (scoped_page sz micros iv cursor scope) of
        Inl e \<Rightarrow> Some (run, Inl (''inventory snapshot page: '' @ read_error_name e))
      | Inr p \<Rightarrow>
          if pg_records p = []
          then (if pg_complete p then Some (run, Inr page_number)
                else serve_pages encode body_len sz micros scope sid (pg_next p) page_number run ivs)
          else
            (let body = SnapshotPage sid page_number (map record_to_wire (pg_records p)) in
             if body_len body > FRAME_BYTES
             then Some (run, Inl ''inventory snapshot page exceeds the encoded frame limit'')
             else
               (case emit encode body run of
                  Inl e \<Rightarrow> Some (run, Inl e)
                | Inr run1 \<Rightarrow>
                    if pg_complete p then Some (run1, Inr (page_number + 1))
                    else serve_pages encode body_len sz micros scope sid (pg_next p) (page_number + 1) run1 ivs)))"

fun serve_replay ::
  "(server_frame \<Rightarrow> bytes) \<Rightarrow> (server_body \<Rightarrow> nat) \<Rightarrow> nat \<Rightarrow> (nat \<Rightarrow> nat) \<Rightarrow> inventory_scope \<Rightarrow> nat \<Rightarrow> nat \<Rightarrow>
   snapshot_run \<Rightarrow> inventory list \<Rightarrow> (snapshot_run \<times> (string + unit)) option" where
  "serve_replay encode body_len sz micros scope after fin run ivs =
     (if after \<ge> fin then Some (run, Inr ())
      else
        (case ivs of
           [] \<Rightarrow> None
         | iv # rest \<Rightarrow> do {
             (iv1, res) \<leftarrow> bounded_delta body_len sz micros iv after fin scope;
             case res of
               Inl e \<Rightarrow>
                 if e = HistoryGap
                 then (case sender_frame encode (sr_sender run) (ResetRequired ''source journal overflowed during snapshot'') of
                         Inl err \<Rightarrow> Some (run, Inl err)
                       | Inr (f, s) \<Rightarrow>
                           Some (run\<lparr>sr_sender := s, sr_frames := sr_frames run @ [f]\<rparr>,
                                 Inl ''inventory snapshot replay history is unavailable''))
                 else Some (run, Inl (''inventory snapshot replay: '' @ read_error_name e))
             | Inr d \<Rightarrow>
                 (case emit encode (Delta after (id_through d) (map record_to_wire (id_records d))) run of
                    Inl err \<Rightarrow> Some (run, Inl err)
                  | Inr run1 \<Rightarrow> serve_replay encode body_len sz micros scope (id_through d) fin run1 rest) }))"

declare serve_replay.simps [simp del]

definition serve_snapshot ::
  "(server_frame \<Rightarrow> bytes) \<Rightarrow> (server_body \<Rightarrow> nat) \<Rightarrow> (bytes \<Rightarrow> bytes) \<Rightarrow> (uuid \<Rightarrow> bytes) \<Rightarrow> nat \<Rightarrow> (nat \<Rightarrow> nat) \<Rightarrow>
   inventory_scope \<Rightarrow> uuid \<Rightarrow> uuid \<Rightarrow> frame_sender \<Rightarrow> inventory \<Rightarrow> inventory list \<Rightarrow> inventory \<Rightarrow> inventory list \<Rightarrow>
   (snapshot_run \<times> (string + nat)) option" where
  "serve_snapshot encode body_len sha uuid_as_bytes sz micros scope snapshot_id view_id s iv_start iv_pages iv_end iv_replay =
     (let sid = uuid_as_bytes snapshot_id; vid = uuid_as_bytes view_id; start = iv_sequence iv_start;
          run0 = \<lparr>sr_sender = s, sr_transcript = [], sr_frames = []\<rparr>
      in case emit encode (SnapshotBegin sid vid start) run0 of
           Inl e \<Rightarrow> Some (run0, Inl e)
         | Inr run1 \<Rightarrow> do {
             (run2, pages) \<leftarrow> serve_pages encode body_len sz (micros 0) scope sid None 0 run1 iv_pages;
             case pages of
               Inl e \<Rightarrow> Some (run2, Inl e)
             | Inr page_count \<Rightarrow> do {
                 let fin = iv_sequence iv_end;
                 (run3, replayed) \<leftarrow> serve_replay encode body_len sz micros scope start fin run2 iv_replay;
                 case replayed of
                   Inl e \<Rightarrow> Some (run3, Inl e)
                 | Inr _ \<Rightarrow>
                     (case sender_frame encode (sr_sender run3)
                             (SnapshotCommit sid vid fin (sha (sr_transcript run3)) page_count) of
                        Inl e \<Rightarrow> Some (run3, Inl e)
                      | Inr (f, s1) \<Rightarrow>
                          Some (run3\<lparr>sr_sender := s1, sr_frames := sr_frames run3 @ [f]\<rparr>, Inr fin)) } })"

section \<open>Bounded deltas end\<close>

text \<open>What a bounded delta promises of a history: progress, within the limit, exact, and within the frame.\<close>

definition delta_promise ::
  "(server_body \<Rightarrow> nat) \<Rightarrow> inventory_record list \<Rightarrow> inventory_scope \<Rightarrow> nat \<Rightarrow> nat \<Rightarrow> inventory_delta \<Rightarrow> bool" where
  "delta_promise body_len log scope after through d \<longleftrightarrow>
     after < id_through d \<and> id_through d \<le> through \<and> through \<le> length log \<and>
     body_len (Delta after (id_through d) (map record_to_wire (id_records d))) \<le> FRAME_BYTES \<and>
     (\<exists>us. id_records d = bt_values us \<and> delta_of log scope after (id_through d) us)"

lemma bounded_delta_loop_ok:
  assumes "inventory_inv sz (iv, log)" and "after < limit"
  shows "\<exists>iv' res. bounded_delta_loop body_len sz micros iv after limit scope = Some (iv', res) \<and>
    (\<forall>d. res = Inr d \<longrightarrow> id_through d \<le> limit \<and> delta_promise body_len log scope after (id_through d) d)"
  using assms
proof (induction "limit - after" arbitrary: iv limit rule: less_induct)
  case less
  obtain iv1 res where c: "coalesced_changes_scoped sz (micros limit) iv after limit scope = Some (iv1, res)"
    and inv1: "inventory_inv sz (iv1, log)"
    using coalesced_total [OF less.prems(1), of "micros limit" after limit scope] by blast
  have halve: "\<exists>iv' res. bounded_delta_loop body_len sz micros iv1 after l scope = Some (iv', res) \<and>
      (\<forall>d. res = Inr d \<longrightarrow> id_through d \<le> limit \<and> delta_promise body_len log scope after (id_through d) d)"
    if l: "after < l" "l < limit" for l
    using less.hyps [OF _ inv1 l(1)] l by (fastforce intro: order_trans)
  show ?case
  proof (cases res)
    case (Inl e)
    show ?thesis
    proof (cases "e = RecordTooLarge \<and> limit > after + 1")
      case True
      then have "after < after + (limit - after) div 2" "after + (limit - after) div 2 < limit" by auto
      from halve [OF this] show ?thesis
        using c Inl True by (subst bounded_delta_loop.simps) simp
    next
      case False
      then show ?thesis using c Inl by (subst bounded_delta_loop.simps) auto
    qed
  next
    case (Inr d)
    note d = coalesced_exact [OF less.prems(1) c [unfolded Inr]]
    show ?thesis
    proof (cases "body_len (Delta after (id_through d) (map record_to_wire (id_records d))) \<le> FRAME_BYTES")
      case True
      then show ?thesis using c Inr d less.prems(2)
        by (subst bounded_delta_loop.simps) (auto simp: delta_promise_def)
    next
      case big: False
      show ?thesis
      proof (cases "id_input_records d \<le> 1")
        case True
        then show ?thesis using c Inr big by (subst bounded_delta_loop.simps) auto
      next
        case False
        then have "after < after + (id_through d - after) div 2" "after + (id_through d - after) div 2 < limit"
          using d(2,3,6) by auto
        from halve [OF this] show ?thesis
          using c Inr big False by (subst bounded_delta_loop.simps) simp
      qed
    qed
  qed
qed

lemma bounded_delta_ok:
  assumes "inventory_inv sz (iv, log)" and "after < through"
    and "bounded_delta body_len sz micros iv after through scope = Some (iv', Inr d)"
  shows "after < id_through d" and "id_through d \<le> through" and "id_through d \<le> length log"
    and "\<exists>us. id_records d = bt_values us \<and> delta_of log scope after (id_through d) us"
  using bounded_delta_loop_ok [OF assms(1,2), of body_len micros scope] assms(3)
  by (auto simp: bounded_delta_def delta_promise_def)

section \<open>Credit\<close>

definition sender_inv :: "frame_sender \<Rightarrow> bool" where
  "sender_inv s \<longleftrightarrow> fs_outstanding_bytes s = (\<Sum>f\<leftarrow>fs_outstanding s. snd f) \<and>
     fs_outstanding_bytes s \<le> STREAM_CREDIT_BYTES"

lemma pop_acknowledged_ok:
  assumes "bytes = (\<Sum>f\<leftarrow>out. snd f)"
  shows "\<exists>rest. pop_acknowledged consumed bytes out = Some (\<Sum>f\<leftarrow>rest. snd f, rest) \<and>
    (\<Sum>f\<leftarrow>rest. snd f) \<le> bytes \<and> suffix rest out"
  using assms
proof (induction consumed bytes out rule: pop_acknowledged.induct)
  case (2 consumed bytes frame n rest)
  show ?case
  proof (cases "frame \<le> consumed")
    case True
    then have "\<exists>r. pop_acknowledged consumed (bytes - n) rest = Some (\<Sum>f\<leftarrow>r. snd f, r) \<and>
        (\<Sum>f\<leftarrow>r. snd f) \<le> bytes - n \<and> suffix r rest"
      using 2 by (simp add: usub_def)
    then show ?thesis using True "2.prems" by (auto simp: usub_def intro: suffix_ConsI)
  qed (use "2.prems" in simp)
qed simp

lemma release_acknowledged_ok:
  assumes "sender_inv s"
  shows "\<exists>r. release_acknowledged c s = Some r \<and>
    (\<forall>s'. r = Inr s' \<longrightarrow> sender_inv s' \<and> fs_outstanding_bytes s' \<le> fs_outstanding_bytes s \<and>
       fs_next_frame s' = fs_next_frame s)"
proof -
  obtain rest where "pop_acknowledged (cc_consumed_frame_id c) (fs_outstanding_bytes s) (fs_outstanding s) =
      Some (\<Sum>f\<leftarrow>rest. snd f, rest)" "(\<Sum>f\<leftarrow>rest. snd f) \<le> fs_outstanding_bytes s"
    using pop_acknowledged_ok assms unfolding sender_inv_def by blast
  then show ?thesis
    using assms by (auto simp: release_acknowledged_def sender_inv_def split: option.split)
qed

lemma send_credit_ok:
  assumes "sender_inv s"
  shows "\<exists>r. send_credit bytes cs s = Some r \<and>
    (\<forall>s' c. r = Inr (s', c) \<longrightarrow> sender_inv s' \<and> fs_outstanding_bytes s' + bytes \<le> STREAM_CREDIT_BYTES)"
  using assms
proof (induction bytes cs s rule: send_credit.induct)
  case (2 bytes c cs s)
  obtain r where r: "release_acknowledged c s = Some r" "\<And>s'. r = Inr s' \<Longrightarrow> sender_inv s'"
    using release_acknowledged_ok [OF "2.prems", of c] by blast
  show ?case
  proof (cases "fs_outstanding_bytes s + bytes > STREAM_CREDIT_BYTES")
    case True
    show ?thesis
    proof (cases r)
      case (Inr s1)
      then show ?thesis using 2(1) [OF True r(1) Inr] r True by (auto simp: not_le)
    qed (use r True in simp)
  qed (use "2.prems" in simp)
qed simp

lemma sender_send_ok:
  assumes "sender_inv s"
  shows "\<exists>r. sender_send registered waits frame_id bytes controls s = Some r \<and> (\<forall>s'. r = Inr s' \<longrightarrow> sender_inv s')"
proof -
  obtain r where r: "send_credit bytes controls s = Some r"
    "\<And>s' c. r = Inr (s', c) \<Longrightarrow> sender_inv s' \<and> fs_outstanding_bytes s' + bytes \<le> STREAM_CREDIT_BYTES"
    using send_credit_ok [OF assms, of bytes controls] by blast
  show ?thesis
  proof (cases r)
    case (Inr x)
    obtain s1 c where x: "x = (s1, c)" by (cases x)
    have s1: "sender_inv s1" "fs_outstanding_bytes s1 + bytes \<le> STREAM_CREDIT_BYTES" using r(2) Inr x by auto
    obtain r2 where "release_acknowledged c s1 = Some r2"
      "\<And>s'. r2 = Inr s' \<Longrightarrow> sender_inv s' \<and> fs_outstanding_bytes s' \<le> fs_outstanding_bytes s1"
      using release_acknowledged_ok [OF s1(1), of c] by blast
    then show ?thesis using r(1) Inr x s1(2)
      by (cases r2; cases waits) (force simp: sender_send_def sender_inv_def)+
  qed (use r in \<open>auto simp: sender_send_def\<close>)
qed

section \<open>The frames of a snapshot\<close>

definition page_bodies :: "bytes \<Rightarrow> nat \<Rightarrow> inventory_page \<Rightarrow> server_body list" where
  "page_bodies sid n p = (if pg_records p = [] then [] else [SnapshotPage sid n (map record_to_wire (pg_records p))])"

inductive page_stream ::
  "nat \<Rightarrow> nat \<Rightarrow> inventory_scope \<Rightarrow> bytes \<Rightarrow> residence option \<Rightarrow> nat \<Rightarrow> inventory list \<Rightarrow> server_body list \<Rightarrow> nat \<Rightarrow> bool"
  for sz micros scope sid where
  page_last: "scoped_page sz micros iv cursor scope = (iv', Inr p) \<Longrightarrow> pg_complete p \<Longrightarrow>
    page_stream sz micros scope sid cursor n (iv # ivs) (page_bodies sid n p) (n + length (page_bodies sid n p))"
| page_more: "scoped_page sz micros iv cursor scope = (iv', Inr p) \<Longrightarrow> \<not> pg_complete p \<Longrightarrow>
    page_stream sz micros scope sid (pg_next p) (n + length (page_bodies sid n p)) ivs bs cnt \<Longrightarrow>
    page_stream sz micros scope sid cursor n (iv # ivs) (page_bodies sid n p @ bs) cnt"

inductive replay_stream ::
  "(server_body \<Rightarrow> nat) \<Rightarrow> nat \<Rightarrow> (nat \<Rightarrow> nat) \<Rightarrow> inventory_scope \<Rightarrow> nat \<Rightarrow> nat \<Rightarrow> inventory list \<Rightarrow> server_body list \<Rightarrow> bool"
  for body_len sz micros scope fin where
  replay_end: "fin \<le> after \<Longrightarrow> replay_stream body_len sz micros scope fin after ivs []"
| replay_more: "after < fin \<Longrightarrow> bounded_delta body_len sz micros iv after fin scope = Some (iv', Inr d) \<Longrightarrow>
    replay_stream body_len sz micros scope fin (id_through d) ivs bs \<Longrightarrow>
    replay_stream body_len sz micros scope fin after (iv # ivs)
      (Delta after (id_through d) (map record_to_wire (id_records d)) # bs)"

text \<open>The bodies a run has added to what it started from.\<close>

definition added :: "snapshot_run \<Rightarrow> snapshot_run \<Rightarrow> server_body list \<Rightarrow> bool" where
  "added run run' bs \<longleftrightarrow>
     (\<exists>fs. sr_frames run' = sr_frames run @ fs \<and> map sf_body fs = map Some bs)"

lemma added_refl [simp]: "added run run []"
  by (simp add: added_def)

lemma added_trans: "added a b xs \<Longrightarrow> added b c ys \<Longrightarrow> added a c (xs @ ys)"
  unfolding added_def by (metis append.assoc map_append)

lemma emit_added: "emit encode body run = Inr run' \<Longrightarrow> added run run' [body]"
  by (auto simp: emit_def sender_frame_def added_def rbind_eq_Inr_iff Let_def split: if_splits)

lemma serve_pages_stream:
  assumes "serve_pages encode body_len sz micros scope sid cursor n run ivs = Some (run', Inr cnt)"
  shows "\<exists>bs. page_stream sz micros scope sid cursor n ivs bs cnt \<and> added run run' bs"
  using assms
proof (induction encode body_len sz micros scope sid cursor n run ivs rule: serve_pages.induct)
  case (2 encode body_len sz micros scope sid cursor n run iv ivs)
  obtain iv' p where p: "scoped_page sz micros iv cursor scope = (iv', Inr p)"
    using "2.prems" by (cases "scoped_page sz micros iv cursor scope") (auto split: sum.splits)
  show ?case
  proof (cases "pg_records p = []")
    case True
    then have pb: "page_bodies sid n p = []" by (simp add: page_bodies_def)
    show ?thesis
    proof (cases "pg_complete p")
      case complete: True
      then show ?thesis using page_last [OF p complete, of sid n ivs] "2.prems" True p pb by auto
    next
      case False
      then obtain bs where "page_stream sz micros scope sid (pg_next p) n ivs bs cnt" "added run run' bs"
        using 2(1) [of p] "2.prems" True p by auto
      then show ?thesis using page_more [OF p False, of sid n ivs bs cnt] pb by auto
    qed
  next
    case False
    let ?body = "SnapshotPage sid n (map record_to_wire (pg_records p))"
    obtain run1 where run1: "emit encode ?body run = Inr run1" "body_len ?body \<le> FRAME_BYTES"
      using "2.prems" p False by (auto simp: Let_def split: if_splits sum.splits)
    have pb: "page_bodies sid n p = [?body]" using False by (simp add: page_bodies_def)
    note first = emit_added [OF run1(1)]
    show ?thesis
    proof (cases "pg_complete p")
      case True
      then show ?thesis using page_last [OF p True, of sid n ivs] "2.prems" False p pb run1 first
        by (auto simp: Let_def)
    next
      case more: False
      then obtain bs where "page_stream sz micros scope sid (pg_next p) (n + 1) ivs bs cnt" "added run1 run' bs"
        using 2(2) [of p ?body run1] "2.prems" False p run1 by (auto simp: Let_def)
      then show ?thesis using page_more [OF p more, of sid n ivs bs cnt] pb added_trans [OF first] by auto
    qed
  qed
qed simp

lemma serve_replay_stream:
  assumes "serve_replay encode body_len sz micros scope after fin run ivs = Some (run', Inr u)"
  shows "\<exists>bs. replay_stream body_len sz micros scope fin after ivs bs \<and> added run run' bs"
  using assms
proof (induction ivs arbitrary: after run)
  case Nil
  then show ?case by (auto simp: serve_replay.simps [of _ _ _ _ _ _ _ _ "[]"] intro: replay_end split: if_splits)
next
  case (Cons iv ivs)
  note simps = serve_replay.simps [of encode body_len sz micros scope after fin run "iv # ivs"]
  show ?case
  proof (cases "after \<ge> fin")
    case True
    then show ?thesis using Cons.prems by (auto simp: simps intro: replay_end)
  next
    case False
    obtain iv1 res where b: "bounded_delta body_len sz micros iv after fin scope = Some (iv1, res)"
      using Cons.prems False by (auto simp: simps bind_eq_Some_conv)
    then obtain d where d: "res = Inr d"
      using Cons.prems False by (cases res) (auto simp: simps split: if_splits sum.splits)
    let ?body = "Delta after (id_through d) (map record_to_wire (id_records d))"
    obtain run1 where run1: "emit encode ?body run = Inr run1"
      "serve_replay encode body_len sz micros scope (id_through d) fin run1 ivs = Some (run', Inr u)"
      using Cons.prems False b d by (auto simp: simps split: sum.splits)
    then obtain bs where "replay_stream body_len sz micros scope fin (id_through d) ivs bs" "added run1 run' bs"
      using Cons.IH by blast
    then show ?thesis using replay_more [OF _ b [unfolded d]] False added_trans [OF emit_added [OF run1(1)]]
      by fastforce
  qed
qed

text \<open>A snapshot that succeeds has sent its begin, the pages, the replay and the commit, in this order.\<close>

lemma serve_snapshot_stream:
  assumes "serve_snapshot encode body_len sha uuid_as_bytes sz micros scope snapshot_id view_id s
      iv_start iv_pages iv_end iv_replay = Some (run, Inr fin)"
  shows "fin = iv_sequence iv_end" and
    "\<exists>ps ds digest cnt. page_stream sz (micros 0) scope (uuid_as_bytes snapshot_id) None 0 iv_pages ps cnt \<and>
      replay_stream body_len sz micros scope fin (iv_sequence iv_start) iv_replay ds \<and>
      map sf_body (sr_frames run) = map Some
        ([SnapshotBegin (uuid_as_bytes snapshot_id) (uuid_as_bytes view_id) (iv_sequence iv_start)] @ ps @ ds @
         [SnapshotCommit (uuid_as_bytes snapshot_id) (uuid_as_bytes view_id) fin digest cnt])"
proof -
  let ?sid = "uuid_as_bytes snapshot_id" and ?vid = "uuid_as_bytes view_id" and ?start = "iv_sequence iv_start"
  let ?run0 = "\<lparr>sr_sender = s, sr_transcript = [], sr_frames = []\<rparr>"
  note eqs = serve_snapshot_def Let_def
  obtain run1 where r1: "emit encode (SnapshotBegin ?sid ?vid ?start) ?run0 = Inr run1"
    using assms by (auto simp: eqs split: sum.splits)
  obtain run2 pages where r2': "serve_pages encode body_len sz (micros 0) scope ?sid None 0 run1 iv_pages = Some (run2, pages)"
    using assms r1 by (auto simp: eqs bind_eq_Some_conv)
  then obtain cnt where r2: "serve_pages encode body_len sz (micros 0) scope ?sid None 0 run1 iv_pages = Some (run2, Inr cnt)"
    using assms r1 by (cases pages) (auto simp: eqs)
  obtain run3 replayed where "serve_replay encode body_len sz micros scope ?start (iv_sequence iv_end) run2 iv_replay = Some (run3, replayed)"
    using assms r1 r2 by (auto simp: eqs bind_eq_Some_conv)
  then obtain u where r3: "serve_replay encode body_len sz micros scope ?start (iv_sequence iv_end) run2 iv_replay = Some (run3, Inr u)"
    using assms r1 r2 by (cases replayed) (auto simp: eqs)
  let ?commit = "SnapshotCommit ?sid ?vid (iv_sequence iv_end) (sha (sr_transcript run3)) cnt"
  obtain f s1 where f: "sender_frame encode (sr_sender run3) ?commit = Inr (f, s1)" and fin: "fin = iv_sequence iv_end"
    and run: "sr_frames run = sr_frames run3 @ [f]"
    using assms r1 r2 r3 by (auto simp: eqs split: sum.splits)
  show "fin = iv_sequence iv_end" by (fact fin)
  obtain ps where ps: "page_stream sz (micros 0) scope ?sid None 0 iv_pages ps cnt" "added run1 run2 ps"
    using serve_pages_stream [OF r2] by blast
  obtain ds where ds: "replay_stream body_len sz micros scope fin ?start iv_replay ds" "added run2 run3 ds"
    using serve_replay_stream [OF r3] fin by blast
  have "added ?run0 run3 ([SnapshotBegin ?sid ?vid ?start] @ ps @ ds)"
    using added_trans [OF emit_added [OF r1] added_trans [OF ps(2) ds(2)]] by simp
  moreover have "sf_body f = Some ?commit"
    using f by (auto simp: sender_frame_def rbind_eq_Inr_iff Let_def split: if_splits)
  ultimately have "map sf_body (sr_frames run) =
      map Some ([SnapshotBegin ?sid ?vid ?start] @ ps @ ds @ [?commit])"
    using run by (auto simp: added_def)
  then show "\<exists>ps ds digest cnt. page_stream sz (micros 0) scope ?sid None 0 iv_pages ps cnt \<and>
      replay_stream body_len sz micros scope fin ?start iv_replay ds \<and>
      map sf_body (sr_frames run) = map Some
        ([SnapshotBegin ?sid ?vid ?start] @ ps @ ds @ [SnapshotCommit ?sid ?vid fin digest cnt])"
    using ps(1) ds(1) fin by blast
qed

section \<open>Properties\<close>

inductive sender_step :: "frame_sender \<Rightarrow> frame_sender \<Rightarrow> bool" where
  step_frame: "sender_frame encode s body = Inr (f, s') \<Longrightarrow> sender_step s s'"
| step_send: "sender_send registered waits frame_id bytes controls s = Some (Inr s') \<Longrightarrow> sender_step s s'"
| step_release: "release_acknowledged c s = Some (Inr s') \<Longrightarrow> sender_step s s'"

interpretation fs: invariant_system "\<lambda>s. \<exists>session. s = sender_new session" sender_step sender_inv
proof
  show "sender_inv s" if "\<exists>session. s = sender_new session" for s
    using that by (auto simp: sender_new_def sender_inv_def)
  show "sender_inv t" if inv: "sender_inv s" and "sender_step s t" for s t
    using that(2)
  proof cases
    case (step_frame encode body f)
    then show ?thesis
      using inv by (auto simp: sender_frame_def sender_inv_def rbind_eq_Inr_iff Let_def split: if_splits)
  next
    case (step_send registered waits frame_id bytes controls)
    then show ?thesis using sender_send_ok [OF inv, of registered waits frame_id bytes controls] by auto
  next
    case (step_release c)
    then show ?thesis using release_acknowledged_ok [OF inv, of c] by auto
  qed
qed

abbreviation sender_reach :: "frame_sender \<Rightarrow> bool" where
  "sender_reach \<equiv> reach (\<lambda>s. \<exists>session. s = sender_new session) sender_step"

text \<open>C23. Whatever is sent and acknowledged, a sender never panics, its count of unacknowledged bytes is exact,
  and it stays within the credit of the stream.\<close>

theorem sender_within_credit:
  assumes "sender_reach s"
  shows "(\<exists>r. sender_send registered waits frame_id bytes controls s = Some r) \<and>
    (\<exists>r. release_acknowledged c s = Some r) \<and>
    fs_outstanding_bytes s = (\<Sum>f\<leftarrow>fs_outstanding s. snd f) \<and> fs_outstanding_bytes s \<le> STREAM_CREDIT_BYTES"
proof -
  have inv: "sender_inv s" using assms by (rule fs.reach_inv)
  then show ?thesis
    using sender_send_ok [OF inv, of registered waits frame_id bytes controls] release_acknowledged_ok [OF inv, of c]
    unfolding sender_inv_def by blast
qed

definition demo_sender :: frame_sender where
  "demo_sender = \<lparr>fs_session_id = [], fs_next_frame = 2, fs_outstanding_bytes = 700000, fs_outstanding = [(1, 700000)]\<rparr>"

lemma demo_sender_reach: "sender_reach demo_sender"
proof -
  have start: "sender_reach (sender_new [])" by (rule reach_start) blast
  have f: "sender_frame (\<lambda>_. []) (sender_new []) (Progress 0 0) =
      Inr (\<lparr>sf_frame_id = 1, sf_session_id = [], sf_body = Some (Progress 0 0)\<rparr>, (sender_new [])\<lparr>fs_next_frame := 2\<rparr>)"
    by (simp add: sender_frame_def sender_new_def checked_add_def u64_max_def)
  have "sender_send True None 1 700000 [control_default] ((sender_new [])\<lparr>fs_next_frame := 2\<rparr>) = Some (Inr demo_sender)"
    by (simp add: sender_send_def sender_new_def STREAM_CREDIT_BYTES_def release_acknowledged_def control_default_def
        u32_max_def demo_sender_def)
  then show ?thesis using reach_step [OF reach_step [OF start step_frame [OF f]] step_send] by blast
qed

theorem sender_within_credit_witness:
  "sender_send True None 2 700000 [control_default] demo_sender =
     Some (Inl ''inventory frame credit acknowledgement timed out'') \<and>
   fs_outstanding_bytes demo_sender \<le> STREAM_CREDIT_BYTES"
  using sender_within_credit [OF demo_sender_reach]
  by (simp add: sender_send_def STREAM_CREDIT_BYTES_def release_acknowledged_def control_default_def demo_sender_def)

text \<open>C24. Cutting a delta down to the frame size always ends, whatever sizes the encoder reports, and a delta it
  returns fits the frame, makes progress and does not pass the asked sequence.\<close>

theorem bounded_delta_returns:
  assumes "inventory_reach sz (iv, log)" and "after < through"
  shows "\<exists>iv' res. bounded_delta body_len sz micros iv after through scope = Some (iv', res) \<and>
    (\<forall>d. res = Inr d \<longrightarrow> after < id_through d \<and> id_through d \<le> through \<and>
      body_len (Delta after (id_through d) (map record_to_wire (id_records d))) \<le> FRAME_BYTES)"
proof -
  obtain iv' res where "bounded_delta_loop body_len sz micros iv after through scope = Some (iv', res)"
    "\<forall>d. res = Inr d \<longrightarrow> id_through d \<le> through \<and> delta_promise body_len log scope after (id_through d) d"
    using bounded_delta_loop_ok [OF iv.reach_inv [OF assms(1)] assms(2)] by blast
  then show ?thesis by (auto simp: bounded_delta_def delta_promise_def)
qed

theorem bounded_delta_returns_witness:
  "\<exists>iv' res. bounded_delta (\<lambda>b. case b of Delta _ n _ \<Rightarrow> n * 400000 | _ \<Rightarrow> 0) 96 (\<lambda>_. 0) demo_inventory 0 2 AllNamespaces =
     Some (iv', res)"
  using bounded_delta_returns [OF demo_inventory_reach, of 0 2] by fastforce

end
