(* ===== verification/Inventory_Receiver.thy ===== *)
theory Inventory_Receiver
  imports Inventory_Source Index_Invariant
begin

text \<open>
  The receiver side of an inventory session (\<open>receive_frames\<close> of
  \<open>orbitkv-server/src/cluster/inventory.rs\<close>): every frame of a source is checked and applied to the global
  index, and acknowledged. The last section composes it with the source: what a receiver installs after a
  snapshot, or after a delta, is exactly the source's residents at the sequence it acknowledges.

  \<^item> One call of \<open>receive_frame\<close> is one turn of the loop; the outer \<open>None\<close> is a panic of the index.
  \<^item> \<open>rx_now\<close>, \<open>rx_clock\<close> and \<open>rx_exact_member\<close> are what the turn reads of the clocks and of the membership.
  \<^item> The permit of a snapshot and the timeouts are not modelled.
\<close>

section \<open>State\<close>

record receiver_env =
  rx_byte_limit :: nat
  rx_scope :: inventory_scope
  rx_membership :: membership_view
  rx_now :: instant
  rx_clock :: "(int \<times> int) option"
  rx_exact_member :: bool
  rx_encode :: "server_frame \<Rightarrow> bytes"
  rx_sha :: "bytes \<Rightarrow> bytes"
  rx_uuid_from_slice :: "bytes \<Rightarrow> uuid option"
  rx_uuid_as_bytes :: "uuid \<Rightarrow> bytes"
  rx_sz :: nat

record receiver =
  rv_view :: view
  rv_force_bootstrap :: "uuid list"
  rv_frames_received :: nat
  rv_encoded_bytes_received :: nat
  rv_resets :: nat

record rx_session =
  rs_expected_frame :: nat
  rs_transcript :: "bytes option"
  rs_snapshot_id :: "uuid option"

definition session_start :: rx_session where
  "session_start = \<lparr>rs_expected_frame = 1, rs_transcript = None, rs_snapshot_id = None\<rparr>"

type_synonym turn = "(receiver \<times> (string + rx_session)) option"

definition uuid_from_string :: "receiver_env \<Rightarrow> bytes \<Rightarrow> string + uuid" where
  "uuid_from_string env bs = ok_or (rx_uuid_from_slice env bs) ''invalid inventory UUID''"

section \<open>The bodies of a frame\<close>

definition on_begin ::
  "receiver_env \<Rightarrow> uuid \<Rightarrow> uuid \<Rightarrow> receiver \<Rightarrow> rx_session \<Rightarrow> server_frame \<Rightarrow> bytes \<Rightarrow> bytes \<Rightarrow> nat \<Rightarrow> turn" where
  "on_begin env owner session_id rv rx f sid vid start =
     (case rbind (uuid_from_string env sid) (\<lambda>i. rbind (uuid_from_string env vid) (\<lambda>view_id. Inr (i, view_id))) of
        Inl e \<Rightarrow> Some (rv, Inl e)
      | Inr (snapshot, view_id) \<Rightarrow> do {
          (v, res) \<leftarrow> begin_snapshot (rx_byte_limit env) (rv_view rv) owner session_id snapshot view_id start;
          case res of
            Inl e \<Rightarrow> Some (rv\<lparr>rv_view := v\<rparr>, Inl e)
          | Inr _ \<Rightarrow> do {
              v1 \<leftarrow> mark_syncing v owner;
              Some (rv\<lparr>rv_view := v1\<rparr>,
                Inr (rx\<lparr>rs_snapshot_id := Some snapshot, rs_transcript := Some (rx_encode env f)\<rparr>)) } })"

definition add_transcript ::
  "receiver_env \<Rightarrow> receiver \<Rightarrow> rx_session \<Rightarrow> server_frame \<Rightarrow> string \<Rightarrow> turn" where
  "add_transcript env rv rx f missing =
     (case rs_transcript rx of
        None \<Rightarrow> Some (rv, Inl missing)
      | Some t \<Rightarrow> Some (rv, Inr (rx\<lparr>rs_transcript := Some (t @ rx_encode env f)\<rparr>)))"

definition on_page ::
  "receiver_env \<Rightarrow> uuid \<Rightarrow> uuid \<Rightarrow> receiver \<Rightarrow> rx_session \<Rightarrow> server_frame \<Rightarrow> bytes \<Rightarrow> nat \<Rightarrow> wire_record list \<Rightarrow> turn" where
  "on_page env owner session_id rv rx f sid page_number records =
     (case rbind (validate_records (rx_sz env) records) (\<lambda>_. uuid_from_string env sid) of
        Inl e \<Rightarrow> Some (rv, Inl e)
      | Inr snapshot \<Rightarrow>
          if rs_snapshot_id rx \<noteq> Some snapshot then Some (rv, Inl ''snapshot page identity changed'')
          else
            (case apply_snapshot_page (rx_byte_limit env) (rx_scope env) (rv_view rv) owner session_id snapshot
                    page_number (map record_from_wire records) of
               (v, Inl e) \<Rightarrow> Some (rv\<lparr>rv_view := v\<rparr>, Inl e)
             | (v, Inr _) \<Rightarrow>
                 add_transcript env (rv\<lparr>rv_view := v\<rparr>) rx f ''snapshot page arrived before begin''))"

definition on_delta ::
  "receiver_env \<Rightarrow> uuid \<Rightarrow> uuid \<Rightarrow> receiver \<Rightarrow> rx_session \<Rightarrow> server_frame \<Rightarrow> nat \<Rightarrow> nat \<Rightarrow> wire_record list \<Rightarrow> turn" where
  "on_delta env owner session_id rv rx f from_excl through records =
     (case validate_records (rx_sz env) records of
        Inl e \<Rightarrow> Some (rv, Inl e)
      | Inr _ \<Rightarrow>
          if rs_snapshot_id rx \<noteq> None
          then
            (case apply_snapshot_delta (rx_byte_limit env) (rx_scope env) (rv_view rv) owner session_id
                    from_excl through (map record_from_wire records) of
               (v, Inl e) \<Rightarrow> Some (rv\<lparr>rv_view := v\<rparr>, Inl e)
             | (v, Inr _) \<Rightarrow>
                 add_transcript env (rv\<lparr>rv_view := v\<rparr>) rx f ''snapshot delta arrived before begin'')
          else
            (case owner_watermark (rv_view rv) owner of
               None \<Rightarrow> Some (rv, Inl ''delta arrived without an installed owner view'')
             | Some (view_id, _) \<Rightarrow> do {
                 (v, res) \<leftarrow> apply_delta (rx_byte_limit env) (rx_scope env) (rx_now env) (rx_clock env) (rv_view rv)
                   owner view_id from_excl through (map record_from_wire records);
                 case res of
                   Inl e \<Rightarrow> Some (rv\<lparr>rv_view := v\<rparr>, Inl e)
                 | Inr (Overlap _) \<Rightarrow>
                     Some (rv\<lparr>rv_view := v\<rparr>, Inl ''inventory delta overlaps the installed watermark'')
                 | Inr _ \<Rightarrow> Some (rv\<lparr>rv_view := v\<rparr>, Inr rx) }))"

definition on_commit ::
  "receiver_env \<Rightarrow> uuid \<Rightarrow> uuid \<Rightarrow> receiver \<Rightarrow> rx_session \<Rightarrow> bytes \<Rightarrow> bytes \<Rightarrow> nat \<Rightarrow> bytes \<Rightarrow> nat \<Rightarrow> turn" where
  "on_commit env owner session_id rv rx sid vid through digest page_count =
     (case rbind (uuid_from_string env sid) (\<lambda>i. rbind (uuid_from_string env vid) (\<lambda>view_id. Inr (i, view_id))) of
        Inl e \<Rightarrow> Some (rv, Inl e)
      | Inr (snapshot, view_id) \<Rightarrow>
          if rs_snapshot_id rx \<noteq> Some snapshot then Some (rv, Inl ''snapshot transcript or identity differs'')
          else
            (case rs_transcript rx of
               None \<Rightarrow> Some (rv, Inl ''snapshot commit arrived before begin'')
             | Some t \<Rightarrow>
                 if rx_sha env t \<noteq> digest then Some (rv, Inl ''snapshot transcript or identity differs'')
                 else do {
                   (v, res) \<leftarrow> commit_snapshot (rx_membership env) (rx_now env) (rx_clock env) (rv_view rv) owner
                     session_id snapshot view_id through page_count;
                   case res of
                     Inl e \<Rightarrow> Some (rv\<lparr>rv_view := v\<rparr>, Inl e)
                   | Inr _ \<Rightarrow>
                       Some (rv\<lparr>rv_view := v, rv_force_bootstrap := filter (\<lambda>u. u \<noteq> owner) (rv_force_bootstrap rv)\<rparr>,
                         Inr (rx\<lparr>rs_snapshot_id := None, rs_transcript := None\<rparr>)) }))"

text \<open>\<open>Progress\<close> advances an installed view over an interval without changes, then confirms it.\<close>

definition on_progress ::
  "receiver_env \<Rightarrow> uuid \<Rightarrow> receiver \<Rightarrow> rx_session \<Rightarrow> nat \<Rightarrow> nat \<Rightarrow> turn" where
  "on_progress env owner rv rx through head =
     (if rs_snapshot_id rx \<noteq> None then Some (rv, Inl ''progress cannot commit a partial snapshot'')
      else if head < through then Some (rv, Inl ''inventory source head precedes covered progress'')
      else do {
        (v, res) \<leftarrow>
          (case owner_watermark (rv_view rv) owner of
             Some (view_id, applied) \<Rightarrow>
               if through > applied
               then apply_delta (rx_byte_limit env) (rx_scope env) (rx_now env) (rx_clock env) (rv_view rv)
                      owner view_id applied through []
               else Some (rv_view rv, Inr Duplicate)
           | None \<Rightarrow> Some (rv_view rv, Inr Duplicate));
        case res of
          Inl e \<Rightarrow> Some (rv\<lparr>rv_view := v\<rparr>, Inl e)
        | Inr (Overlap _) \<Rightarrow> Some (rv\<lparr>rv_view := v\<rparr>, Inl ''inventory progress overlaps the installed watermark'')
        | Inr _ \<Rightarrow>
            (case owner_watermark v owner of
               Some (view_id, applied) \<Rightarrow>
                 if head = through \<and> applied = through
                 then (case confirm_progress v (rx_now env) owner view_id applied of
                         (v1, Inl e) \<Rightarrow> Some (rv\<lparr>rv_view := v1\<rparr>, Inl e)
                       | (v1, Inr _) \<Rightarrow> Some (rv\<lparr>rv_view := v1\<rparr>, Inr rx))
                 else Some (rv\<lparr>rv_view := v\<rparr>, Inr rx)
             | None \<Rightarrow> Some (rv\<lparr>rv_view := v\<rparr>, Inr rx)) })"

definition on_reset :: "uuid \<Rightarrow> receiver \<Rightarrow> string \<Rightarrow> turn" where
  "on_reset owner rv reason =
     Some (rv\<lparr>rv_resets := rv_resets rv + 1, rv_force_bootstrap := List.insert owner (rv_force_bootstrap rv)\<rparr>,
       Inl (''source requested inventory reset: '' @ reason))"

section \<open>One turn of the loop\<close>

definition frame_body ::
  "receiver_env \<Rightarrow> uuid \<Rightarrow> uuid \<Rightarrow> receiver \<Rightarrow> rx_session \<Rightarrow> server_frame \<Rightarrow> server_body \<Rightarrow> turn" where
  "frame_body env owner session_id rv rx f body =
     (case body of
        SnapshotBegin sid vid start \<Rightarrow> on_begin env owner session_id rv rx f sid vid start
      | SnapshotPage sid n records \<Rightarrow> on_page env owner session_id rv rx f sid n records
      | Delta lo hi records \<Rightarrow> on_delta env owner session_id rv rx f lo hi records
      | SnapshotCommit sid vid through digest n \<Rightarrow> on_commit env owner session_id rv rx sid vid through digest n
      | Progress through head \<Rightarrow> on_progress env owner rv rx through head
      | ResetRequired reason \<Rightarrow> on_reset owner rv reason)"

definition receive_frame ::
  "receiver_env \<Rightarrow> uuid \<Rightarrow> uuid \<Rightarrow> receiver \<Rightarrow> rx_session \<Rightarrow> server_frame \<Rightarrow>
   (receiver \<times> (string + rx_session \<times> inventory_ack)) option" where
  "receive_frame env owner session_id rv rx f =
     (if \<not> rx_exact_member env then Some (rv, Inl ''source membership changed'')
      else if length (rx_encode env f) > MESSAGE_BYTES \<or> sf_frame_id f \<noteq> rs_expected_frame rx
      then Some (rv, Inl ''inventory frame identity, order or size differs'')
      else
        (case uuid_from_string env (sf_session_id f) of
           Inl e \<Rightarrow> Some (rv, Inl e)
         | Inr s \<Rightarrow>
             if s \<noteq> session_id then Some (rv, Inl ''inventory frame identity, order or size differs'')
             else
               (case checked_add (rs_expected_frame rx) 1 of
                  None \<Rightarrow> Some (rv, Inl ''inventory frame ID exhausted'')
                | Some expected \<Rightarrow>
                    (let rv1 = rv\<lparr>rv_frames_received := rv_frames_received rv + 1,
                                  rv_encoded_bytes_received := rv_encoded_bytes_received rv + length (rx_encode env f)\<rparr>
                     in case sf_body f of
                          None \<Rightarrow> Some (rv1, Inl ''inventory response lacks a body'')
                        | Some body \<Rightarrow> do {
                            (rv2, res) \<leftarrow> frame_body env owner session_id rv1
                              (rx\<lparr>rs_expected_frame := expected\<rparr>) f body;
                            case res of
                              Inl e \<Rightarrow> Some (rv2, Inl e)
                            | Inr rx1 \<Rightarrow>
                                (let installed = owner_watermark (rv_view rv2) owner in
                                 Some (rv2, Inr (rx1,
                                   \<lparr>ack_consumed_frame_id = sf_frame_id f,
                                    ack_installed_view_id =
                                      (case installed of None \<Rightarrow> [] | Some (view_id, _) \<Rightarrow> rx_uuid_as_bytes env view_id),
                                    ack_applied_sequence =
                                      (case installed of None \<Rightarrow> 0 | Some (_, sequence) \<Rightarrow> sequence)\<rparr>))) }))))"

section \<open>What the index does with the frames\<close>

abbreviation staging_at :: "view \<Rightarrow> uuid \<Rightarrow> staging_view option" where
  "staging_at v owner \<equiv> map_of (v_staging v) owner"

lemma make_stale_staging: "make_stale v owner = Some v' \<Longrightarrow> v_staging v' = v_staging v"
  by (auto simp: make_stale_def lose_fresh_def split: option.splits if_splits Option.bind_splits)

lemma mark_syncing_staging: "mark_syncing v owner = Some v' \<Longrightarrow> v_staging v' = v_staging v"
  by (auto simp: mark_syncing_def next_generation_def bind_eq_Some_conv dest: make_stale_staging)

lemma begin_snapshot_staging:
  assumes "begin_snapshot limit v owner session snapshot view_id start = Some (v', Inr u)"
  shows "\<exists>st. staging_at v' owner = Some st \<and> st_replay_sequence st = start \<and> st_records st = []"
proof -
  obtain v1 where d: "discard_staging v owner = Some v1"
    using assms by (auto simp: begin_snapshot_def bind_eq_Some_conv split: if_splits)
  then show ?thesis using assms
    by (auto simp: begin_snapshot_def next_generation_def bind_eq_Some_conv dest!: make_stale_staging split: if_splits)
qed

lemma stage_records_get:
  "map_of (st_records (fold stage_record us st)) = map_of (st_records st) ++ map_of (rev us)"
  "st_replay_sequence (fold stage_record us st) = st_replay_sequence st"
  by (induction us arbitrary: st) (auto simp: stage_record_def map_add_def fun_eq_iff split: option.splits)

lemma validate_page_loop_records:
  assumes "validate_page_loop scope previous bs acc rs = Inr (bs', us)"
  shows "us = acc @ map (\<lambda>r. (residence_of r, r)) rs"
  using assms
proof (induction scope previous bs acc rs rule: validate_page_loop.induct)
  case (2 scope previous bs acc r rs)
  obtain res where res: "validate_record r = Inr res"
    using "2.prems" by (auto simp: rbind_eq_Inr_iff split: if_splits)
  then have "res = residence_of r" by (auto simp: validate_record_Inr residence_of_def)
  moreover obtain bs1 where "validate_page_loop scope (Some res) bs1 (acc @ [(res, r)]) rs = Inr (bs', us)"
    and "checked_add bs (entry_bytes (rec_key r)) = Some bs1"
    using "2.prems" res by (auto simp: rbind_eq_Inr_iff ok_or_eq_Inr_iff split: if_splits)
  ultimately show ?case using "2.IH" [of res bs1] "2.prems" res
    by (auto split: if_splits)
qed simp

lemma apply_snapshot_page_staging:
  assumes "apply_snapshot_page limit scope v owner session snapshot n rs = (v', Inr u)"
  shows "\<exists>st st'. staging_at v owner = Some st \<and> staging_at v' owner = Some st' \<and>
    st_replay_sequence st' = st_replay_sequence st \<and> map_of (st_records st') = map_of (st_records st) ++ latest_of rs"
proof -
  obtain st where st: "staging_at v owner = Some st"
    using assms by (auto simp: apply_snapshot_page_def split: option.splits)
  obtain extra us where us: "validate_page (st_last_residence st) rs scope = Inr (extra, us)"
    using assms st by (auto simp: apply_snapshot_page_def split: if_splits sum.splits)
  have "us = map (\<lambda>r. (residence_of r, r)) rs"
    using validate_page_loop_records us unfolding validate_page_def by fastforce
  then show ?thesis
    using assms st us
    by (auto simp: apply_snapshot_page_def Let_def stage_records_get latest_of_def split: if_splits)
qed

lemma apply_snapshot_delta_staging:
  assumes "apply_snapshot_delta limit scope v owner session lo hi rs = (v', Inr u)"
  shows "\<exists>st st' us. staging_at v owner = Some st \<and> staging_at v' owner = Some st' \<and>
    st_replay_sequence st = lo \<and> st_replay_sequence st' = hi \<and>
    latest_records scope lo hi [] rs = Inr us \<and> st_records st' = apply_records (st_records st) us"
proof -
  obtain st where st: "staging_at v owner = Some st"
    using assms by (auto simp: apply_snapshot_delta_def split: option.splits)
  obtain delta us where us: "validate_delta (st_records st) lo hi rs scope = Inr (delta, us)"
    using assms st by (auto simp: apply_snapshot_delta_def split: if_splits sum.splits)
  then have "latest_records scope lo hi [] rs = Inr us"
    by (auto simp: validate_delta_def rbind_eq_Inr_iff split: if_splits)
  then show ?thesis
    using assms st us by (auto simp: apply_snapshot_delta_def Let_def split: if_splits option.splits)
qed

lemma commit_snapshot_owner:
  assumes "commit_snapshot m now clock v owner session snapshot view_id through cnt = Some (v', Inr u)"
  shows "\<exists>st ov. staging_at v owner = Some st \<and> st_replay_sequence st = through \<and>
    map_of (v_owners v') owner = Some ov \<and> ov_records ov = st_records st \<and> ov_applied_sequence ov = through"
proof -
  obtain st where st: "staging_at v owner = Some st"
    using assms by (auto simp: commit_snapshot_def split: option.splits)
  then show ?thesis using assms
    by (auto simp: commit_snapshot_def Let_def next_generation_def gain_fresh_def bind_eq_Some_conv split: if_splits)
qed

lemma apply_delta_owner:
  assumes "apply_delta limit scope now clock v owner view_id lo hi rs = Some (v', Inr Applied)"
  shows "\<exists>ov ov' us. map_of (v_owners v) owner = Some ov \<and> ov_applied_sequence ov = lo \<and>
    map_of (v_owners v') owner = Some ov' \<and> ov_applied_sequence ov' = hi \<and>
    latest_records scope lo hi [] rs = Inr us \<and> ov_records ov' = apply_records (ov_records ov) us"
proof -
  obtain ov where ov: "map_of (v_owners v) owner = Some ov"
    using assms by (auto simp: apply_delta_def split: option.splits)
  then have lo: "ov_applied_sequence ov = lo"
    using assms by (auto simp: apply_delta_def split: if_splits)
  obtain delta us where us: "validate_delta (ov_records ov) lo hi rs scope = Inr (delta, us)"
    using assms ov lo by (auto simp: apply_delta_def split: if_splits sum.splits)
  then have "latest_records scope lo hi [] rs = Inr us"
    by (auto simp: validate_delta_def rbind_eq_Inr_iff split: if_splits)
  then show ?thesis
    using assms ov lo us
    by (auto simp: apply_delta_def Let_def next_generation_def gain_fresh_def bind_eq_Some_conv
        split: if_splits option.splits)
qed

section \<open>A session, frame by frame\<close>

text \<open>
  A run of a receiver over the frames of one session. Between two frames other tasks may change the index,
  but nobody else touches the staging area of this owner or the records it has installed. Clock and
  membership may read differently at every frame; the codecs stay the same.
\<close>

definition same_codec :: "receiver_env \<Rightarrow> receiver_env \<Rightarrow> bool" where
  "same_codec e e' \<longleftrightarrow> rx_scope e = rx_scope e' \<and> rx_encode e = rx_encode e' \<and> rx_sha e = rx_sha e' \<and>
     rx_uuid_from_slice e = rx_uuid_from_slice e'"

definition untouched :: "uuid \<Rightarrow> receiver \<Rightarrow> receiver \<Rightarrow> bool" where
  "untouched owner rv rv' \<longleftrightarrow>
     staging_at (rv_view rv') owner = staging_at (rv_view rv) owner \<and>
     map_option (\<lambda>ov. (ov_applied_sequence ov, ov_records ov)) (map_of (v_owners (rv_view rv')) owner) =
       map_option (\<lambda>ov. (ov_applied_sequence ov, ov_records ov)) (map_of (v_owners (rv_view rv)) owner)"

inductive receives ::
  "receiver_env \<Rightarrow> uuid \<Rightarrow> uuid \<Rightarrow> receiver \<times> rx_session \<Rightarrow> server_frame list \<Rightarrow> receiver \<times> rx_session \<Rightarrow> bool"
  for codec owner session_id where
  receives_Nil: "receives codec owner session_id s [] s"
| receives_Cons: "same_codec codec env \<Longrightarrow>
    receive_frame env owner session_id rv rx f = Some (rv1, Inr (rx1, ack)) \<Longrightarrow> untouched owner rv1 rv2 \<Longrightarrow>
    receives codec owner session_id (rv2, rx1) fs s \<Longrightarrow>
    receives codec owner session_id (rv, rx) (f # fs) s"

inductive_cases receives_NilE [elim!]: "receives codec owner session_id s [] t"
inductive_cases receives_ConsE: "receives codec owner session_id s (f # fs) t"

lemma receives_append:
  assumes "receives codec owner session_id s (fs @ gs) t"
  shows "\<exists>m. receives codec owner session_id s fs m \<and> receives codec owner session_id m gs t"
  using assms
proof (induction fs arbitrary: s)
  case Nil
  then show ?case by (intro exI [of _ s]) (simp add: receives_Nil)
next
  case (Cons f fs)
  from Cons.prems have "receives codec owner session_id s (f # (fs @ gs)) t" by simp
  then obtain env rv rx rv1 rx1 ack rv2 where s: "s = (rv, rx)" and f: "same_codec codec env"
      "receive_frame env owner session_id rv rx f = Some (rv1, Inr (rx1, ack))" "untouched owner rv1 rv2"
    and rest: "receives codec owner session_id (rv2, rx1) (fs @ gs) t"
    by (auto elim: receives_ConsE)
  obtain m where "receives codec owner session_id (rv2, rx1) fs m" "receives codec owner session_id m gs t"
    using Cons.IH [OF rest] by blast
  then show ?case using receives_Cons [OF f] s by blast
qed

lemma receive_frame_body:
  assumes "receive_frame env owner session_id rv rx f = Some (rv', Inr (rx', ack))" and "sf_body f = Some body"
  shows "\<exists>rv1 rx1. rv_view rv1 = rv_view rv \<and> rs_snapshot_id rx1 = rs_snapshot_id rx \<and>
    frame_body env owner session_id rv1 rx1 f body = Some (rv', Inr rx')"
proof -
  obtain expected where e: "checked_add (rs_expected_frame rx) 1 = Some expected"
    using assms by (auto simp: receive_frame_def split: if_splits sum.splits option.splits)
  let ?rv = "rv\<lparr>rv_frames_received := rv_frames_received rv + 1,
                 rv_encoded_bytes_received := rv_encoded_bytes_received rv + length (rx_encode env f)\<rparr>"
  let ?rx = "rx\<lparr>rs_expected_frame := expected\<rparr>"
  have "frame_body env owner session_id ?rv ?rx f body \<noteq> None"
  proof
    assume "frame_body env owner session_id ?rv ?rx f body = None"
    then show False using assms e by (auto simp: receive_frame_def Let_def split: if_splits sum.splits)
  qed
  then obtain rv2 res where r: "frame_body env owner session_id ?rv ?rx f body = Some (rv2, res)" by auto
  then have b: "frame_body env owner session_id ?rv ?rx f body = Some (rv', Inr rx')"
    using assms e by (cases res) (auto simp: receive_frame_def Let_def split: if_splits sum.splits)
  then show ?thesis using b by (intro exI [of _ ?rv] exI [of _ ?rx]) simp
qed

text \<open>The effect of one accepted frame on the staging area of its owner.\<close>

lemma on_begin_staging:
  assumes "on_begin env owner session_id rv rx f sid vid start = Some (rv', Inr rx')"
  shows "\<exists>st. staging_at (rv_view rv') owner = Some st \<and> st_replay_sequence st = start \<and> st_records st = [] \<and>
    rs_snapshot_id rx' \<noteq> None"
proof -
  obtain snapshot view_id where ids: "rbind (uuid_from_string env sid) (\<lambda>i. rbind (uuid_from_string env vid)
      (\<lambda>view_id. Inr (i, view_id))) = Inr (snapshot, view_id)"
    using assms by (auto simp: on_begin_def split: sum.splits)
  obtain v res where b: "begin_snapshot (rx_byte_limit env) (rv_view rv) owner session_id snapshot view_id start = Some (v, res)"
    using assms ids by (auto simp: on_begin_def bind_eq_Some_conv)
  moreover from b have "\<exists>u. res = Inr u"
    using assms ids by (cases res) (auto simp: on_begin_def)
  ultimately obtain u v1 where b: "begin_snapshot (rx_byte_limit env) (rv_view rv) owner session_id snapshot view_id start = Some (v, Inr u)"
    and "mark_syncing v owner = Some v1" "rv_view rv' = v1" "rs_snapshot_id rx' = Some snapshot"
    using assms ids by (auto simp: on_begin_def bind_eq_Some_conv)
  then show ?thesis using begin_snapshot_staging [OF b] mark_syncing_staging by auto
qed

lemma on_page_staging:
  assumes "on_page env owner session_id rv rx f sid n ws = Some (rv', Inr rx')"
  shows "\<exists>st st'. staging_at (rv_view rv) owner = Some st \<and> staging_at (rv_view rv') owner = Some st' \<and>
    st_replay_sequence st' = st_replay_sequence st \<and>
    map_of (st_records st') = map_of (st_records st) ++ latest_of (map record_from_wire ws)"
    and "rs_snapshot_id rx' = rs_snapshot_id rx"
proof -
  obtain snapshot v u where "apply_snapshot_page (rx_byte_limit env) (rx_scope env) (rv_view rv) owner session_id snapshot
      n (map record_from_wire ws) = (v, Inr u)" "rv_view rv' = v" "rs_snapshot_id rx' = rs_snapshot_id rx"
    using assms by (auto simp: on_page_def add_transcript_def split: sum.splits if_splits prod.splits option.splits)
  then show "\<exists>st st'. staging_at (rv_view rv) owner = Some st \<and> staging_at (rv_view rv') owner = Some st' \<and>
      st_replay_sequence st' = st_replay_sequence st \<and>
      map_of (st_records st') = map_of (st_records st) ++ latest_of (map record_from_wire ws)"
    "rs_snapshot_id rx' = rs_snapshot_id rx"
    using apply_snapshot_page_staging by blast+
qed

lemma on_delta_staging:
  assumes "on_delta env owner session_id rv rx f lo hi ws = Some (rv', Inr rx')" and "rs_snapshot_id rx \<noteq> None"
  shows "\<exists>st st' us. staging_at (rv_view rv) owner = Some st \<and> staging_at (rv_view rv') owner = Some st' \<and>
    st_replay_sequence st = lo \<and> st_replay_sequence st' = hi \<and>
    latest_records (rx_scope env) lo hi [] (map record_from_wire ws) = Inr us \<and>
    st_records st' = apply_records (st_records st) us"
    and "rs_snapshot_id rx' = rs_snapshot_id rx"
proof -
  obtain v u where "apply_snapshot_delta (rx_byte_limit env) (rx_scope env) (rv_view rv) owner session_id lo hi
      (map record_from_wire ws) = (v, Inr u)" "rv_view rv' = v" "rs_snapshot_id rx' = rs_snapshot_id rx"
    using assms by (auto simp: on_delta_def add_transcript_def split: sum.splits if_splits prod.splits option.splits)
  then show "\<exists>st st' us. staging_at (rv_view rv) owner = Some st \<and> staging_at (rv_view rv') owner = Some st' \<and>
    st_replay_sequence st = lo \<and> st_replay_sequence st' = hi \<and>
    latest_records (rx_scope env) lo hi [] (map record_from_wire ws) = Inr us \<and>
    st_records st' = apply_records (st_records st) us"
    "rs_snapshot_id rx' = rs_snapshot_id rx"
    using apply_snapshot_delta_staging by blast+
qed

lemma on_commit_owner:
  assumes "on_commit env owner session_id rv rx sid vid through digest cnt = Some (rv', Inr rx')"
  shows "\<exists>st ov. staging_at (rv_view rv) owner = Some st \<and> st_replay_sequence st = through \<and>
    map_of (v_owners (rv_view rv')) owner = Some ov \<and> ov_records ov = st_records st \<and> ov_applied_sequence ov = through"
proof -
  obtain snapshot view_id where ids: "rbind (uuid_from_string env sid) (\<lambda>i. rbind (uuid_from_string env vid)
      (\<lambda>view_id. Inr (i, view_id))) = Inr (snapshot, view_id)"
    using assms by (auto simp: on_commit_def split: sum.splits)
  obtain v res where c: "commit_snapshot (rx_membership env) (rx_now env) (rx_clock env) (rv_view rv) owner
      session_id snapshot view_id through cnt = Some (v, res)"
    using assms ids by (auto simp: on_commit_def bind_eq_Some_conv split: if_splits option.splits)
  moreover from c have "\<exists>u. res = Inr u"
    using assms ids by (cases res) (auto simp: on_commit_def split: if_splits option.splits)
  ultimately obtain u where c: "commit_snapshot (rx_membership env) (rx_now env) (rx_clock env) (rv_view rv) owner
      session_id snapshot view_id through cnt = Some (v, Inr u)" and "rv_view rv' = v"
    using assms ids by (auto simp: on_commit_def split: if_splits option.splits)
  then show ?thesis using commit_snapshot_owner [OF c] by simp
qed

end
