(* ===== verification/Snapshot_Transfer.thy ===== *)
theory Snapshot_Transfer
  imports Inventory_Receiver Index_Properties
begin

text \<open>
  The composition of the two sides of the inventory stream: a source whose inventory keeps changing while
  it serves a snapshot, and a receiver that applies the frames to its global index. After the commit the
  receiver holds exactly the residents the source had, in the receiver's scope, at the sequence the commit
  names; and every delta keeps it that way.
\<close>

section \<open>Pages\<close>

text \<open>An inventory observed at some time between \<open>lo\<close> and \<open>hi\<close> of a history.\<close>

definition observed :: "nat \<Rightarrow> inventory_record list \<Rightarrow> nat \<Rightarrow> nat \<Rightarrow> inventory \<Rightarrow> bool" where
  "observed sz history lo hi iv \<longleftrightarrow>
     inventory_reach sz (iv, take (iv_sequence iv) history) \<and> lo \<le> iv_sequence iv \<and> iv_sequence iv \<le> hi"

definition reached :: "residence option \<Rightarrow> residence \<Rightarrow> bool" where
  "reached cursor res = (case cursor of None \<Rightarrow> False | Some c \<Rightarrow> res \<le> c)"

text \<open>The staged records while pages arrive: below the cursor each has the value of some observation,
  beyond it there is nothing.\<close>

definition paged ::
  "inventory_record list \<Rightarrow> inventory_scope \<Rightarrow> nat \<Rightarrow> nat \<Rightarrow> residence option \<Rightarrow> residence_map \<Rightarrow> bool" where
  "paged history scope lo hi cursor records \<longleftrightarrow>
     (\<forall>res. if reached cursor res
            then \<exists>t. lo \<le> t \<and> t \<le> hi \<and> map_of records res = scoped scope (replay (take t history)) res
            else map_of records res = None)"

definition staged :: "uuid \<Rightarrow> nat \<Rightarrow> (residence_map \<Rightarrow> bool) \<Rightarrow> receiver \<times> rx_session \<Rightarrow> bool" where
  "staged owner q P s \<longleftrightarrow>
     (\<exists>st. staging_at (rv_view (fst s)) owner = Some st \<and> st_replay_sequence st = q \<and> P (st_records st)) \<and>
     rs_snapshot_id (snd s) \<noteq> None"

lemma staged_untouched: "staged owner q P (rv, rx) \<Longrightarrow> untouched owner rv rv' \<Longrightarrow> staged owner q P (rv', rx)"
  by (simp add: staged_def untouched_def)

lemma paged_step:
  assumes paged: "paged history scope lo hi cursor records" and obs: "observed sz history lo hi iv"
    and page: "scoped_page sz micros iv cursor scope = (iv', Inr p)"
    and records': "map_of records' = map_of records ++ latest_of (pg_records p)"
  shows "pg_complete p \<Longrightarrow> fuzzy history scope lo hi records'"
    and "\<not> pg_complete p \<Longrightarrow> paged history scope lo hi (pg_next p) records'"
proof -
  let ?log = "take (iv_sequence iv) history"
  have inv: "inventory_inv sz (iv, ?log)" using obs iv.reach_inv by (simp add: observed_def)
  note pg = page_exact [OF inv page]
  have latest: "latest_of (pg_records p) res = (if covers cursor p res then scoped scope (replay ?log) res else None)" for res
  proof (cases "covers cursor p res")
    case True
    then show ?thesis using pg(1,4) by simp
  next
    case False
    then have "res \<notin> residence_of ` set (pg_records p)" using pg(2) by auto
    then show ?thesis using False latest_of_None by fastforce
  qed
  have old: "if reached cursor res
      then \<exists>t. lo \<le> t \<and> t \<le> hi \<and> map_of records res = scoped scope (replay (take t history)) res
      else map_of records res = None" for res
    using paged unfolding paged_def by blast
  have new: "\<exists>t. lo \<le> t \<and> t \<le> hi \<and> map_of records' res = scoped scope (replay (take t history)) res"
    if "reached cursor res \<or> covers cursor p res" for res
  proof (cases "covers cursor p res")
    case True
    then have "\<not> reached cursor res" by (auto simp: covers_def reached_def not_le split: option.splits)
    then have "map_of records res = None" using old [of res] by simp
    then have "map_of records' res = scoped scope (replay ?log) res"
      using latest [of res] True records' by (simp add: map_add_def split: option.splits)
    then show ?thesis using obs by (auto simp: observed_def)
  next
    case False
    then have "map_of records' res = map_of records res" using latest [of res] records' by (simp add: map_add_def)
    then show ?thesis using old [of res] that False by simp
  qed
  show "fuzzy history scope lo hi records'" if c: "pg_complete p"
  proof -
    have "reached cursor res \<or> covers cursor p res" for res
      using c by (auto simp: covers_def reached_def not_le split: option.splits)
    then show ?thesis using new unfolding fuzzy_def by blast
  qed
  show "paged history scope lo hi (pg_next p) records'" if c: "\<not> pg_complete p"
  proof -
    obtain b where b: "pg_next p = Some b" "case cursor of None \<Rightarrow> True | Some a \<Rightarrow> a < b" using pg(3) [OF c] by blast
    have "reached (pg_next p) res \<longleftrightarrow> reached cursor res \<or> covers cursor p res" for res
      using b c by (auto simp: reached_def covers_def not_le split: option.splits)
    moreover have "map_of records' res = None" if "\<not> (reached cursor res \<or> covers cursor p res)" for res
      using that latest [of res] old [of res] records' by (simp add: map_add_def)
    ultimately show ?thesis using new unfolding paged_def by simp
  qed
qed

lemma receive_one:
  assumes "receives codec owner session_id s [f] t" and "sf_body f = Some body"
  shows "\<exists>env rv rx rv1 rx1. same_codec codec env \<and> rv_view rv = rv_view (fst s) \<and>
    rs_snapshot_id rx = rs_snapshot_id (snd s) \<and>
    frame_body env owner session_id rv rx f body = Some (rv1, Inr rx1) \<and> untouched owner rv1 (fst t) \<and> rx1 = snd t"
proof -
  obtain env rv rx rv1 rx1 ack rv2 where s: "s = (rv, rx)" and f: "same_codec codec env"
      "receive_frame env owner session_id rv rx f = Some (rv1, Inr (rx1, ack))" "untouched owner rv1 rv2" "t = (rv2, rx1)"
    using assms(1) by (auto elim: receives_ConsE)
  then show ?thesis using receive_frame_body [OF f(2) assms(2)] by auto
qed

lemma receive_page:
  assumes "receives codec owner session_id s [f] t" and "sf_body f = Some (SnapshotPage sid n ws)"
    and "staged owner q P s"
    and "\<And>records records'. P records \<Longrightarrow>
      map_of records' = map_of records ++ latest_of (map record_from_wire ws) \<Longrightarrow> Q records'"
  shows "staged owner q Q t"
proof -
  obtain env rv rx rv1 rx1 where r: "rv_view rv = rv_view (fst s)" "rs_snapshot_id rx = rs_snapshot_id (snd s)"
      "on_page env owner session_id rv rx f sid n ws = Some (rv1, Inr rx1)" "untouched owner rv1 (fst t)" "rx1 = snd t"
    using receive_one [OF assms(1,2)] by (auto simp: frame_body_def)
  show ?thesis
    using on_page_staging [OF r(3)] r assms(3,4) by (auto simp: staged_def untouched_def)
qed

lemma receive_pages:
  assumes "page_stream sz micros scope sid cursor n ivs bs cnt"
    and "receives codec owner session_id s fs t" and "map sf_body fs = map Some bs"
    and "\<forall>iv\<in>set ivs. observed sz history lo hi iv"
    and "staged owner lo (paged history scope lo hi cursor) s"
  shows "staged owner lo (fuzzy history scope lo hi) t"
  using assms
proof (induction arbitrary: s fs rule: page_stream.induct)
  case (page_last iv cursor iv' p n ivs)
  have obs: "observed sz history lo hi iv" using page_last.prems(3) by simp
  note step = paged_step(1) [OF _ obs page_last.hyps(1) _ page_last.hyps(2)]
  show ?case
  proof (cases "pg_records p = []")
    case True
    then have "t = s" using page_last.prems(1,2) by (auto simp: page_bodies_def)
    then show ?thesis using page_last.prems(4) step True by (auto simp: staged_def)
  next
    case False
    then obtain f where "fs = [f]" "sf_body f = Some (SnapshotPage sid n (map record_to_wire (pg_records p)))"
      using page_last.prems(2) by (auto simp: page_bodies_def)
    then show ?thesis
      using receive_page page_last.prems(1,4) step by (auto simp: comp_def)
  qed
next
  case (page_more iv cursor iv' p n ivs bs cnt)
  have obs: "observed sz history lo hi iv" using page_more.prems(3) by simp
  note step = paged_step(2) [OF _ obs page_more.hyps(1) _ page_more.hyps(2)]
  obtain gs hs where fs: "fs = gs @ hs" "map sf_body gs = map Some (page_bodies sid n p)" "map sf_body hs = map Some bs"
    using page_more.prems(2) by (auto simp: map_eq_append_conv)
  obtain m where m: "receives codec owner session_id s gs m" "receives codec owner session_id m hs t"
    using receives_append page_more.prems(1) fs(1) by blast
  have "staged owner lo (paged history scope lo hi (pg_next p)) m"
  proof (cases "pg_records p = []")
    case True
    then have "m = s" using m(1) fs(2) by (auto simp: page_bodies_def)
    then show ?thesis using page_more.prems(4) step True by (auto simp: staged_def)
  next
    case False
    then obtain f where "gs = [f]" "sf_body f = Some (SnapshotPage sid n (map record_to_wire (pg_records p)))"
      using fs(2) by (auto simp: page_bodies_def)
    then show ?thesis
      using receive_page m(1) page_more.prems(4) step by (auto simp: comp_def)
  qed
  then show ?case using page_more.IH [OF m(2) fs(3)] page_more.prems(3) by simp
qed

section \<open>Replay\<close>

lemma delta_of_take: "n \<le> k \<Longrightarrow> delta_of (take k history) scope q n us = delta_of history scope q n us"
  by (simp add: delta_of_def segment_def drop_take min_def)

lemma receive_replay:
  assumes "replay_stream body_len sz micros scope fin after ivs bs"
    and "receives codec owner session_id s fs t" and "map sf_body fs = map Some bs"
    and "\<forall>iv\<in>set ivs. observed sz history fin (length history) iv" and "rx_scope codec = scope"
    and "log_ok history" and "after \<le> fin"
    and "staged owner after (fuzzy history scope after fin) s"
  shows "staged owner fin (fuzzy history scope fin fin) t"
  using assms
proof (induction arbitrary: s fs rule: replay_stream.induct)
  case (replay_end after ivs)
  then show ?case by auto
next
  case (replay_more after iv iv' d ivs bs)
  have obs: "observed sz history fin (length history) iv" using replay_more.prems(3) by simp
  have inv: "inventory_inv sz (iv, take (iv_sequence iv) history)" using obs iv.reach_inv by (simp add: observed_def)
  note d = bounded_delta_ok [OF inv replay_more.hyps(1,2)]
  obtain us where us: "id_records d = bt_values us" "delta_of history scope after (id_through d) us"
    using d(4) d(2) obs delta_of_take [of "id_through d" "iv_sequence iv" history scope after] by (auto simp: observed_def)
  obtain f hs where fs: "fs = f # hs" "map sf_body hs = map Some bs"
    "sf_body f = Some (Delta after (id_through d) (map record_to_wire (id_records d)))"
    using replay_more.prems(2) by auto
  obtain m where m: "receives codec owner session_id s [f] m" "receives codec owner session_id m hs t"
    using receives_append [of codec owner session_id s "[f]" hs t] replay_more.prems(1) fs(1) by auto
  obtain env rv rx rv1 rx1 where r: "same_codec codec env" "rv_view rv = rv_view (fst s)"
      "rs_snapshot_id rx = rs_snapshot_id (snd s)"
      "on_delta env owner session_id rv rx f after (id_through d) (map record_to_wire (id_records d)) = Some (rv1, Inr rx1)"
      "untouched owner rv1 (fst m)" "rx1 = snd m"
    using receive_one [OF m(1) fs(3)] by (auto simp: frame_body_def)
  have rx: "rs_snapshot_id rx \<noteq> None" using replay_more.prems(7) r(3) by (simp add: staged_def)
  obtain st st' vs where st: "staging_at (rv_view rv) owner = Some st" "staging_at (rv_view rv1) owner = Some st'"
      "st_replay_sequence st' = id_through d" "latest_records (rx_scope env) after (id_through d) [] (bt_values us) = Inr vs"
      "st_records st' = apply_records (st_records st) vs"
    using on_delta_staging(1) [OF r(4) rx] us(1) by (auto simp: comp_def)
  have "rx_scope env = scope" using r(1) replay_more.prems(4) by (simp add: same_codec_def)
  then have "delta_of history scope after (id_through d) vs" using delta_of_values [OF us(2)] st(4) by blast
  moreover have "fuzzy history scope after fin (st_records st)" using replay_more.prems(7) st(1) r(2) by (simp add: staged_def)
  ultimately have "fuzzy history scope (id_through d) fin (st_records st')"
    using fuzzy_step [OF replay_more.prems(5)] d(1,2) st(5) by simp
  then have "staged owner (id_through d) (fuzzy history scope (id_through d) fin) m"
    using st(2,3) r(5,6) on_delta_staging(2) [OF r(4) rx] rx by (simp add: staged_def untouched_def)
  then show ?case using replay_more.IH [OF m(2) fs(2)] replay_more.prems d(2) by simp
qed

lemma map_split: "map f xs = ys @ zs \<Longrightarrow> \<exists>us vs. xs = us @ vs \<and> map f us = ys \<and> map f vs = zs"
  by (intro exI [of _ "take (length ys) xs"] exI [of _ "drop (length ys) xs"])
    (simp add: take_map [symmetric] drop_map [symmetric])

lemma map_split4:
  assumes "map f xs = [a] @ ys @ zs @ [b]"
  shows "\<exists>x0 xy xz x1. xs = [x0] @ xy @ xz @ [x1] \<and> f x0 = a \<and> map f xy = ys \<and> map f xz = zs \<and> f x1 = b"
proof -
  obtain p r where 1: "xs = p @ r" "map f p = [a]" "map f r = ys @ zs @ [b]" using map_split [OF assms] by (elim exE conjE)
  obtain xy r2 where 2: "r = xy @ r2" "map f xy = ys" "map f r2 = zs @ [b]" using map_split [OF 1(3)] by (elim exE conjE)
  obtain xz r3 where 3: "r2 = xz @ r3" "map f xz = zs" "map f r3 = [b]" using map_split [OF 2(3)] by (elim exE conjE)
  obtain x0 where p: "p = [x0]" "f x0 = a" using 1(2) by (cases p) auto
  obtain x1 where r3: "r3 = [x1]" "f x1 = b" using 3(3) by (cases r3) auto
  have "xs = [x0] @ xy @ xz @ [x1]" unfolding 1(1) 2(1) 3(1) p(1) r3(1) by (rule refl)
  then show ?thesis using p(2) r3(2) 2(2) 3(2) by blast
qed

section \<open>Deltas\<close>

lemma apply_delta_applied:
  assumes "apply_delta limit scope now clock v owner view_id lo hi rs = Some (v', Inr res)"
    and ov: "map_of (v_owners v) owner = Some ov" and "ov_applied_sequence ov = lo" and "lo < hi"
  shows "res = Applied"
proof -
  obtain delta us where us: "validate_delta (ov_records ov) lo hi rs scope = Inr (delta, us)"
    using assms by (auto simp: apply_delta_def split: if_splits sum.splits)
  have "\<not> over_budget limit v delta" using assms us by (simp add: apply_delta_def split: if_splits)
  moreover obtain blocks where "update_blocks (v_blocks v) owner us = Some blocks"
    using assms us calculation by (cases "update_blocks (v_blocks v) owner us") (auto simp: apply_delta_def split: if_splits)
  ultimately show ?thesis
    using assms us by (simp add: apply_delta_def Let_def split: if_splits option.splits)
qed

lemma on_delta_installed:
  assumes "on_delta env owner session_id rv rx f lo hi ws = Some (rv', Inr rx')" and "rs_snapshot_id rx = None"
    and "map_of (v_owners (rv_view rv)) owner = Some ov" and "ov_applied_sequence ov = lo" and "lo < hi"
  shows "\<exists>ov' us. map_of (v_owners (rv_view rv')) owner = Some ov' \<and> ov_applied_sequence ov' = hi \<and>
    latest_records (rx_scope env) lo hi [] (map record_from_wire ws) = Inr us \<and>
    ov_records ov' = apply_records (ov_records ov) us"
proof -
  obtain view_id n where w: "owner_watermark (rv_view rv) owner = Some (view_id, n)"
    using assms(1,2) by (auto simp: on_delta_def split: sum.splits option.splits)
  let ?apply = "apply_delta (rx_byte_limit env) (rx_scope env) (rx_now env) (rx_clock env) (rv_view rv) owner view_id
    lo hi (map record_from_wire ws)"
  have "?apply \<noteq> None"
  proof
    assume "?apply = None"
    then show False using assms(1,2) w by (auto simp: on_delta_def split: sum.splits)
  qed
  then obtain v res where a: "?apply = Some (v, res)" by auto
  have "res = Inr Applied" if "res = Inr r" for r using apply_delta_applied [OF _ assms(3-5)] a that by blast
  then have a: "?apply = Some (v, Inr Applied)" and "rv_view rv' = v"
    using assms(1,2) w a by (auto simp: on_delta_def split: sum.splits delta_apply.splits)
  then show ?thesis using apply_delta_owner [OF a] assms(3) by auto
qed

section \<open>An example session\<close>

fun receive_all ::
  "receiver_env \<Rightarrow> uuid \<Rightarrow> uuid \<Rightarrow> receiver \<times> rx_session \<Rightarrow> server_frame list \<Rightarrow> (receiver \<times> rx_session) option" where
  "receive_all env owner session_id s [] = Some s"
| "receive_all env owner session_id (rv, rx) (f # fs) =
     (case receive_frame env owner session_id rv rx f of
        Some (rv1, Inr (rx1, _)) \<Rightarrow> receive_all env owner session_id (rv1, rx1) fs
      | _ \<Rightarrow> None)"

lemma receive_all_receives:
  "receive_all env owner session_id s fs = Some t \<Longrightarrow> receives env owner session_id s fs t"
proof (induction env owner session_id s fs rule: receive_all.induct)
  case (2 env owner session_id rv rx f fs)
  then obtain rv1 rx1 ack where "receive_frame env owner session_id rv rx f = Some (rv1, Inr (rx1, ack))"
    "receive_all env owner session_id (rv1, rx1) fs = Some t"
    by (auto split: option.splits sum.splits)
  then show ?case
    using 2 receives_Cons [of env env owner session_id rv rx f rv1 rx1 ack rv1]
    by (auto simp: same_codec_def untouched_def)
qed (simp add: receives_Nil)

text \<open>One DRAM block of the member with incarnation 9, announced and then withdrawn.\<close>

definition demo_source :: inventory where
  "demo_source = the (do { iv0 \<leftarrow> inventory_new 200;
     inventory_change 96 None iv0 (StateKey [5] [6]) Dram (Some demo_md) })"

definition demo_env :: receiver_env where
  "demo_env = \<lparr>rx_byte_limit = 4096, rx_scope = AllNamespaces, rx_membership = demo_membership, rx_now = 10,
     rx_clock = None, rx_exact_member = True, rx_encode = \<lambda>f. [of_nat (sf_frame_id f)], rx_sha = id,
     rx_uuid_from_slice = uuid_of_be, rx_uuid_as_bytes = uuid_be_bytes, rx_sz = 96\<rparr>"

definition demo_receiver :: "view \<Rightarrow> receiver" where
  "demo_receiver v = \<lparr>rv_view = v, rv_force_bootstrap = [], rv_frames_received = 0, rv_encoded_bytes_received = 0,
     rv_resets = 0\<rparr>"

definition demo_waiting :: view where
  "demo_waiting = the (set_expected_owners 7 view_default 1 [7, 9])"

definition demo_installed :: view where
  "demo_installed =
     \<lparr>v_blocks = [StateKey [5] [6] \<mapsto> [\<lparr>e_owner = 9, e_sequence = 1, e_metadata = demo_md\<rparr>]],
      v_owners = [(9, \<lparr>ov_view_id = 3, ov_applied_sequence = 1, ov_installed_mono_ns = 0,
                       ov_records = [((StateKey [5] [6], Dram), demo_change)], ov_fresh = True,
                       ov_received_at = 10, ov_retired = False\<rparr>)],
      v_staging = [], v_expected = [9], v_accounted_bytes = 578, v_active_bytes = 578, v_staging_bytes = 0,
      v_membership_revision = Some 1, v_generation = 3, v_admitted_owner_views = 1,
      v_fresh_expected_owner_views = 1\<rparr>"

lemma demo_source_reach: "inventory_reach 96 (demo_source, [demo_change])"
proof -
  obtain iv0 where iv0: "with_publish_coalescing 200 0 = Inr iv0" by (simp add: with_publish_coalescing_def)
  then have r0: "inventory_reach 96 (iv0, [])" by (intro reach_start) (auto simp: inventory_start_def)
  have iv1: "inventory_change 96 None iv0 (StateKey [5] [6]) Dram (Some demo_md) = Some demo_source"
    and c1: "change_record iv0 (StateKey [5] [6]) Dram (Some demo_md) = Some demo_change"
    using iv0 by (auto simp: demo_source_def inventory_eval demo_md_def demo_change_def)
  show ?thesis using reach_step [OF r0 inv_change [OF iv1]] c1 by simp
qed

lemmas stream_eval = uuid_of_be_bytes uuid_from_string_def receive_frame_def frame_body_def on_begin_def on_page_def
  on_delta_def on_commit_def add_transcript_def validate_records_def record_estimated_size_def owner_watermark_def
  mark_syncing_def sender_frame_def emit_def sender_new_def scoped_page_def residents_after_def record_to_wire_def
  FRAME_BYTES_def MESSAGE_BYTES_def INVENTORY_BATCH_RECORDS_def INVENTORY_BATCH_BYTES_def

definition demo_served :: snapshot_run where
  "demo_served = fst (the (serve_snapshot (rx_encode demo_env) (\<lambda>_. 10) id uuid_be_bytes 96 (\<lambda>_. 0) AllNamespaces 2 3
     (sender_new (uuid_be_bytes 1)) demo_source [demo_source] demo_source []))"

lemma demo_serve:
  "serve_snapshot (rx_encode demo_env) (\<lambda>_. 10) id uuid_be_bytes 96 (\<lambda>_. 0) AllNamespaces 2 3
     (sender_new (uuid_be_bytes 1)) demo_source [demo_source] demo_source [] = Some (demo_served, Inr 1)"
  by (simp add: demo_served_def serve_snapshot_def serve_replay.simps demo_source_def demo_md_def inventory_eval stream_eval demo_env_def
      count_scope_filter_def)

lemmas demo_session_defs = demo_receiver_def demo_waiting_def session_start_def view_default_def demo_md_def
  demo_change_def demo_membership_def metadata_to_wire_def metadata_from_wire_def record_from_wire_def
  medium_from_wire_def representation_from_wire_def

lemma demo_received:
  "\<exists>t. receive_all demo_env 9 1 (demo_receiver demo_waiting, session_start) (sr_frames demo_served) = Some t"
  by (simp add: demo_served_def serve_snapshot_def serve_replay.simps demo_source_def inventory_eval stream_eval
      demo_env_def count_scope_filter_def demo_session_defs index_op_defs membership_op_defs machine_defs)

section \<open>Properties\<close>

text \<open>C1. A receiver that accepts all frames of a served snapshot ends up with exactly the residents of the source
  in its scope at the sequence of the commit, although the source kept changing while the pages were read
  and although the index changed between the frames.\<close>

theorem snapshot_transfer_exact:
  assumes served: "serve_snapshot encode body_len sha uuid_as_bytes sz micros scope snapshot_id view_id sender
      iv_start iv_pages iv_end iv_replay = Some (run, Inr fin)"
    and scope: "rx_scope codec = scope"
    and history: "inventory_reach sz (iv_now, history)"
    and fin: "observed sz history (iv_sequence iv_start) (length history) iv_end"
    and pages: "\<forall>iv\<in>set iv_pages. observed sz history (iv_sequence iv_start) (iv_sequence iv_end) iv"
    and replay: "\<forall>iv\<in>set iv_replay. observed sz history (iv_sequence iv_end) (length history) iv"
    and received: "receives codec owner session_id (rv, rx) (sr_frames run) t"
  shows "\<exists>ov. map_of (v_owners (rv_view (fst t))) owner = Some ov \<and> ov_applied_sequence ov = fin \<and>
    map_of (ov_records ov) = scoped scope (replay (take fin history))"
proof -
  let ?start = "iv_sequence iv_start"
  obtain ps ds digest cnt where ps: "page_stream sz (micros 0) scope (uuid_as_bytes snapshot_id) None 0 iv_pages ps cnt"
    and ds: "replay_stream body_len sz micros scope fin ?start iv_replay ds"
    and bodies: "map sf_body (sr_frames run) = map Some
        ([SnapshotBegin (uuid_as_bytes snapshot_id) (uuid_as_bytes view_id) ?start] @ ps @ ds @
         [SnapshotCommit (uuid_as_bytes snapshot_id) (uuid_as_bytes view_id) fin digest cnt])"
    using serve_snapshot_stream(2) [OF served] by blast
  have fin_eq: "fin = iv_sequence iv_end" by (rule serve_snapshot_stream(1) [OF served])
  obtain f0 fp fd f1 where frames: "sr_frames run = [f0] @ fp @ fd @ [f1]"
    "sf_body f0 = Some (SnapshotBegin (uuid_as_bytes snapshot_id) (uuid_as_bytes view_id) ?start)"
    "map sf_body fp = map Some ps" "map sf_body fd = map Some ds"
    "sf_body f1 = Some (SnapshotCommit (uuid_as_bytes snapshot_id) (uuid_as_bytes view_id) fin digest cnt)"
    using map_split4 [OF bodies [unfolded map_append list.map]] by blast
  obtain a b c where r: "receives codec owner session_id (rv, rx) [f0] a" "receives codec owner session_id a fp b"
    "receives codec owner session_id b fd c" "receives codec owner session_id c [f1] t"
    using received receives_append unfolding frames(1) by metis
  have log: "log_ok history" using iv.reach_inv [OF history] by (simp add: inventory_inv_def)
  have "staged owner ?start (paged history scope ?start fin None) a"
    using receive_one [OF r(1) frames(2)] on_begin_staging
    by (fastforce simp: frame_body_def staged_def untouched_def paged_def reached_def)
  then have "staged owner ?start (fuzzy history scope ?start fin) b"
    using receive_pages [OF ps r(2) frames(3)] pages fin_eq by simp
  then have c: "staged owner fin (fuzzy history scope fin fin) c"
    using receive_replay [OF ds r(3) frames(4) _ scope log] replay fin_eq fin by (simp add: observed_def)
  obtain env rv0 rx0 rv1 rx1 where last: "rv_view rv0 = rv_view (fst c)" "untouched owner rv1 (fst t)"
      "on_commit env owner session_id rv0 rx0 (uuid_as_bytes snapshot_id) (uuid_as_bytes view_id) fin digest cnt =
         Some (rv1, Inr rx1)"
    using receive_one [OF r(4) frames(5)] by (auto simp: frame_body_def)
  then obtain st ov where "staging_at (rv_view (fst c)) owner = Some st"
    "map_of (v_owners (rv_view rv1)) owner = Some ov" "ov_records ov = st_records st" "ov_applied_sequence ov = fin"
    using on_commit_owner [OF last(3)] by auto
  then show ?thesis
    using c last(2) by (auto simp: staged_def fuzzy_exact untouched_def)
qed

theorem snapshot_transfer_exact_witness:
  "\<exists>t ov. receives demo_env 9 1 (demo_receiver demo_waiting, session_start) (sr_frames demo_served) t \<and>
     map_of (v_owners (rv_view (fst t))) 9 = Some ov \<and> ov_applied_sequence ov = 1 \<and>
     map_of (ov_records ov) (StateKey [5] [6], Dram) = Some demo_change"
proof -
  obtain t where t: "receives demo_env 9 1 (demo_receiver demo_waiting, session_start) (sr_frames demo_served) t"
    using demo_received receive_all_receives by blast
  have seq: "iv_sequence demo_source = 1" by (simp add: demo_source_def inventory_eval demo_md_def)
  have obs: "observed 96 [demo_change] 1 1 demo_source" using demo_source_reach seq by (simp add: observed_def)
  obtain ov where "map_of (v_owners (rv_view (fst t))) 9 = Some ov" "ov_applied_sequence ov = 1"
    "map_of (ov_records ov) = scoped AllNamespaces (replay (take 1 [demo_change]))"
    using snapshot_transfer_exact [OF demo_serve _ demo_source_reach _ _ _ t] obs seq by (auto simp: demo_env_def)
  moreover have "scoped AllNamespaces (replay (take 1 [demo_change])) (StateKey [5] [6], Dram) = Some demo_change"
    by (simp add: scoped_def replay_def residence_of_def demo_change_def demo_md_def)
  ultimately show ?thesis using t by fastforce
qed

text \<open>C16. Once installed, a view is kept exact by the source's deltas: a receiver whose records equal the
  source's residents at the sequence it has applied, and that accepts the frame of the next bounded delta,
  has the source's residents at the end of that delta.\<close>

theorem delta_transfer_exact:
  assumes source: "inventory_reach sz (iv, history)" and "after < head"
    and delta: "bounded_delta body_len sz micros iv after head scope = Some (iv', Inr d)"
    and f: "sf_body f = Some (Delta after (id_through d) (map record_to_wire (id_records d)))"
    and env: "rx_scope env = scope" "rs_snapshot_id rx = None"
    and ov: "map_of (v_owners (rv_view rv)) owner = Some ov" "ov_applied_sequence ov = after"
      "map_of (ov_records ov) = scoped scope (replay (take after history))"
    and recv: "receive_frame env owner session_id rv rx f = Some (rv', Inr (rx', ack))"
  shows "\<exists>ov'. map_of (v_owners (rv_view rv')) owner = Some ov' \<and> ov_applied_sequence ov' = id_through d \<and>
    map_of (ov_records ov') = scoped scope (replay (take (id_through d) history))"
proof -
  have inv: "inventory_inv sz (iv, history)" using source by (rule iv.reach_inv)
  note d = bounded_delta_ok [OF inv assms(2) delta]
  obtain us where us: "id_records d = bt_values us" "delta_of history scope after (id_through d) us" using d(4) by blast
  obtain rv1 rx1 where r: "rv_view rv1 = rv_view rv" "rs_snapshot_id rx1 = None"
      "on_delta env owner session_id rv1 rx1 f after (id_through d) (map record_to_wire (id_records d)) = Some (rv', Inr rx')"
    using receive_frame_body [OF recv f] env(2) by (auto simp: frame_body_def)
  obtain ov' vs where ov': "map_of (v_owners (rv_view rv')) owner = Some ov'" "ov_applied_sequence ov' = id_through d"
      "latest_records scope after (id_through d) [] (bt_values us) = Inr vs"
      "ov_records ov' = apply_records (ov_records ov) vs"
    using on_delta_installed [OF r(3,2), of ov] r(1) ov(1,2) d(1) us(1) env(1) by (auto simp: comp_def)
  have "log_ok history" using inv by (simp add: inventory_inv_def)
  then have "map_of (ov_records ov') = scoped scope (replay (take (id_through d) history))"
    using delta_exact [OF _ delta_of_values [OF us(2) ov'(3)] _ ov(3)] d(1) ov'(4) by simp
  then show ?thesis using ov'(1,2) by simp
qed

definition demo_delta_frame :: server_frame where
  "demo_delta_frame = \<lparr>sf_frame_id = 1, sf_session_id = uuid_be_bytes 1,
     sf_body = Some (Delta 1 2 [record_to_wire demo_withdrawal])\<rparr>"

theorem delta_transfer_exact_witness:
  "\<exists>rv' rx' ack ov'. receive_frame demo_env 9 1 (demo_receiver demo_installed) session_start demo_delta_frame =
       Some (rv', Inr (rx', ack)) \<and>
     map_of (v_owners (rv_view rv')) 9 = Some ov' \<and> map_of (ov_records ov') (StateKey [5] [6], Dram) = None"
proof -
  obtain iv' d where d: "bounded_delta (\<lambda>_. 10) 96 (\<lambda>_. 0) demo_inventory 1 2 AllNamespaces = Some (iv', Inr d)"
    "id_through d = 2" "id_records d = [demo_withdrawal]"
    by (simp add: bounded_delta_def bounded_delta_loop.simps demo_inventory_def changes_def queue_range_def
        coalesced_changes_scoped_def bounded_records_def inventory_eval demo_md_def stream_eval bt_values_def
        demo_withdrawal_def demo_change_def)
  obtain rv' rx' ack where r: "receive_frame demo_env 9 1 (demo_receiver demo_installed) session_start demo_delta_frame =
      Some (rv', Inr (rx', ack))"
    by (simp add: demo_delta_frame_def demo_installed_def apply_delta_def remove_block_def signed_bytes_def demo_withdrawal_def
        stream_eval demo_env_def demo_session_defs index_op_defs machine_defs)
  obtain ov' where "map_of (v_owners (rv_view rv')) 9 = Some ov'"
    "map_of (ov_records ov') = scoped AllNamespaces (replay (take 2 [demo_change, demo_withdrawal]))"
    using delta_transfer_exact [OF demo_inventory_reach _ d(1) _ _ _ _ _ _ r] d(2,3)
    by (auto simp: demo_delta_frame_def demo_env_def session_start_def demo_receiver_def demo_installed_def scoped_def
        fun_eq_iff replay_def residence_of_def demo_change_def demo_md_def)
  then show ?thesis using r
    by (auto simp: scoped_def replay_def residence_of_def demo_change_def demo_withdrawal_def demo_md_def)
qed

end
