(* ===== verification/Cache_Wire.thy ===== *)
theory Cache_Wire
  imports Recovery Wire_Primitives
begin

text \<open>
  The building blocks of the cache protocol (\<open>orbitkv-channel/src/cache_protocol.rs\<close>): its errors, the
  \<open>push\<close> functions of the encoders and the \<open>Decoder\<close>.

  A decoder is a function on the bytes still unread; it returns its value and the rest. \<open>dec_bind\<close> is the
  sequence of two reads with \<open>?\<close>. The locale \<open>wire_codec\<close> is the contract between an encoder and a
  decoder of the same type of value: the decoder reads back what the encoder wrote, and reads nothing else.
\<close>

datatype cache_protocol_error =
    InvalidRegistrationGeneration
  | InvalidShardPayload
  | InvalidRecoveryDemand
  | RecoveryFailed recovery_error
  | InvalidCandidates
  | InvalidQueryTicket
  | Truncated
  | TrailingBytes nat
  | InvalidMagic nat
  | UnsupportedVersion nat
  | InvalidFlags nat
  | UnknownOutcome nat
  | EmptyRequestId
  | EmptyLease
  | FieldTooLarge string nat
  | InvalidUtf8 string
  | InvalidLoadingPayload
  | PublishShapeMismatch bytes nat nat
  | UnknownCompletionIntent nat
  | UnknownCompletionRoute nat
  | UnknownCompletionRepresentation nat
  | UnknownCompletionAdmission nat
  | UnknownCompletionOutcome nat
  | EmptyCompletionField string
  | CompletionFieldTooLong string nat nat
  | ZeroCompletionField string
  | InvalidCompletionDevice int
  | InvalidCompletionTarget
  | InvalidCompletionState
  | InvalidCompletionReserved nat
  | CompletionQueueTooDeep nat
  | CompletionQueueTooWide nat
  | InvalidCompletionResources

definition CACHE_PROTOCOL_VERSION :: nat where "CACHE_PROTOCOL_VERSION = 10"

section \<open>Encoding\<close>

definition checked_u32 :: "nat \<Rightarrow> string \<Rightarrow> cache_protocol_error + nat" where
  "checked_u32 value field = (if value \<le> u32_max then Inr value else Inl (FieldTooLarge field value))"

definition add_encoded_size :: "nat \<Rightarrow> nat \<Rightarrow> nat \<Rightarrow> cache_protocol_error + nat" where
  "add_encoded_size acc count width =
     (case Option.bind (checked_mul count width) (checked_add acc) of
        None \<Rightarrow> Inl (FieldTooLarge ''payload'' u64_max)
      | Some n \<Rightarrow> if n \<le> isize_max then Inr n else Inl (FieldTooLarge ''payload'' u64_max))"

text \<open>A run of \<open>add_encoded_size\<close> calls, each given by its count and width.\<close>

fun add_sizes :: "nat \<Rightarrow> (nat \<times> nat) list \<Rightarrow> cache_protocol_error + nat" where
  "add_sizes acc [] = Inr acc"
| "add_sizes acc ((count, width) # rest) = rbind (add_encoded_size acc count width) (\<lambda>n. add_sizes n rest)"

definition push_u16 :: "bytes \<Rightarrow> nat \<Rightarrow> bytes" where "push_u16 out v = out @ le_bytes 2 v"
definition push_u32 :: "bytes \<Rightarrow> nat \<Rightarrow> bytes" where "push_u32 out v = out @ le_bytes 4 v"
definition push_i32 :: "bytes \<Rightarrow> int \<Rightarrow> bytes" where "push_i32 out v = out @ le_bytes 4 (i32_code v)"
definition push_u64 :: "bytes \<Rightarrow> nat \<Rightarrow> bytes" where "push_u64 out v = out @ le_bytes 8 v"

definition push_bytes :: "bytes \<Rightarrow> bytes \<Rightarrow> string \<Rightarrow> cache_protocol_error + bytes" where
  "push_bytes out value field = rbind (checked_u32 (length value) field) (\<lambda>n. Inr (push_u32 out n @ value))"

text \<open>A loop that appends something for each element, or stops at the first error.\<close>

fun push_each :: "(bytes \<Rightarrow> 'a \<Rightarrow> cache_protocol_error + bytes) \<Rightarrow> bytes \<Rightarrow> 'a list \<Rightarrow> cache_protocol_error + bytes" where
  "push_each push out [] = Inr out"
| "push_each push out (x # xs) = rbind (push out x) (\<lambda>out1. push_each push out1 xs)"

section \<open>Decoding\<close>

type_synonym 'a decoder = "bytes \<Rightarrow> cache_protocol_error + 'a \<times> bytes"

definition dec_bind :: "'a decoder \<Rightarrow> ('a \<Rightarrow> 'b decoder) \<Rightarrow> 'b decoder" where
  "dec_bind p f bs = rbind (p bs) (\<lambda>(x, rest). f x rest)"

definition dec_return :: "'a \<Rightarrow> 'a decoder" where
  "dec_return x bs = Inr (x, bs)"

definition dec_check :: "bool \<Rightarrow> cache_protocol_error \<Rightarrow> unit decoder" where
  "dec_check ok e bs = (if ok then Inr ((), bs) else Inl e)"

definition dec_result :: "cache_protocol_error + 'a \<Rightarrow> 'a decoder" where
  "dec_result r bs = rbind r (\<lambda>x. Inr (x, bs))"

definition run_decoder :: "'a decoder \<Rightarrow> bytes \<Rightarrow> cache_protocol_error + 'a" where
  "run_decoder p bs = rbind (p bs) (\<lambda>(x, _). Inr x)"

definition dec_bytes :: "nat \<Rightarrow> bytes decoder" where
  "dec_bytes len bs = (if len \<le> length bs then Inr (take len bs, drop len bs) else Inl Truncated)"

definition dec_u16 :: "nat decoder" where
  "dec_u16 = dec_bind (dec_bytes 2) (\<lambda>b. dec_return (le_nat b))"

definition dec_u32 :: "nat decoder" where
  "dec_u32 = dec_bind (dec_bytes 4) (\<lambda>b. dec_return (le_nat b))"

definition dec_i32 :: "int decoder" where
  "dec_i32 = dec_bind (dec_bytes 4) (\<lambda>b. dec_return (i32_decode (le_nat b)))"

definition dec_u64 :: "nat decoder" where
  "dec_u64 = dec_bind (dec_bytes 8) (\<lambda>b. dec_return (le_nat b))"

definition dec_string :: "nat \<Rightarrow> string \<Rightarrow> bytes decoder" where
  "dec_string len field =
     dec_bind (dec_bytes len) (\<lambda>b. dec_bind (dec_check (utf8_valid b) (InvalidUtf8 field)) (\<lambda>_. dec_return b))"

definition expect_magic :: "nat \<Rightarrow> unit decoder" where
  "expect_magic expected = dec_bind dec_u32 (\<lambda>actual. dec_check (actual = expected) (InvalidMagic actual))"

definition expect_version :: "unit decoder" where
  "expect_version = dec_bind dec_u16 (\<lambda>v. dec_check (v = CACHE_PROTOCOL_VERSION) (UnsupportedVersion v))"

definition dec_finish :: "unit decoder" where
  "dec_finish bs = (if bs = [] then Inr ((), []) else Inl (TrailingBytes (length bs)))"

text \<open>The test that \<open>count\<close> elements of \<open>width\<close> bytes can still follow.\<close>

definition dec_room :: "nat \<Rightarrow> nat \<Rightarrow> unit decoder" where
  "dec_room count width bs = (if count > length bs div width then Inl Truncated else Inr ((), bs))"

primrec dec_many :: "'a decoder \<Rightarrow> nat \<Rightarrow> 'a list decoder" where
  "dec_many p 0 = dec_return []"
| "dec_many p (Suc n) = dec_bind p (\<lambda>x. dec_bind (dec_many p n) (\<lambda>xs. dec_return (x # xs)))"

text \<open>A sequence behind its count, with the room test between them.\<close>

definition dec_counted :: "'a decoder \<Rightarrow> nat \<Rightarrow> 'a list decoder" where
  "dec_counted p width = dec_bind dec_u32 (\<lambda>n. dec_bind (dec_room n width) (\<lambda>_. dec_many p n))"

definition counted_bytes :: "('a \<Rightarrow> bytes) \<Rightarrow> 'a list \<Rightarrow> bytes" where
  "counted_bytes enc xs = le_bytes 4 (length xs) @ concat (map enc xs)"

section \<open>Laws\<close>

named_theorems dec_iffs "when a decoder succeeds, and what it then has read"
named_theorems enc_iffs "when an encoder succeeds, and what it then has written"

lemma checked_u32_iff [enc_iffs]: "checked_u32 v f = Inr n \<longleftrightarrow> n = v \<and> v \<le> u32_max"
  by (auto simp: checked_u32_def)

lemma push_bytes_iff [enc_iffs]:
  "push_bytes out v f = Inr out1 \<longleftrightarrow> length v \<le> u32_max \<and> out1 = out @ le_bytes 4 (length v) @ v"
  by (auto simp: push_bytes_def rbind_eq_Inr_iff checked_u32_iff push_u32_def)

lemma push_each_iff:
  assumes "\<And>out x out1. push out x = Inr out1 \<longleftrightarrow> P x \<and> out1 = out @ f x"
  shows "push_each push out xs = Inr out1 \<longleftrightarrow> list_all P xs \<and> out1 = out @ concat (map f xs)"
  by (induction xs arbitrary: out) (auto simp: rbind_eq_Inr_iff assms)

lemma counted_push_iff:
  assumes "\<And>out x out1. push out x = Inr out1 \<longleftrightarrow> P x \<and> out1 = out @ f x"
  shows "rbind (checked_u32 (length xs) field) (\<lambda>n. push_each push (push_u32 out n) xs) = Inr out1 \<longleftrightarrow>
    length xs \<le> u32_max \<and> list_all P xs \<and> out1 = out @ counted_bytes f xs"
  by (auto simp: rbind_eq_Inr_iff checked_u32_iff push_each_iff [OF assms] push_u32_def counted_bytes_def)

lemma add_encoded_size_iff:
  "add_encoded_size acc count width = Inr n \<longleftrightarrow> n = acc + count * width \<and> n \<le> isize_max"
  by (auto simp: add_encoded_size_def checked_mul_def checked_add_def machine_defs split: if_splits option.splits)

lemma add_sizes_iff [enc_iffs]:
  "add_sizes acc xs = Inr n \<longleftrightarrow> n = acc + (\<Sum>(count, width)\<leftarrow>xs. count * width) \<and> (xs = [] \<or> n \<le> isize_max)"
proof (induction xs arbitrary: acc)
  case (Cons x xs)
  obtain c w where x: "x = (c, w)" by (cases x)
  have "(\<exists>m. (m = acc + c * w \<and> m \<le> isize_max) \<and>
        n = m + (\<Sum>(count, width)\<leftarrow>xs. count * width) \<and> (xs = [] \<or> n \<le> isize_max)) \<longleftrightarrow>
      n = acc + (c * w + (\<Sum>(count, width)\<leftarrow>xs. count * width)) \<and> n \<le> isize_max"
    by (cases xs) auto
  then show ?case unfolding x add_sizes.simps rbind_eq_Inr_iff add_encoded_size_iff Cons.IH by simp
qed auto

lemma dec_bind_iff [dec_iffs]:
  "dec_bind p f bs = Inr (y, rest) \<longleftrightarrow> (\<exists>x r. p bs = Inr (x, r) \<and> f x r = Inr (y, rest))"
  by (auto simp: dec_bind_def rbind_eq_Inr_iff)

lemma run_decoder_iff [dec_iffs]: "run_decoder p bs = Inr x \<longleftrightarrow> (\<exists>rest. p bs = Inr (x, rest))"
  by (auto simp: run_decoder_def rbind_eq_Inr_iff)

lemma dec_return_iff [dec_iffs]: "dec_return x bs = Inr (y, rest) \<longleftrightarrow> y = x \<and> rest = bs"
  by (auto simp: dec_return_def)

lemma dec_check_iff [dec_iffs]: "dec_check ok e bs = Inr (u, rest) \<longleftrightarrow> ok \<and> rest = bs"
  by (auto simp: dec_check_def)

lemma dec_result_iff [dec_iffs]: "dec_result r bs = Inr (x, rest) \<longleftrightarrow> r = Inr x \<and> rest = bs"
  by (auto simp: dec_result_def rbind_eq_Inr_iff)

lemma dec_finish_iff [dec_iffs]: "dec_finish bs = Inr (u, rest) \<longleftrightarrow> bs = [] \<and> rest = []"
  by (auto simp: dec_finish_def)

lemma dec_bytes_iff: "dec_bytes len bs = Inr (x, rest) \<longleftrightarrow> length x = len \<and> bs = x @ rest"
  by (auto simp: dec_bytes_def)

lemma dec_string_iff:
  "dec_string len f bs = Inr (x, rest) \<longleftrightarrow> length x = len \<and> utf8_valid x \<and> bs = x @ rest"
  by (auto simp: dec_string_def dec_iffs dec_bytes_iff)

locale wire_codec =
  fixes enc :: "'a \<Rightarrow> bytes" and dec :: "'a decoder" and wf :: "'a \<Rightarrow> bool"
  assumes dec_enc: "wf x \<Longrightarrow> dec (enc x @ rest) = Inr (x, rest)"
    and dec_sound: "dec bs = Inr (x, rest) \<Longrightarrow> wf x \<and> bs = enc x @ rest"
begin

lemma dec_iff: "dec bs = Inr (x, rest) \<longleftrightarrow> wf x \<and> bs = enc x @ rest"
  using dec_enc dec_sound by blast

lemma many_enc:
  "list_all wf xs \<Longrightarrow> length xs = n \<Longrightarrow> dec_many dec n (concat (map enc xs) @ rest) = Inr (xs, rest)"
  by (induction xs arbitrary: n) (auto simp: dec_bind_def dec_return_def dec_enc)

lemma many_iff:
  "dec_many dec n bs = Inr (xs, rest) \<longleftrightarrow> length xs = n \<and> list_all wf xs \<and> bs = concat (map enc xs) @ rest"
proof (induction n arbitrary: bs xs)
  case (Suc n)
  then show ?case by (cases xs) (auto simp: dec_iffs dec_iff)
qed (auto simp: dec_iffs)

text \<open>Counted sequences: the room test before the loop never rejects what the encoder wrote.\<close>

lemma room_enc:
  assumes "list_all wf xs" and "length xs = n" and "0 < width" and "\<And>x. wf x \<Longrightarrow> width \<le> length (enc x)"
  shows "dec_room n width (concat (map enc xs) @ rest) = Inr ((), concat (map enc xs) @ rest)"
proof -
  have "width * length xs \<le> length (concat (map enc xs))"
    using assms(1,4) by (induction xs) (auto simp: add_mono)
  then have "width * n \<le> length (concat (map enc xs) @ rest)" using assms(2) by simp
  then have "n \<le> length (concat (map enc xs) @ rest) div width"
    using assms(3) by (simp add: less_eq_div_iff_mult_less_eq mult.commute)
  then show ?thesis by (simp add: dec_room_def)
qed

end

lemma wire_codecI:
  assumes "\<And>bs x rest. dec bs = Inr (x, rest) \<longleftrightarrow> good x \<and> bs = enc x @ rest"
  shows "wire_codec enc dec good"
  using assms by unfold_locales auto

lemma dec_room_D: "dec_room n width bs = Inr (u, rest) \<Longrightarrow> rest = bs"
  by (auto simp: dec_room_def split: if_splits)

lemma dec_le:
  "dec_bind (dec_bytes k) (\<lambda>b. dec_return (le_nat b)) bs = Inr (n, rest) \<longleftrightarrow>
     n < 256 ^ k \<and> bs = le_bytes k n @ rest"
  (is "?l \<longleftrightarrow> ?r")
proof
  assume ?l
  then obtain x where "length x = k" "bs = x @ rest" "n = le_nat x" by (auto simp: dec_iffs dec_bytes_iff)
  then show ?r using le_nat_bound [of x] le_bytes_le_nat [of x] by simp
next
  assume ?r
  then have "dec_bytes k bs = Inr (le_bytes k n, rest)" "le_nat (le_bytes k n) = n"
    by (simp_all add: dec_bytes_iff le_nat_le_bytes)
  then show ?l by (simp add: dec_bind_def dec_return_def)
qed

interpretation u16: wire_codec "le_bytes 2" dec_u16 "\<lambda>n. n \<le> u16_max"
  by unfold_locales (auto simp: dec_u16_def dec_le machine_defs)

interpretation u32: wire_codec "le_bytes 4" dec_u32 "\<lambda>n. n \<le> u32_max"
  by unfold_locales (auto simp: dec_u32_def dec_le machine_defs)

interpretation u64: wire_codec "le_bytes 8" dec_u64 "\<lambda>n. n \<le> u64_max"
  by unfold_locales (auto simp: dec_u64_def dec_le machine_defs)

interpretation i32: wire_codec "\<lambda>i. le_bytes 4 (i32_code i)" dec_i32 i32_range
proof -
  have i: "dec_i32 = dec_bind dec_u32 (\<lambda>n. dec_return (i32_decode n))"
    by (auto simp: fun_eq_iff dec_i32_def dec_u32_def dec_bind_def dec_return_def rbind_def split: sum.splits)
  show "wire_codec (\<lambda>i. le_bytes 4 (i32_code i)) dec_i32 i32_range"
  proof
    show "dec_i32 (le_bytes 4 (i32_code x) @ rest) = Inr (x, rest)" if "i32_range x" for x rest
    proof -
      have "i32_code x \<le> u32_max" using i32_code_less [of x] unfolding u32_max_def by linarith
      then show ?thesis using that by (simp add: i dec_bind_def u32.dec_enc dec_return_def i32_decode_code)
    qed
    show "i32_range x \<and> bs = le_bytes 4 (i32_code x) @ rest" if "dec_i32 bs = Inr (x, rest)" for bs x rest
      using that by (auto simp: i dec_iffs u32.dec_iff machine_defs i32_code_decode)
  qed
qed

lemmas [dec_iffs] = u16.dec_iff u32.dec_iff u64.dec_iff i32.dec_iff

context wire_codec
begin

lemma counted:
  assumes "0 < width" and "\<And>x. wf x \<Longrightarrow> width \<le> length (enc x)"
  shows "wire_codec (counted_bytes enc) (dec_counted dec width) (\<lambda>xs. length xs \<le> u32_max \<and> list_all wf xs)"
proof
  show "dec_counted dec width (counted_bytes enc xs @ rest) = Inr (xs, rest)"
    if "length xs \<le> u32_max \<and> list_all wf xs" for xs rest
    using that assms
    by (simp add: dec_counted_def counted_bytes_def dec_bind_def u32.dec_enc room_enc many_enc)
  show "(length xs \<le> u32_max \<and> list_all wf xs) \<and> bs = counted_bytes enc xs @ rest"
    if "dec_counted dec width bs = Inr (xs, rest)" for bs xs rest
    using that by (auto simp: dec_counted_def counted_bytes_def dec_iffs many_iff dest!: dec_room_D)
qed

end

text \<open>Reading back: the equations that run a decoder on encoded bytes.\<close>

lemma dec_bytes_enc: "length x = n \<Longrightarrow> dec_bytes n (x @ rest) = Inr (x, rest)"
  by (simp add: dec_bytes_def)

lemma dec_string_enc: "length x = n \<Longrightarrow> utf8_valid x \<Longrightarrow> dec_string n f (x @ rest) = Inr (x, rest)"
  by (simp add: dec_string_iff)

lemma expect_magic_enc: "m \<le> u32_max \<Longrightarrow> expect_magic m (le_bytes 4 m @ rest) = Inr ((), rest)"
  by (simp add: expect_magic_def dec_bind_def u32.dec_enc dec_check_def)

lemma expect_version_enc: "expect_version (le_bytes 2 CACHE_PROTOCOL_VERSION @ rest) = Inr ((), rest)"
proof -
  have "CACHE_PROTOCOL_VERSION \<le> u16_max" by (simp add: CACHE_PROTOCOL_VERSION_def machine_defs)
  then show ?thesis by (simp add: expect_version_def dec_bind_def u16.dec_enc dec_check_def)
qed

lemma expect_magic_iff [dec_iffs]:
  "expect_magic m bs = Inr (u, rest) \<longleftrightarrow> m \<le> u32_max \<and> bs = le_bytes 4 m @ rest"
  by (auto simp: expect_magic_def dec_iffs)

lemma expect_version_iff [dec_iffs]:
  "expect_version bs = Inr (u, rest) \<longleftrightarrow> bs = le_bytes 2 CACHE_PROTOCOL_VERSION @ rest"
  by (auto simp: expect_version_def dec_iffs CACHE_PROTOCOL_VERSION_def machine_defs)

lemmas dec_runs = dec_bind_def dec_return_def dec_check_def dec_result_def run_decoder_def
  u16.dec_enc u32.dec_enc u64.dec_enc i32.dec_enc dec_bytes_enc dec_string_enc expect_magic_enc expect_version_enc

end
