(* ===== verification/Cache_Messages.thy ===== *)
theory Cache_Messages
  imports Cache_Wire
begin

unbundle bit_operations_syntax

text \<open>
  The query messages of the cache protocol (\<open>orbitkv-channel/src/cache_protocol.rs\<close>): tickets, commands,
  cancellation, release, and the two kinds of response. Every encoder is a function to the payload or an error,
  every decoder a \<open>decoder\<close> run to the end of the payload.
\<close>

section \<open>Tickets and ranges\<close>

definition QUERY_REQUEST_MAGIC :: nat where "QUERY_REQUEST_MAGIC = 0x4F525151"
definition QUERY_RESPONSE_MAGIC :: nat where "QUERY_RESPONSE_MAGIC = 0x4F525152"
definition QUERY_POLL_MAGIC :: nat where "QUERY_POLL_MAGIC = 0x4F525150"
definition CANCEL_QUERY_MAGIC :: nat where "CANCEL_QUERY_MAGIC = 0x4F525143"
definition RELEASE_REQUEST_MAGIC :: nat where "RELEASE_REQUEST_MAGIC = 0x4F524C51"
definition SHARD_RESPONSE_MAGIC :: nat where "SHARD_RESPONSE_MAGIC = 0x4F525352"
definition REQUEST_HEADER_BYTES :: nat where "REQUEST_HEADER_BYTES = 40"

lemmas magic_defs = QUERY_REQUEST_MAGIC_def QUERY_RESPONSE_MAGIC_def QUERY_POLL_MAGIC_def CANCEL_QUERY_MAGIC_def
  RELEASE_REQUEST_MAGIC_def SHARD_RESPONSE_MAGIC_def

definition message_header :: "nat \<Rightarrow> nat \<Rightarrow> bytes" where
  "message_header magic code = push_u16 (push_u16 (push_u32 [] magic) CACHE_PROTOCOL_VERSION) code"

record query_ticket =
  qt_operation_id :: nat
  qt_revision :: nat

definition ticket_encode_into :: "bytes \<Rightarrow> query_ticket \<Rightarrow> cache_protocol_error + bytes" where
  "ticket_encode_into out t =
     (if qt_operation_id t = 0 \<or> qt_revision t = 0 then Inl InvalidQueryTicket
      else Inr (push_u64 (push_u64 out (qt_operation_id t)) (qt_revision t)))"

definition ticket_decode_from :: "query_ticket decoder" where
  "ticket_decode_from =
     dec_bind dec_u64 (\<lambda>operation_id. dec_bind dec_u64 (\<lambda>revision.
     dec_bind (dec_check (\<not> (operation_id = 0 \<or> revision = 0)) InvalidQueryTicket) (\<lambda>_.
       dec_return \<lparr>qt_operation_id = operation_id, qt_revision = revision\<rparr>)))"

definition dec_range :: "token_range decoder" where
  "dec_range = dec_bind dec_u64 (\<lambda>s. dec_bind dec_u64 (\<lambda>e. dec_return \<lparr>range_start = s, range_end = e\<rparr>))"

section \<open>Query requests\<close>

record query_request =
  qr_ticket :: query_ticket
  qr_instance_id :: bytes
  qr_request_id :: bytes
  qr_block_hashes :: "bytes list"
  qr_group_id :: nat
  qr_wait_for_full_prefix :: bool
  qr_warmup :: bool
  qr_discover :: bool
  qr_materialize :: bool
  qr_prepare :: bool
  qr_demand :: "recovery_demand option"

definition query_flags :: "query_request \<Rightarrow> nat" where
  "query_flags r =
     of_bool (qr_wait_for_full_prefix r) OR push_bit 1 (of_bool (qr_warmup r)) OR push_bit 2 (of_bool (qr_discover r))
     OR push_bit 3 (of_bool (qr_materialize r)) OR push_bit 4 (of_bool (qr_prepare r))"

definition recovery_result :: "recovery_error + 'a \<Rightarrow> cache_protocol_error + 'a" where
  "recovery_result r = (case r of Inl e \<Rightarrow> Inl (RecoveryFailed e) | Inr x \<Rightarrow> Inr x)"

definition push_group :: "bytes \<Rightarrow> nat \<times> token_range \<Rightarrow> cache_protocol_error + bytes" where
  "push_group out g = Inr (push_u64 (push_u64 (push_u32 out (fst g)) (range_start (snd g))) (range_end (snd g)))"

definition push_demand :: "bytes \<Rightarrow> recovery_demand option \<Rightarrow> cache_protocol_error + bytes" where
  "push_demand out demand =
     (case demand of
        None \<Rightarrow> Inr out
      | Some d \<Rightarrow>
          rbind (checked_u32 (length (rd_groups d)) ''recovery_groups'') (\<lambda>n.
            push_each push_group
              (push_u32 (push_u64 (push_u64 (push_u64 out (rd_page_tokens d)) (range_start (rd_span d)))
                 (range_end (rd_span d))) n)
              (rd_groups d)))"

definition query_encode :: "query_request \<Rightarrow> cache_protocol_error + bytes" where
  "query_encode r =
     (if qr_request_id r = [] then Inl EmptyRequestId
      else if qr_materialize r \<noteq> (qr_demand r \<noteq> None) then Inl InvalidRecoveryDemand
      else
        rbind (case qr_demand r of
                 None \<Rightarrow> Inr ()
               | Some d \<Rightarrow> recovery_result (demand_validate d (qr_group_id r) (length (qr_block_hashes r)))) (\<lambda>_.
        rbind (add_sizes REQUEST_HEADER_BYTES
                 ([(length (qr_instance_id r), 1), (length (qr_request_id r), 1), (length (qr_block_hashes r), 4)]
                  @ map (\<lambda>h. (length h, 1)) (qr_block_hashes r)
                  @ (case qr_demand r of None \<Rightarrow> [] | Some d \<Rightarrow> [(1, 28), (length (rd_groups d), 20)]))) (\<lambda>_.
        rbind (ticket_encode_into (message_header QUERY_REQUEST_MAGIC (query_flags r)) (qr_ticket r)) (\<lambda>out.
        rbind (checked_u32 (length (qr_instance_id r)) ''instance_id'') (\<lambda>instance_len.
        rbind (checked_u32 (length (qr_request_id r)) ''request_id'') (\<lambda>request_len.
        rbind (checked_u32 (length (qr_block_hashes r)) ''block_hashes'') (\<lambda>hash_count.
        rbind (push_each (\<lambda>out h. push_bytes out h ''block_hash'')
                 (push_u32 (push_u32 (push_u32 (push_u32 out (qr_group_id r)) instance_len) request_len) hash_count
                  @ qr_instance_id r @ qr_request_id r)
                 (qr_block_hashes r)) (\<lambda>out. push_demand out (qr_demand r)))))))))"

definition dec_group :: "(nat \<times> token_range) decoder" where
  "dec_group = dec_bind dec_u32 (\<lambda>g. dec_bind dec_range (\<lambda>r. dec_return (g, r)))"

definition dec_demand :: "nat \<Rightarrow> nat \<Rightarrow> recovery_demand decoder" where
  "dec_demand group_id hash_count =
     dec_bind dec_u64 (\<lambda>page_tokens. dec_bind dec_range (\<lambda>span. dec_bind dec_u32 (\<lambda>count.
     dec_bind (dec_room count 20) (\<lambda>_. dec_bind (dec_many dec_group count) (\<lambda>groups.
     dec_bind (dec_result (recovery_result (demand_validate
         \<lparr>rd_page_tokens = page_tokens, rd_span = span, rd_groups = groups\<rparr> group_id hash_count))) (\<lambda>_.
       dec_return \<lparr>rd_page_tokens = page_tokens, rd_span = span, rd_groups = groups\<rparr>))))))"

definition dec_hash :: "bytes decoder" where
  "dec_hash = dec_bind dec_u32 dec_bytes"

definition query_decoder :: "query_request decoder" where
  "query_decoder =
     dec_bind (expect_magic QUERY_REQUEST_MAGIC) (\<lambda>_. dec_bind expect_version (\<lambda>_. dec_bind dec_u16 (\<lambda>flags.
     dec_bind (dec_check (flags AND 65504 = 0) (InvalidFlags flags)) (\<lambda>_.
     dec_bind ticket_decode_from (\<lambda>ticket. dec_bind dec_u32 (\<lambda>group_id. dec_bind dec_u32 (\<lambda>instance_len.
     dec_bind dec_u32 (\<lambda>request_len. dec_bind dec_u32 (\<lambda>hash_count.
     dec_bind (dec_string instance_len ''instance_id'') (\<lambda>instance_id.
     dec_bind (dec_string request_len ''request_id'') (\<lambda>request_id.
     dec_bind (dec_check (request_id \<noteq> []) EmptyRequestId) (\<lambda>_.
     dec_bind (dec_room hash_count 4) (\<lambda>_. dec_bind (dec_many dec_hash hash_count) (\<lambda>block_hashes.
     dec_bind (if flags AND 8 \<noteq> 0 then dec_bind (dec_demand group_id hash_count) (\<lambda>d. dec_return (Some d))
               else dec_return None) (\<lambda>demand.
     dec_bind dec_finish (\<lambda>_.
       dec_return \<lparr>qr_ticket = ticket, qr_instance_id = instance_id, qr_request_id = request_id,
         qr_block_hashes = block_hashes, qr_group_id = group_id, qr_wait_for_full_prefix = (flags AND 1 \<noteq> 0),
         qr_warmup = (flags AND 2 \<noteq> 0), qr_discover = (flags AND 4 \<noteq> 0), qr_materialize = (flags AND 8 \<noteq> 0),
         qr_prepare = (flags AND 16 \<noteq> 0), qr_demand = demand\<rparr>))))))))))))))))"

definition query_decode :: "bytes \<Rightarrow> cache_protocol_error + query_request" where
  "query_decode = run_decoder query_decoder"

section \<open>Commands, cancellation, release\<close>

datatype query_command = Submit query_request | Poll query_ticket | Claim query_ticket bool

definition command_encode :: "query_command \<Rightarrow> cache_protocol_error + bytes" where
  "command_encode c =
     (case c of
        Submit r \<Rightarrow> query_encode r
      | Poll t \<Rightarrow> ticket_encode_into (message_header QUERY_POLL_MAGIC 0) t
      | Claim t count_lookup \<Rightarrow>
          ticket_encode_into (message_header QUERY_POLL_MAGIC (1 OR push_bit 1 (of_bool count_lookup))) t)"

definition poll_decoder :: "query_command decoder" where
  "poll_decoder =
     dec_bind expect_version (\<lambda>_. dec_bind dec_u16 (\<lambda>flags.
     dec_bind (dec_check (\<not> (flags > 3 \<or> flags = 2)) (InvalidFlags flags)) (\<lambda>_.
     dec_bind ticket_decode_from (\<lambda>ticket. dec_bind dec_finish (\<lambda>_.
       dec_return (if flags AND 1 \<noteq> 0 then Claim ticket (flags AND 2 \<noteq> 0) else Poll ticket))))))"

definition command_decode :: "bytes \<Rightarrow> cache_protocol_error + query_command" where
  "command_decode bs =
     rbind (dec_u32 bs) (\<lambda>(magic, rest).
       if magic = QUERY_REQUEST_MAGIC then rbind (query_decode bs) (\<lambda>r. Inr (Submit r))
       else if magic \<noteq> QUERY_POLL_MAGIC then Inl (InvalidMagic magic)
       else run_decoder poll_decoder rest)"

definition cancel_encode :: "query_ticket \<Rightarrow> cache_protocol_error + bytes" where
  "cancel_encode t = ticket_encode_into (message_header CANCEL_QUERY_MAGIC 0) t"

definition cancel_decode :: "bytes \<Rightarrow> cache_protocol_error + query_ticket" where
  "cancel_decode = run_decoder
     (dec_bind (expect_magic CANCEL_QUERY_MAGIC) (\<lambda>_. dec_bind expect_version (\<lambda>_. dec_bind dec_u16 (\<lambda>flags.
      dec_bind (dec_check (flags = 0) (InvalidFlags flags)) (\<lambda>_.
      dec_bind ticket_decode_from (\<lambda>ticket. dec_bind dec_finish (\<lambda>_. dec_return ticket)))))))"

definition release_encode :: "bytes \<Rightarrow> cache_protocol_error + bytes" where
  "release_encode lease = push_bytes (message_header RELEASE_REQUEST_MAGIC 0) lease ''lease''"

definition release_decode :: "bytes \<Rightarrow> cache_protocol_error + bytes" where
  "release_decode = run_decoder
     (dec_bind (expect_magic RELEASE_REQUEST_MAGIC) (\<lambda>_. dec_bind expect_version (\<lambda>_. dec_bind dec_u16 (\<lambda>flags.
      dec_bind (dec_check (flags = 0) (InvalidFlags flags)) (\<lambda>_.
      dec_bind dec_u32 (\<lambda>lease_len. dec_bind (dec_bytes lease_len) (\<lambda>lease. dec_bind dec_finish (\<lambda>_.
      dec_bind (dec_check (lease \<noteq> []) EmptyLease) (\<lambda>_. dec_return lease)))))))))"

section \<open>Responses\<close>

datatype query_outcome = Ready | Loading | Busy | Candidates

fun outcome_code :: "query_outcome \<Rightarrow> nat" where
  "outcome_code Ready = 1"
| "outcome_code Loading = 2"
| "outcome_code Busy = 3"
| "outcome_code Candidates = 4"

definition outcome_try_from :: "nat \<Rightarrow> cache_protocol_error + query_outcome" where
  "outcome_try_from v =
     (if v = 1 then Inr Ready else if v = 2 then Inr Loading else if v = 3 then Inr Busy
      else if v = 4 then Inr Candidates else Inl (UnknownOutcome v))"

record query_response =
  qp_outcome :: query_outcome
  qp_num_hit_blocks :: nat
  qp_lease :: bytes
  qp_hit_positions :: "nat list"

definition response_encode :: "query_response \<Rightarrow> cache_protocol_error + bytes" where
  "response_encode r =
     rbind (checked_u32 (length (qp_lease r)) ''lease'') (\<lambda>lease_len.
     rbind (checked_u32 (length (qp_hit_positions r)) ''hit_positions'') (\<lambda>positions_len.
       push_each (\<lambda>out p. Inr (push_u32 out p))
         (push_u32 (push_u32 (push_u64 (message_header QUERY_RESPONSE_MAGIC (outcome_code (qp_outcome r)))
            (qp_num_hit_blocks r)) lease_len) positions_len @ qp_lease r)
         (qp_hit_positions r)))"

definition response_valid :: "query_response \<Rightarrow> cache_protocol_error + unit" where
  "response_valid r =
     (if (qp_outcome r = Loading \<or> qp_outcome r = Busy)
         \<and> (qp_num_hit_blocks r \<noteq> 0 \<or> qp_lease r \<noteq> [] \<or> qp_hit_positions r \<noteq> [])
      then Inl InvalidLoadingPayload
      else if qp_outcome r = Candidates
         \<and> (qp_lease r \<noteq> [] \<or> qp_num_hit_blocks r \<noteq> length (qp_hit_positions r)
             \<or> (\<exists>i < length (qp_hit_positions r) - 1. qp_hit_positions r ! i \<ge> qp_hit_positions r ! Suc i))
      then Inl InvalidCandidates
      else Inr ())"

definition response_decode :: "bytes \<Rightarrow> cache_protocol_error + query_response" where
  "response_decode = run_decoder
     (dec_bind (expect_magic QUERY_RESPONSE_MAGIC) (\<lambda>_. dec_bind expect_version (\<lambda>_. dec_bind dec_u16 (\<lambda>code.
      dec_bind (dec_result (outcome_try_from code)) (\<lambda>outcome. dec_bind dec_u64 (\<lambda>num_hit_blocks.
      dec_bind dec_u32 (\<lambda>lease_len. dec_bind dec_u32 (\<lambda>positions_len.
      dec_bind (dec_bytes lease_len) (\<lambda>lease. dec_bind (dec_room positions_len 4) (\<lambda>_.
      dec_bind (dec_many dec_u32 positions_len) (\<lambda>hit_positions. dec_bind dec_finish (\<lambda>_.
        let r = \<lparr>qp_outcome = outcome, qp_num_hit_blocks = num_hit_blocks, qp_lease = lease,
                 qp_hit_positions = hit_positions\<rparr>
        in dec_bind (dec_result (response_valid r)) (\<lambda>_. dec_return r)))))))))))))"

definition MAX_SHARDS :: nat where "MAX_SHARDS = 32"

record shard_response =
  sh_outcome :: query_outcome
  sh_num_hit_blocks :: nat
  sh_leases :: "bytes list"
  sh_control_id :: bytes

definition nonzero_id :: "bytes \<Rightarrow> bool" where
  "nonzero_id bs \<longleftrightarrow> length bs = 16 \<and> list_ex (\<lambda>b. b \<noteq> 0) bs"

definition shard_validate :: "shard_response \<Rightarrow> cache_protocol_error + unit" where
  "shard_validate r =
     (if length (sh_leases r) \<le> MAX_SHARDS \<and>
         (case sh_outcome r of
            Ready \<Rightarrow>
              if sh_num_hit_blocks r > 0
              then sh_leases r \<noteq> [] \<and> nonzero_id (sh_control_id r) \<and> list_all nonzero_id (sh_leases r)
              else sh_leases r \<noteq> [] \<and> sh_control_id r = [] \<and> list_all (\<lambda>l. l = []) (sh_leases r)
          | Loading \<Rightarrow> sh_num_hit_blocks r = 0 \<and> sh_leases r = [] \<and> sh_control_id r = []
          | Busy \<Rightarrow> sh_num_hit_blocks r = 0 \<and> sh_leases r = [] \<and> sh_control_id r = []
          | Candidates \<Rightarrow> False)
      then Inr () else Inl InvalidShardPayload)"

definition shard_encode :: "shard_response \<Rightarrow> cache_protocol_error + bytes" where
  "shard_encode r =
     rbind (shard_validate r) (\<lambda>_.
       push_each (\<lambda>out lease. Inr (push_u16 out (length lease) @ lease))
         (push_u32 (push_u32 (push_u64 (message_header SHARD_RESPONSE_MAGIC (outcome_code (sh_outcome r)))
            (sh_num_hit_blocks r)) (length (sh_leases r))) (length (sh_control_id r)) @ sh_control_id r)
         (sh_leases r))"

definition dec_shard_lease :: "bytes decoder" where
  "dec_shard_lease =
     dec_bind dec_u16 (\<lambda>len. dec_bind (dec_check (len = 0 \<or> len = 16) InvalidShardPayload) (\<lambda>_. dec_bytes len))"

definition shard_decode :: "bytes \<Rightarrow> cache_protocol_error + shard_response" where
  "shard_decode = run_decoder
     (dec_bind (expect_magic SHARD_RESPONSE_MAGIC) (\<lambda>_. dec_bind expect_version (\<lambda>_. dec_bind dec_u16 (\<lambda>code.
      dec_bind (dec_result (outcome_try_from code)) (\<lambda>outcome. dec_bind dec_u64 (\<lambda>num_hit_blocks.
      dec_bind dec_u32 (\<lambda>count. dec_bind dec_u32 (\<lambda>control_len.
      dec_bind (dec_check (count \<le> MAX_SHARDS \<and> (control_len = 0 \<or> control_len = 16)) InvalidShardPayload) (\<lambda>_.
      dec_bind (dec_bytes control_len) (\<lambda>control_id. dec_bind (dec_many dec_shard_lease count) (\<lambda>leases.
      dec_bind dec_finish (\<lambda>_.
        let r = \<lparr>sh_outcome = outcome, sh_num_hit_blocks = num_hit_blocks, sh_leases = leases,
                 sh_control_id = control_id\<rparr>
        in dec_bind (dec_result (shard_validate r)) (\<lambda>_. dec_return r)))))))))))))"

section \<open>Tickets, ranges and hashes are read back\<close>

definition ticket_wf :: "query_ticket \<Rightarrow> bool" where
  "ticket_wf t \<longleftrightarrow> 0 < qt_operation_id t \<and> qt_operation_id t \<le> u64_max \<and> 0 < qt_revision t \<and> qt_revision t \<le> u64_max"

definition ticket_bytes :: "query_ticket \<Rightarrow> bytes" where
  "ticket_bytes t = le_bytes 8 (qt_operation_id t) @ le_bytes 8 (qt_revision t)"

definition range_wf :: "token_range \<Rightarrow> bool" where
  "range_wf r \<longleftrightarrow> range_start r \<le> u64_max \<and> range_end r \<le> u64_max"

definition range_bytes :: "token_range \<Rightarrow> bytes" where
  "range_bytes r = le_bytes 8 (range_start r) @ le_bytes 8 (range_end r)"

definition hash_wf :: "bytes \<Rightarrow> bool" where
  "hash_wf h \<longleftrightarrow> length h \<le> u32_max"

definition hash_bytes :: "bytes \<Rightarrow> bytes" where
  "hash_bytes h = le_bytes 4 (length h) @ h"

interpretation ticket: wire_codec ticket_bytes ticket_decode_from ticket_wf
  by unfold_locales (simp add: ticket_decode_from_def dec_runs ticket_wf_def ticket_bytes_def,
      auto simp: ticket_decode_from_def dec_iffs ticket_wf_def ticket_bytes_def)

interpretation token: wire_codec range_bytes dec_range range_wf
  by unfold_locales (simp add: dec_range_def dec_runs range_wf_def range_bytes_def,
      auto simp: dec_range_def dec_iffs range_wf_def range_bytes_def)

interpretation grp: wire_codec "\<lambda>g. le_bytes 4 (fst g) @ range_bytes (snd g)" dec_group
  "\<lambda>g. fst g \<le> u32_max \<and> range_wf (snd g)"
  by unfold_locales (simp add: dec_group_def dec_runs token.dec_enc, auto simp: dec_group_def dec_iffs token.dec_iff)

interpretation hash: wire_codec hash_bytes dec_hash hash_wf
  by unfold_locales (simp add: dec_hash_def dec_runs hash_wf_def hash_bytes_def,
      auto simp: dec_hash_def dec_iffs hash_wf_def hash_bytes_def dec_bytes_iff)

lemmas [dec_iffs] = ticket.dec_iff token.dec_iff hash.dec_iff hash.many_iff grp.many_iff u32.many_iff

lemma ticket_encode_iff [enc_iffs]:
  "ticket_encode_into out t = Inr out1 \<longleftrightarrow>
     qt_operation_id t \<noteq> 0 \<and> qt_revision t \<noteq> 0 \<and> out1 = out @ ticket_bytes t"
  by (auto simp: ticket_encode_into_def ticket_bytes_def push_u64_def)

lemma push_hashes_iff [enc_iffs]:
  "push_each (\<lambda>out h. push_bytes out h f) out hs = Inr out1 \<longleftrightarrow>
     list_all hash_wf hs \<and> out1 = out @ concat (map hash_bytes hs)"
  by (rule push_each_iff) (auto simp: push_bytes_iff hash_wf_def hash_bytes_def)

lemma push_groups_iff [enc_iffs]:
  "push_each push_group out gs = Inr out1 \<longleftrightarrow>
     out1 = out @ concat (map (\<lambda>g. le_bytes 4 (fst g) @ range_bytes (snd g)) gs)"
  using push_each_iff [where push = push_group and P = "\<lambda>_. True" and
      f = "\<lambda>g. le_bytes 4 (fst g) @ range_bytes (snd g)", of out gs out1]
  by (auto simp: push_group_def push_u32_def push_u64_def range_bytes_def list_all_iff)

section \<open>Flags\<close>

lemma and_bit:
  fixes n :: nat
  shows "n AND 1 = 0 \<longleftrightarrow> \<not> bit n 0" and "n AND 2 = 0 \<longleftrightarrow> \<not> bit n 1" and "n AND 4 = 0 \<longleftrightarrow> \<not> bit n 2"
    and "n AND 8 = 0 \<longleftrightarrow> \<not> bit n 3" and "n AND 16 = 0 \<longleftrightarrow> \<not> bit n 4"
  using and_exp_eq_0_iff_not_bit [of n 0] and_exp_eq_0_iff_not_bit [of n 1] and_exp_eq_0_iff_not_bit [of n 2]
    and_exp_eq_0_iff_not_bit [of n 3] and_exp_eq_0_iff_not_bit [of n 4] by simp_all

lemma bit_of_flag: "bit (push_bit m (of_bool b :: nat)) n \<longleftrightarrow> n = m \<and> b"
  by (auto simp: bit_push_bit_iff bit_of_bool_iff)

lemma query_flags_bit:
  "bit (query_flags r) n \<longleftrightarrow> n = 0 \<and> qr_wait_for_full_prefix r \<or> n = 1 \<and> qr_warmup r \<or> n = 2 \<and> qr_discover r
     \<or> n = 3 \<and> qr_materialize r \<or> n = 4 \<and> qr_prepare r"
  unfolding query_flags_def bit_or_iff bit_of_flag by (auto simp: bit_of_bool_iff)

lemma mask_flags: "(flags AND 65504 = 0 \<and> flags \<le> u16_max) \<longleftrightarrow> (\<forall>n. bit flags n \<longrightarrow> n < 5)" for flags :: nat
proof -
  have five: "(\<forall>n. bit flags n \<longrightarrow> n < 5) \<longleftrightarrow> take_bit 5 flags = flags"
    by (auto simp: bit_eq_iff bit_take_bit_iff)
  have "take_bit 16 flags = flags AND (65504 OR 31)" by (simp add: take_bit_eq_mask mask_numeral)
  also have "\<dots> = (flags AND 65504) OR (flags AND 31)"
    by (rule bit_eqI) (simp only: bit_and_iff bit_or_iff, blast)
  finally have split: "take_bit 16 flags = (flags AND 65504) OR take_bit 5 flags"
    by (simp add: take_bit_eq_mask mask_numeral)
  have low: "take_bit 5 flags AND 65504 = 0"
    by (simp add: take_bit_eq_mask mask_numeral and.assoc)
  have le: "flags \<le> u16_max \<longleftrightarrow> take_bit 16 flags = flags"
    by (auto simp: take_bit_nat_eq_self_iff u16_max_def)
  show ?thesis unfolding five le
  proof
    show "take_bit 5 flags = flags" if "flags AND 65504 = 0 \<and> take_bit 16 flags = flags"
      using split conjunct1 [OF that] conjunct2 [OF that] by simp
    show "flags AND 65504 = 0 \<and> take_bit 16 flags = flags" if "take_bit 5 flags = flags"
      using that split low by (metis or.left_neutral)
  qed
qed

lemma query_flags_ok: "query_flags r AND 65504 = 0" "query_flags r \<le> u16_max"
  using mask_flags [of "query_flags r"] by (auto simp: query_flags_bit)

lemma query_flags_of_bits:
  assumes "flags AND 65504 = 0" and "flags \<le> u16_max"
    and "qr_wait_for_full_prefix r = bit flags 0" and "qr_warmup r = bit flags 1" and "qr_discover r = bit flags 2"
    and "qr_materialize r = bit flags 3" and "qr_prepare r = bit flags 4"
  shows "query_flags r = flags"
proof (rule bit_eqI)
  fix n
  have "n < 5" if "bit flags n" using mask_flags assms(1,2) that by blast
  then have "bit flags n \<Longrightarrow> n = 0 \<or> n = 1 \<or> n = 2 \<or> n = 3 \<or> n = 4" by fastforce
  then show "bit (query_flags r) n = bit flags n" using assms(3-) unfolding query_flags_bit by blast
qed

section \<open>Requests are read back\<close>

definition group_bytes :: "nat \<times> token_range \<Rightarrow> bytes" where
  "group_bytes g = le_bytes 4 (fst g) @ range_bytes (snd g)"

definition demand_wf :: "recovery_demand \<Rightarrow> bool" where
  "demand_wf d \<longleftrightarrow> rd_page_tokens d \<le> u64_max \<and> range_wf (rd_span d) \<and>
     list_all (\<lambda>g. fst g \<le> u32_max \<and> range_wf (snd g)) (rd_groups d)"

definition demand_bytes :: "recovery_demand \<Rightarrow> bytes" where
  "demand_bytes d = le_bytes 8 (rd_page_tokens d) @ range_bytes (rd_span d) @ le_bytes 4 (length (rd_groups d)) @
     concat (map group_bytes (rd_groups d))"

lemma recovery_result_iff [simp]: "recovery_result r = Inr x \<longleftrightarrow> r = Inr x"
  by (cases r) (auto simp: recovery_result_def)

lemma length_range_bytes [simp]: "length (range_bytes r) = 16"
  by (simp add: range_bytes_def)

lemma dec_room_groups:
  assumes "list_all (\<lambda>g. fst g \<le> u32_max \<and> range_wf (snd g)) gs"
  shows "dec_room (length gs) 20 (concat (map group_bytes gs) @ rest) = Inr ((), concat (map group_bytes gs) @ rest)"
  using grp.room_enc [of gs "length gs" 20 rest] assms by (simp add: group_bytes_def [abs_def])

lemma dec_many_groups:
  assumes "list_all (\<lambda>g. fst g \<le> u32_max \<and> range_wf (snd g)) gs"
  shows "dec_many dec_group (length gs) (concat (map group_bytes gs) @ rest) = Inr (gs, rest)"
  using grp.many_enc [of gs "length gs" rest] assms by (simp add: group_bytes_def [abs_def])

lemma dec_room_hashes:
  assumes "list_all hash_wf hs"
  shows "dec_room (length hs) 4 (concat (map hash_bytes hs) @ rest) = Inr ((), concat (map hash_bytes hs) @ rest)"
  using assms by (intro hash.room_enc) (auto simp: hash_bytes_def)

interpretation dem: wire_codec demand_bytes "dec_demand g n"
  "\<lambda>d. demand_wf d \<and> length (rd_groups d) \<le> u32_max \<and> demand_validate d g n = Inr ()" for g n
proof
  show "dec_demand g n (demand_bytes d @ rest) = Inr (d, rest)"
    if "demand_wf d \<and> length (rd_groups d) \<le> u32_max \<and> demand_validate d g n = Inr ()" for d rest
    using that by (cases d) (simp add: dec_demand_def demand_bytes_def demand_wf_def dec_runs token.dec_enc
        dec_room_groups dec_many_groups recovery_result_def)
  show "(demand_wf d \<and> length (rd_groups d) \<le> u32_max \<and> demand_validate d g n = Inr ()) \<and> bs = demand_bytes d @ rest"
    if "dec_demand g n bs = Inr (d, rest)" for bs d rest
    using that by (auto simp: dec_demand_def demand_bytes_def demand_wf_def dec_iffs group_bytes_def [abs_def]
        dest!: dec_room_D)
qed

text \<open>\<open>query_wf\<close>: the fields have the machine types of the struct, and its strings are UTF-8.
  \<open>query_accepts\<close>: what both sides ask of a request.\<close>

definition query_wf :: "query_request \<Rightarrow> bool" where
  "query_wf r \<longleftrightarrow> qt_operation_id (qr_ticket r) \<le> u64_max \<and> qt_revision (qr_ticket r) \<le> u64_max \<and>
     utf8_valid (qr_instance_id r) \<and> utf8_valid (qr_request_id r) \<and> qr_group_id r \<le> u32_max \<and>
     (case qr_demand r of None \<Rightarrow> True | Some d \<Rightarrow> demand_wf d)"

definition query_accepts :: "query_request \<Rightarrow> bool" where
  "query_accepts r \<longleftrightarrow> qt_operation_id (qr_ticket r) \<noteq> 0 \<and> qt_revision (qr_ticket r) \<noteq> 0 \<and>
     qr_request_id r \<noteq> [] \<and> qr_materialize r = (qr_demand r \<noteq> None) \<and>
     length (qr_instance_id r) \<le> u32_max \<and> length (qr_request_id r) \<le> u32_max \<and>
     length (qr_block_hashes r) \<le> u32_max \<and> list_all hash_wf (qr_block_hashes r) \<and>
     (case qr_demand r of
        None \<Rightarrow> True
      | Some d \<Rightarrow> length (rd_groups d) \<le> u32_max \<and>
          demand_validate d (qr_group_id r) (length (qr_block_hashes r)) = Inr ())"

definition query_bytes :: "query_request \<Rightarrow> bytes" where
  "query_bytes r = le_bytes 4 QUERY_REQUEST_MAGIC @ le_bytes 2 CACHE_PROTOCOL_VERSION @ le_bytes 2 (query_flags r) @
     ticket_bytes (qr_ticket r) @ le_bytes 4 (qr_group_id r) @ le_bytes 4 (length (qr_instance_id r)) @
     le_bytes 4 (length (qr_request_id r)) @ le_bytes 4 (length (qr_block_hashes r)) @
     qr_instance_id r @ qr_request_id r @ concat (map hash_bytes (qr_block_hashes r)) @
     (case qr_demand r of None \<Rightarrow> [] | Some d \<Rightarrow> demand_bytes d)"

lemma length_hashes: "length (concat (map hash_bytes hs)) = 4 * length hs + sum_list (map length hs)"
  by (induction hs) (auto simp: hash_bytes_def)

lemma length_groups: "length (concat (map group_bytes gs)) = 20 * length gs"
  by (induction gs) (auto simp: group_bytes_def)

lemma query_size:
  "REQUEST_HEADER_BYTES + (\<Sum>(count, width)\<leftarrow>
       [(length (qr_instance_id r), 1), (length (qr_request_id r), 1), (length (qr_block_hashes r), 4)]
       @ map (\<lambda>h. (length h, 1)) (qr_block_hashes r)
       @ (case qr_demand r of None \<Rightarrow> [] | Some d \<Rightarrow> [(1, 28), (length (rd_groups d), 20)]). count * width)
     = length (query_bytes r)"
  by (simp add: query_bytes_def REQUEST_HEADER_BYTES_def ticket_bytes_def length_hashes demand_bytes_def length_groups
      comp_def del: length_concat split: option.split)

lemma query_encode_iff:
  "query_encode r = Inr bs \<longleftrightarrow> query_accepts r \<and> length (query_bytes r) \<le> isize_max \<and> bs = query_bytes r"
proof -
  have "(\<exists>n. add_sizes REQUEST_HEADER_BYTES
       ([(length (qr_instance_id r), 1), (length (qr_request_id r), 1), (length (qr_block_hashes r), 4)]
       @ map (\<lambda>h. (length h, 1)) (qr_block_hashes r)
       @ (case qr_demand r of None \<Rightarrow> [] | Some d \<Rightarrow> [(1, 28), (length (rd_groups d), 20)])) = Inr n)
     \<longleftrightarrow> length (query_bytes r) \<le> isize_max"
    unfolding add_sizes_iff query_size by simp
  then show ?thesis
    by (cases "qr_demand r")
      (auto simp: query_encode_def query_accepts_def rbind_eq_Inr_iff enc_iffs push_demand_def query_bytes_def
        message_header_def push_u16_def push_u32_def push_u64_def demand_bytes_def range_bytes_def [symmetric]
        group_bytes_def [abs_def] simp del: add_sizes.simps)
qed

lemma magics_fit:
  "QUERY_REQUEST_MAGIC \<le> u32_max" "QUERY_RESPONSE_MAGIC \<le> u32_max" "QUERY_POLL_MAGIC \<le> u32_max"
  "CANCEL_QUERY_MAGIC \<le> u32_max" "RELEASE_REQUEST_MAGIC \<le> u32_max" "SHARD_RESPONSE_MAGIC \<le> u32_max"
  by (simp_all add: magic_defs u32_max_def)

lemma query_decode_enc:
  assumes "query_wf r" and "query_accepts r"
  shows "query_decode (query_bytes r) = Inr r"
proof -
  have t: "ticket_wf (qr_ticket r)" using assms by (simp add: query_wf_def query_accepts_def ticket_wf_def)
  have bits: "(query_flags r mod 2 = Suc 0) = qr_wait_for_full_prefix r" "(0 < query_flags r AND 2) = qr_warmup r"
    "(0 < query_flags r AND 4) = qr_discover r" "(0 < query_flags r AND 8) = qr_materialize r"
    "(query_flags r AND 8 = 0) = (\<not> qr_materialize r)" "(0 < query_flags r AND 16) = qr_prepare r"
    using and_bit [of "query_flags r"] unfolding query_flags_bit by (auto simp: neq0_conv [symmetric] simp del: neq0_conv)
  show ?thesis
    using assms t query_flags_ok [of r] unfolding query_decode_def query_decoder_def query_bytes_def
    by (cases "qr_demand r")
      (simp_all add: query_wf_def query_accepts_def dec_runs magics_fit ticket.dec_enc dec_room_hashes hash.many_enc
        dec_room_hashes [where rest = "[]", simplified] hash.many_enc [where rest = "[]", simplified]
        bits dec_finish_def dem.dec_enc [where rest = "[]", simplified])
qed

lemma query_flags_record:
  assumes "flags AND 65504 = 0" and "flags \<le> u16_max" and "w \<longleftrightarrow> flags mod 2 = Suc 0" and "m = bit flags 3"
  shows "query_flags \<lparr>qr_ticket = t, qr_instance_id = i, qr_request_id = q, qr_block_hashes = hs, qr_group_id = g,
      qr_wait_for_full_prefix = w, qr_warmup = bit flags (Suc 0), qr_discover = bit flags 2, qr_materialize = m,
      qr_prepare = bit flags 4, qr_demand = d\<rparr> = flags"
  using assms by (intro query_flags_of_bits) (simp_all add: bit_0 odd_iff_mod_2_eq_one)

lemma query_decode_sound:
  assumes "query_decode bs = Inr r"
  shows "query_wf r \<and> query_accepts r \<and> bs = query_bytes r"
  using assms unfolding query_decode_def query_decoder_def
  by (auto simp: dec_iffs dec_string_iff and_bit query_wf_def query_accepts_def query_bytes_def ticket_wf_def
      dem.dec_iff query_flags_record dest!: dec_room_D split: if_splits)

lemma query_codec:
  assumes "length bs \<le> isize_max"
  shows "query_decode bs = Inr r \<longleftrightarrow> query_wf r \<and> query_encode r = Inr bs"
  using assms query_decode_sound [of bs r] query_decode_enc [of r] by (auto simp: query_encode_iff)

definition ticket_fits :: "query_ticket \<Rightarrow> bool" where
  "ticket_fits t \<longleftrightarrow> qt_operation_id t \<le> u64_max \<and> qt_revision t \<le> u64_max"

lemma ticket_message:
  "ticket_fits t \<and> ticket_encode_into out t = Inr bs \<longleftrightarrow> ticket_wf t \<and> bs = out @ ticket_bytes t"
  by (auto simp: ticket_encode_iff ticket_wf_def ticket_fits_def)

fun command_wf :: "query_command \<Rightarrow> bool" where
  "command_wf (Submit r) = query_wf r"
| "command_wf (Poll t) = ticket_fits t"
| "command_wf (Claim t count_lookup) = ticket_fits t"

lemma header_bytes:
  "message_header magic code = le_bytes 4 magic @ le_bytes 2 CACHE_PROTOCOL_VERSION @ le_bytes 2 code"
  by (simp add: message_header_def push_u16_def push_u32_def)

lemma magic_of_query: "query_decode bs = Inr r \<Longrightarrow> \<exists>rest. dec_u32 bs = Inr (QUERY_REQUEST_MAGIC, rest)"
  using query_decode_sound [of bs r] magics_fit by (auto simp: query_bytes_def u32.dec_enc)

lemma query_magic_encoded: "query_encode r = Inr bs \<Longrightarrow> \<exists>rest. dec_u32 bs = Inr (QUERY_REQUEST_MAGIC, rest)"
  using magics_fit by (auto simp: query_encode_iff query_bytes_def u32.dec_enc)

definition poll_flags :: "query_command \<Rightarrow> nat" where
  "poll_flags c = (case c of Claim t count_lookup \<Rightarrow> 1 OR push_bit 1 (of_bool count_lookup) | _ \<Rightarrow> 0)"

lemma poll_flags_cases:
  "poll_flags (Poll t) = 0" "poll_flags (Claim t False) = 1" "poll_flags (Claim t True) = 3"
  by (simp_all add: poll_flags_def)

lemma poll_codec:
  "run_decoder poll_decoder rest = Inr c \<longleftrightarrow>
     (\<exists>t. ticket_wf t \<and> (c = Poll t \<or> c = Claim t False \<or> c = Claim t True) \<and>
       rest = le_bytes 2 CACHE_PROTOCOL_VERSION @ le_bytes 2 (poll_flags c) @ ticket_bytes t)"
  (is "?l \<longleftrightarrow> ?r")
proof
  assume ?l
  then obtain flags t where f: "\<not> (3 < flags \<or> flags = 2)" and t: "ticket_wf t"
    and rest: "rest = le_bytes 2 CACHE_PROTOCOL_VERSION @ le_bytes 2 flags @ ticket_bytes t"
    and c: "c = (if flags AND 1 \<noteq> 0 then Claim t (flags AND 2 \<noteq> 0) else Poll t)"
    unfolding poll_decoder_def dec_iffs by (elim exE conjE) (rule that, assumption, assumption, simp, assumption)
  from f consider "flags = 0" | "flags = 1" | "flags = 3" by linarith
  then show ?r by cases (use t rest c in \<open>auto simp: poll_flags_cases\<close>)
next
  assume ?r
  then obtain t where t: "ticket_wf t" "c = Poll t \<or> c = Claim t False \<or> c = Claim t True"
    "rest = le_bytes 2 CACHE_PROTOCOL_VERSION @ le_bytes 2 (poll_flags c) @ ticket_bytes t" by blast
  have "ticket_decode_from (ticket_bytes t) = Inr (t, [])" using ticket.dec_enc [OF t(1), of "[]"] by simp
  then show ?l using t
    by (auto simp: poll_decoder_def dec_runs poll_flags_cases dec_finish_def u16_max_def)
qed

lemma command_decode_poll:
  assumes "\<And>r. c \<noteq> Submit r"
  shows "command_decode bs = Inr c \<longleftrightarrow>
    (\<exists>rest. bs = le_bytes 4 QUERY_POLL_MAGIC @ rest \<and> run_decoder poll_decoder rest = Inr c)"
proof
  assume "command_decode bs = Inr c"
  then show "\<exists>rest. bs = le_bytes 4 QUERY_POLL_MAGIC @ rest \<and> run_decoder poll_decoder rest = Inr c"
    using assms by (auto simp: command_decode_def rbind_eq_Inr_iff u32.dec_iff split: if_splits)
next
  have "QUERY_POLL_MAGIC \<noteq> QUERY_REQUEST_MAGIC" by (simp add: magic_defs)
  moreover assume "\<exists>rest. bs = le_bytes 4 QUERY_POLL_MAGIC @ rest \<and> run_decoder poll_decoder rest = Inr c"
  ultimately show "command_decode bs = Inr c" by (auto simp: command_decode_def u32.dec_enc magics_fit)
qed

lemma command_codec:
  assumes "length bs \<le> isize_max"
  shows "command_decode bs = Inr c \<longleftrightarrow> command_wf c \<and> command_encode c = Inr bs"
proof (cases c)
  case (Submit r)
  have "command_decode bs = Inr (Submit r) \<longleftrightarrow> query_decode bs = Inr r"
  proof
    assume "query_decode bs = Inr r"
    then show "command_decode bs = Inr (Submit r)" using magic_of_query [of bs r] by (auto simp: command_decode_def)
  next
    assume "command_decode bs = Inr (Submit r)"
    then show "query_decode bs = Inr r"
      by (auto simp: command_decode_def rbind_eq_Inr_iff poll_codec split: if_splits)
  qed
  then show ?thesis using Submit query_codec [OF assms, of r] by (simp add: command_encode_def)
next
  case (Poll t)
  have "command_decode bs = Inr (Poll t) \<longleftrightarrow>
      ticket_wf t \<and> bs = message_header QUERY_POLL_MAGIC 0 @ ticket_bytes t"
    by (auto simp: command_decode_poll poll_codec header_bytes poll_flags_cases)
  then show ?thesis using Poll ticket_message [of t "message_header QUERY_POLL_MAGIC 0" bs]
    by (simp add: command_encode_def)
next
  case (Claim t b)
  have "command_decode bs = Inr (Claim t b) \<longleftrightarrow>
      ticket_wf t \<and> bs = message_header QUERY_POLL_MAGIC (poll_flags (Claim t b)) @ ticket_bytes t"
    by (cases b) (auto simp: command_decode_poll poll_codec header_bytes)
  then show ?thesis using Claim ticket_message [of t "message_header QUERY_POLL_MAGIC (poll_flags (Claim t b))" bs]
    by (simp add: command_encode_def poll_flags_def)
qed

lemma cancel_codec: "cancel_decode bs = Inr t \<longleftrightarrow> ticket_fits t \<and> cancel_encode t = Inr bs"
  unfolding cancel_encode_def ticket_message header_bytes cancel_decode_def
  by (auto simp: dec_iffs magics_fit u16_max_def)

lemma release_codec: "release_decode bs = Inr lease \<longleftrightarrow> lease \<noteq> [] \<and> release_encode lease = Inr bs"
  unfolding release_encode_def push_bytes_iff header_bytes release_decode_def
  by (auto simp: dec_iffs dec_bytes_iff magics_fit u16_max_def)

section \<open>Responses are read back\<close>

lemma outcome_round_trip: "outcome_try_from code = Inr x \<longleftrightarrow> code = outcome_code x"
  by (cases x) (auto simp: outcome_try_from_def)

lemma outcome_code_fits: "outcome_code x \<le> u16_max"
  by (cases x) (simp_all add: u16_max_def)

definition response_wf :: "query_response \<Rightarrow> bool" where
  "response_wf r \<longleftrightarrow> qp_num_hit_blocks r \<le> u64_max \<and> list_all (\<lambda>p. p \<le> u32_max) (qp_hit_positions r) \<and>
     response_valid r = Inr ()"

lemma push_u32s_iff [enc_iffs]:
  "push_each (\<lambda>out p. Inr (out @ le_bytes 4 p)) out ps = Inr out1 \<longleftrightarrow> out1 = out @ concat (map (le_bytes 4) ps)"
  using push_each_iff [where push = "\<lambda>out p. Inr (out @ le_bytes 4 p)" and P = "\<lambda>_. True" and f = "le_bytes 4", of out ps out1]
  by (auto simp: list_all_iff)

lemma response_codec: "response_decode bs = Inr r \<longleftrightarrow> response_wf r \<and> response_encode r = Inr bs"
  (is "?l \<longleftrightarrow> ?r")
proof
  assume ?l
  then show ?r unfolding response_decode_def response_encode_def response_wf_def Let_def header_bytes
    by (auto simp: dec_iffs dec_bytes_iff enc_iffs outcome_round_trip rbind_eq_Inr_iff push_u32_def push_u64_def
        dest!: dec_room_D)
next
  assume r: ?r
  have room: "dec_room (length ps) 4 (concat (map (le_bytes 4) ps)) = Inr ((), concat (map (le_bytes 4) ps))"
    if "list_all (\<lambda>p. p \<le> u32_max) ps" for ps
    using u32.room_enc [of ps "length ps" 4 "[]"] that by simp
  have many: "dec_many dec_u32 (length ps) (concat (map (le_bytes 4) ps)) = Inr (ps, [])"
    if "list_all (\<lambda>p. p \<le> u32_max) ps" for ps
    using u32.many_enc [of ps "length ps" "[]"] that by simp
  have code: "outcome_try_from (outcome_code (qp_outcome r)) = Inr (qp_outcome r)" by (simp add: outcome_round_trip)
  show ?l using r unfolding response_decode_def response_encode_def response_wf_def Let_def header_bytes
    by (cases r) (auto simp: enc_iffs rbind_eq_Inr_iff push_u32_def push_u64_def dec_runs magics_fit outcome_code_fits
        outcome_round_trip code room many dec_finish_def)
qed

definition shard_wf :: "shard_response \<Rightarrow> bool" where
  "shard_wf r \<longleftrightarrow> sh_num_hit_blocks r \<le> u64_max"

definition shard_lease_bytes :: "bytes \<Rightarrow> bytes" where
  "shard_lease_bytes l = le_bytes 2 (length l) @ l"

interpretation lease: wire_codec shard_lease_bytes dec_shard_lease "\<lambda>l. length l = 0 \<or> length l = 16"
proof
  show "dec_shard_lease (shard_lease_bytes x @ rest) = Inr (x, rest)" if "length x = 0 \<or> length x = 16" for x rest
  proof -
    have "length x \<le> u16_max" using that by (auto simp: u16_max_def)
    then show ?thesis using that by (auto simp: dec_shard_lease_def dec_runs shard_lease_bytes_def dec_bytes_def)
  qed
qed (auto simp: dec_shard_lease_def dec_iffs dec_bytes_iff shard_lease_bytes_def)

lemma push_leases_iff [enc_iffs]:
  "push_each (\<lambda>out l. Inr (out @ le_bytes 2 (length l) @ l)) out ls = Inr out1 \<longleftrightarrow>
     out1 = out @ concat (map shard_lease_bytes ls)"
  using push_each_iff [where push = "\<lambda>out l. Inr (out @ le_bytes 2 (length l) @ l)" and P = "\<lambda>_. True" and
      f = shard_lease_bytes, of out ls out1]
  by (auto simp: shard_lease_bytes_def list_all_iff)

lemma shard_valid_lengths:
  assumes "shard_validate r = Inr ()"
  shows "length (sh_leases r) \<le> MAX_SHARDS" and "length (sh_control_id r) = 0 \<or> length (sh_control_id r) = 16"
    and "list_all (\<lambda>l. length l = 0 \<or> length l = 16) (sh_leases r)"
  using assms unfolding shard_validate_def
  by (auto simp: nonzero_id_def list_all_iff split: if_splits query_outcome.splits)

lemma shard_codec: "shard_decode bs = Inr r \<longleftrightarrow> shard_wf r \<and> shard_encode r = Inr bs"
  (is "?l \<longleftrightarrow> ?r")
proof
  assume ?l
  then show ?r unfolding shard_decode_def shard_encode_def shard_wf_def Let_def header_bytes
    by (auto simp: dec_iffs dec_bytes_iff enc_iffs outcome_round_trip lease.many_iff push_u16_def push_u32_def push_u64_def)
next
  assume r: ?r
  then have v: "shard_validate r = Inr ()" by (auto simp: shard_encode_def rbind_eq_Inr_iff)
  note lens = shard_valid_lengths [OF v]
  have many: "dec_many dec_shard_lease (length (sh_leases r)) (concat (map shard_lease_bytes (sh_leases r))) =
      Inr (sh_leases r, [])"
    using lease.many_enc [OF lens(3) refl, of "[]"] by simp
  have code: "outcome_try_from (outcome_code (sh_outcome r)) = Inr (sh_outcome r)" by (simp add: outcome_round_trip)
  have "length (sh_leases r) \<le> u32_max" "length (sh_control_id r) \<le> u32_max"
    using lens(1,2) by (auto simp: MAX_SHARDS_def u32_max_def)
  then show ?l using r v lens(1,2) many code unfolding shard_decode_def shard_encode_def shard_wf_def Let_def header_bytes
    by (cases r) (simp add: enc_iffs rbind_eq_Inr_iff push_u16_def push_u32_def push_u64_def dec_runs magics_fit outcome_code_fits
        dec_finish_def)
qed

end
