(* ===== verification/Cache_Transfers.thy ===== *)
theory Cache_Transfers
  imports Cache_Messages
begin

text \<open>
  The messages of the cache protocol that move blocks (\<open>orbitkv-channel/src/cache_protocol.rs\<close>): restore and
  publish requests and completion observations, and the cutting of a publish request into the payloads of
  descriptor slots (\<open>publish_payloads\<close> of \<open>orbitkv-channel/src/client.rs\<close>).
\<close>

section \<open>Restore requests\<close>

definition RESTORE_REQUEST_MAGIC :: nat where "RESTORE_REQUEST_MAGIC = 0x4F525251"
definition RESTORE_HEADER_BYTES :: nat where "RESTORE_HEADER_BYTES = 28"

record restore_lease =
  rl_lease :: bytes
  rl_block_ids_by_group :: "nat option list list"

record restore_request =
  rr_instance_id :: bytes
  rr_tp_rank :: nat
  rr_device_id :: int
  rr_layer_groups :: "bytes list list"
  rr_loads :: "restore_lease list"

definition restore_sizes :: "restore_request \<Rightarrow> (nat \<times> nat) list" where
  "restore_sizes r =
     (length (rr_instance_id r), 1)
     # concat (map (\<lambda>g. (1, 4) # concat (map (\<lambda>layer. [(1, 4), (length layer, 1)]) g)) (rr_layer_groups r))
     @ concat (map (\<lambda>load. (1, 8) # (length (rl_lease load), 1)
                 # concat (map (\<lambda>targets. [(1, 4), (length targets, 4)]) (rl_block_ids_by_group load))) (rr_loads r))"

definition target_code :: "nat option \<Rightarrow> nat" where
  "target_code t = (case t of None \<Rightarrow> u32_max | Some block_id \<Rightarrow> block_id)"

definition push_layer_group :: "bytes \<Rightarrow> bytes list \<Rightarrow> cache_protocol_error + bytes" where
  "push_layer_group out g =
     rbind (checked_u32 (length g) ''layer_group'') (\<lambda>n.
       push_each (\<lambda>out layer. push_bytes out layer ''layer_name'') (push_u32 out n) g)"

definition push_targets :: "bytes \<Rightarrow> nat option list \<Rightarrow> cache_protocol_error + bytes" where
  "push_targets out ts =
     rbind (checked_u32 (length ts) ''block_targets'') (\<lambda>n.
       push_each (\<lambda>out t. Inr (push_u32 out (target_code t))) (push_u32 out n) ts)"

definition push_load :: "bytes \<Rightarrow> restore_lease \<Rightarrow> cache_protocol_error + bytes" where
  "push_load out load =
     rbind (push_bytes out (rl_lease load) ''lease'') (\<lambda>out1.
     rbind (checked_u32 (length (rl_block_ids_by_group load)) ''block_ids_by_group'') (\<lambda>n.
       push_each push_targets (push_u32 out1 n) (rl_block_ids_by_group load)))"

definition restore_encode :: "restore_request \<Rightarrow> cache_protocol_error + bytes" where
  "restore_encode r =
     rbind (add_sizes RESTORE_HEADER_BYTES (restore_sizes r)) (\<lambda>_.
     rbind (checked_u32 (length (rr_instance_id r)) ''instance_id'') (\<lambda>instance_len.
     rbind (checked_u32 (length (rr_layer_groups r)) ''layer_groups'') (\<lambda>group_count.
     rbind (checked_u32 (length (rr_loads r)) ''loads'') (\<lambda>load_count.
     rbind (push_each push_layer_group
              (push_u32 (push_u32 (push_u32 (push_i32 (push_u32 (message_header RESTORE_REQUEST_MAGIC 0) (rr_tp_rank r))
                 (rr_device_id r)) instance_len) group_count) load_count @ rr_instance_id r)
              (rr_layer_groups r)) (\<lambda>out.
       push_each push_load out (rr_loads r))))))"

definition dec_layer_name :: "bytes decoder" where
  "dec_layer_name = dec_bind dec_u32 (\<lambda>len. dec_string len ''layer_name'')"

definition dec_layer_group :: "bytes list decoder" where
  "dec_layer_group = dec_counted dec_layer_name 4"

definition dec_target :: "nat option decoder" where
  "dec_target = dec_bind dec_u32 (\<lambda>t. dec_return (if t \<noteq> u32_max then Some t else None))"

definition dec_targets :: "nat option list decoder" where
  "dec_targets = dec_counted dec_target 4"

definition dec_load :: "restore_lease decoder" where
  "dec_load =
     dec_bind dec_u32 (\<lambda>lease_len. dec_bind (dec_bytes lease_len) (\<lambda>lease.
     dec_bind (dec_check (lease \<noteq> []) EmptyLease) (\<lambda>_. dec_bind (dec_counted dec_targets 4) (\<lambda>ids.
       dec_return \<lparr>rl_lease = lease, rl_block_ids_by_group = ids\<rparr>))))"

definition restore_decode :: "bytes \<Rightarrow> cache_protocol_error + restore_request" where
  "restore_decode = run_decoder
     (dec_bind (expect_magic RESTORE_REQUEST_MAGIC) (\<lambda>_. dec_bind expect_version (\<lambda>_. dec_bind dec_u16 (\<lambda>flags.
      dec_bind (dec_check (flags = 0) (InvalidFlags flags)) (\<lambda>_.
      dec_bind dec_u32 (\<lambda>tp_rank. dec_bind dec_i32 (\<lambda>device_id. dec_bind dec_u32 (\<lambda>instance_len.
      dec_bind dec_u32 (\<lambda>group_count. dec_bind dec_u32 (\<lambda>load_count.
      dec_bind (dec_string instance_len ''instance_id'') (\<lambda>instance_id.
      dec_bind (dec_room group_count 4) (\<lambda>_. dec_bind (dec_many dec_layer_group group_count) (\<lambda>layer_groups.
      dec_bind (dec_room load_count 8) (\<lambda>_. dec_bind (dec_many dec_load load_count) (\<lambda>loads.
      dec_bind dec_finish (\<lambda>_.
        dec_return \<lparr>rr_instance_id = instance_id, rr_tp_rank = tp_rank, rr_device_id = device_id,
          rr_layer_groups = layer_groups, rr_loads = loads\<rparr>))))))))))))))))"

section \<open>Publish requests\<close>

definition PUBLISH_REQUEST_MAGIC :: nat where "PUBLISH_REQUEST_MAGIC = 0x4F525051"
definition PUBLISH_HEADER_BYTES :: nat where "PUBLISH_HEADER_BYTES = 44"

record publish_layer =
  pl_layer_name :: bytes
  pl_block_ids :: "nat list"
  pl_block_hashes :: "bytes list"

record publish_request =
  pr_instance_id :: bytes
  pr_registration_generation :: bytes
  pr_tp_rank :: nat
  pr_pp_rank :: nat
  pr_device_id :: int
  pr_layers :: "publish_layer list"

definition validate_publish_layer :: "publish_layer \<Rightarrow> cache_protocol_error + unit" where
  "validate_publish_layer l =
     (if length (pl_block_ids l) \<noteq> length (pl_block_hashes l)
      then Inl (PublishShapeMismatch (pl_layer_name l) (length (pl_block_ids l)) (length (pl_block_hashes l)))
      else Inr ())"

definition validate_publish_layers :: "publish_layer list \<Rightarrow> cache_protocol_error + unit" where
  "validate_publish_layers layers = rbind (traverse validate_publish_layer layers) (\<lambda>_. Inr ())"

text \<open>The blocks of a layer that a range selects; \<open>None\<close> when the layer is skipped.\<close>

definition publish_selected :: "(nat \<times> nat) option \<Rightarrow> publish_layer \<Rightarrow> (nat \<times> nat) option" where
  "publish_selected rng l =
     (case rng of
        None \<Rightarrow> Some (0, length (pl_block_ids l))
      | Some (s, e) \<Rightarrow>
          (let e1 = min e (length (pl_block_ids l)) in if s \<ge> e1 then None else Some (s, e1)))"

definition block_slice :: "nat \<times> nat \<Rightarrow> 'a list \<Rightarrow> 'a list" where
  "block_slice sel xs = take (snd sel - fst sel) (drop (fst sel) xs)"

fun hashes_len :: "nat \<Rightarrow> bytes list \<Rightarrow> cache_protocol_error + nat" where
  "hashes_len n [] = Inr n"
| "hashes_len n (h # hs) =
     rbind (checked_u32 (length h) ''block_hash'') (\<lambda>_. rbind (add_encoded_size n (length h) 1) (\<lambda>m. hashes_len m hs))"

fun layers_len :: "(nat \<times> nat) option \<Rightarrow> nat \<Rightarrow> publish_layer list \<Rightarrow> cache_protocol_error + nat" where
  "layers_len rng n [] = Inr n"
| "layers_len rng n (l # ls) =
     (case publish_selected rng l of
        None \<Rightarrow> layers_len rng n ls
      | Some sel \<Rightarrow>
          rbind (checked_u32 (length (pl_layer_name l)) ''layer_name'') (\<lambda>_.
          rbind (checked_u32 (snd sel - fst sel) ''block_ids'') (\<lambda>_.
          rbind (add_sizes n [(1, 8), (length (pl_layer_name l), 1), (snd sel - fst sel, 8)]) (\<lambda>m.
          rbind (hashes_len m (block_slice sel (pl_block_hashes l))) (\<lambda>k. layers_len rng k ls)))))"

definition publish_encoded_len :: "publish_request \<Rightarrow> (nat \<times> nat) option \<Rightarrow> cache_protocol_error + nat" where
  "publish_encoded_len r rng =
     (if pr_registration_generation r = replicate 16 0 then Inl InvalidRegistrationGeneration
      else
        rbind (validate_publish_layers (pr_layers r)) (\<lambda>_.
        rbind (checked_u32 (length (pr_instance_id r)) ''instance_id'') (\<lambda>_.
        rbind (checked_u32 (length (pr_layers r)) ''layers'') (\<lambda>_.
        rbind (add_encoded_size PUBLISH_HEADER_BYTES (length (pr_instance_id r)) 1) (\<lambda>n.
          layers_len rng n (pr_layers r))))))"

definition push_block :: "bytes \<Rightarrow> nat \<times> bytes \<Rightarrow> cache_protocol_error + bytes" where
  "push_block out b = push_bytes (push_u32 out (fst b)) (snd b) ''block_hash''"

definition push_publish_layer :: "(nat \<times> nat) option \<Rightarrow> bytes \<Rightarrow> publish_layer \<Rightarrow> cache_protocol_error + bytes" where
  "push_publish_layer rng out l =
     (case publish_selected rng l of
        None \<Rightarrow> Inr out
      | Some sel \<Rightarrow>
          rbind (checked_u32 (length (pl_layer_name l)) ''layer_name'') (\<lambda>name_len.
          rbind (checked_u32 (snd sel - fst sel) ''block_ids'') (\<lambda>block_count.
            push_each push_block (push_u32 (push_u32 out name_len) block_count @ pl_layer_name l)
              (zip (block_slice sel (pl_block_ids l)) (block_slice sel (pl_block_hashes l))))))"

definition publish_encode_range :: "publish_request \<Rightarrow> (nat \<times> nat) option \<Rightarrow> cache_protocol_error + bytes" where
  "publish_encode_range r rng =
     rbind (publish_encoded_len r rng) (\<lambda>_.
     rbind (checked_u32 (length (pr_instance_id r)) ''instance_id'') (\<lambda>instance_len.
     rbind (checked_u32 (length (filter (\<lambda>l. case rng of None \<Rightarrow> True | Some (s, e) \<Rightarrow> s < min e (length (pl_block_ids l)))
              (pr_layers r))) ''layers'') (\<lambda>layer_count.
       push_each (push_publish_layer rng)
         (push_u32 (push_u32 (push_i32 (push_u32 (push_u32 (message_header PUBLISH_REQUEST_MAGIC 0) (pr_tp_rank r))
            (pr_pp_rank r)) (pr_device_id r)) instance_len) layer_count
          @ pr_registration_generation r @ pr_instance_id r)
         (pr_layers r))))"

definition publish_encode :: "publish_request \<Rightarrow> cache_protocol_error + bytes" where
  "publish_encode r = publish_encode_range r None"

fun layers_block_len :: "nat \<Rightarrow> nat \<Rightarrow> publish_layer list \<Rightarrow> cache_protocol_error + nat" where
  "layers_block_len index n [] = Inr n"
| "layers_block_len index n (l # ls) =
     (if index < length (pl_block_hashes l)
      then rbind (add_sizes n [(1, 8), (length (pl_block_hashes l ! index), 1)]) (\<lambda>m. layers_block_len index m ls)
      else layers_block_len index n ls)"

definition block_payload_len :: "publish_request \<Rightarrow> nat \<Rightarrow> cache_protocol_error + nat" where
  "block_payload_len r index = layers_block_len index 0 (pr_layers r)"

definition dec_block :: "(nat \<times> bytes) decoder" where
  "dec_block = dec_bind dec_u32 (\<lambda>block_id. dec_bind dec_u32 (\<lambda>hash_len. dec_bind (dec_bytes hash_len) (\<lambda>h.
     dec_return (block_id, h))))"

definition dec_publish_layer :: "publish_layer decoder" where
  "dec_publish_layer =
     dec_bind dec_u32 (\<lambda>name_len. dec_bind dec_u32 (\<lambda>block_count.
     dec_bind (dec_string name_len ''layer_name'') (\<lambda>layer_name.
     dec_bind (dec_room block_count 8) (\<lambda>_. dec_bind (dec_many dec_block block_count) (\<lambda>blocks.
       dec_return \<lparr>pl_layer_name = layer_name, pl_block_ids = map fst blocks, pl_block_hashes = map snd blocks\<rparr>)))))"

definition publish_decode :: "bytes \<Rightarrow> cache_protocol_error + publish_request" where
  "publish_decode = run_decoder
     (dec_bind (expect_magic PUBLISH_REQUEST_MAGIC) (\<lambda>_. dec_bind expect_version (\<lambda>_. dec_bind dec_u16 (\<lambda>flags.
      dec_bind (dec_check (flags = 0) (InvalidFlags flags)) (\<lambda>_.
      dec_bind dec_u32 (\<lambda>tp_rank. dec_bind dec_u32 (\<lambda>pp_rank. dec_bind dec_i32 (\<lambda>device_id.
      dec_bind dec_u32 (\<lambda>instance_len. dec_bind dec_u32 (\<lambda>layer_count. dec_bind (dec_bytes 16) (\<lambda>gen.
      dec_bind (dec_check (gen \<noteq> replicate 16 0) InvalidRegistrationGeneration) (\<lambda>_.
      dec_bind (dec_string instance_len ''instance_id'') (\<lambda>instance_id.
      dec_bind (dec_room layer_count 8) (\<lambda>_. dec_bind (dec_many dec_publish_layer layer_count) (\<lambda>layers.
      dec_bind dec_finish (\<lambda>_. dec_bind (dec_result (validate_publish_layers layers)) (\<lambda>_.
        dec_return \<lparr>pr_instance_id = instance_id, pr_registration_generation = gen, pr_tp_rank = tp_rank,
          pr_pp_rank = pp_rank, pr_device_id = device_id, pr_layers = layers\<rparr>)))))))))))))))))"

section \<open>Cutting a publish request\<close>

datatype channel_error = CacheProtocol cache_protocol_error | PayloadTooLarge nat nat

function chunk_end ::
  "publish_request \<Rightarrow> nat \<Rightarrow> nat \<Rightarrow> nat \<Rightarrow> nat \<Rightarrow> (channel_error + nat) option" where
  "chunk_end r capacity block_count e chunk_len =
     (if e < block_count
      then
        (case block_payload_len r e of
           Inl err \<Rightarrow> Some (Inl (CacheProtocol err))
         | Inr block_len \<Rightarrow>
             (case usub capacity chunk_len of
                None \<Rightarrow> None
              | Some room \<Rightarrow>
                  if block_len > room then Some (Inr e)
                  else chunk_end r capacity block_count (e + 1) (chunk_len + block_len)))
      else Some (Inr e))"
  by pat_completeness auto
termination by (relation "measure (\<lambda>(r, capacity, block_count, e, chunk_len). block_count - e)") auto

declare chunk_end.simps [simp del]

partial_function (option) publish_chunks ::
  "publish_request \<Rightarrow> nat \<Rightarrow> nat \<Rightarrow> nat \<Rightarrow> bytes list \<Rightarrow> (channel_error + bytes list) option" where
  "publish_chunks r capacity block_count start payloads =
     (if start < block_count
      then
        (case publish_encoded_len r (Some (start, start + 1)) of
           Inl err \<Rightarrow> Some (Inl (CacheProtocol err))
         | Inr chunk_len \<Rightarrow>
             if chunk_len > capacity then Some (Inl (PayloadTooLarge chunk_len capacity))
             else do {
               res \<leftarrow> chunk_end r capacity block_count (start + 1) chunk_len;
               case res of
                 Inl err \<Rightarrow> Some (Inl err)
               | Inr fin \<Rightarrow>
                   (case publish_encode_range r (Some (start, fin)) of
                      Inl err \<Rightarrow> Some (Inl (CacheProtocol err))
                    | Inr payload \<Rightarrow> publish_chunks r capacity block_count fin (payloads @ [payload])) })
      else Some (Inr payloads))"

definition publish_payloads :: "publish_request \<Rightarrow> nat \<Rightarrow> (channel_error + bytes list) option" where
  "publish_payloads r capacity =
     (case publish_encoded_len r None of
        Inl err \<Rightarrow> Some (Inl (CacheProtocol err))
      | Inr payload_len \<Rightarrow>
          if payload_len \<le> capacity
          then (case publish_encode r of Inl err \<Rightarrow> Some (Inl (CacheProtocol err)) | Inr p \<Rightarrow> Some (Inr [p]))
          else
            (let block_count = fold max (map (\<lambda>l. length (pl_block_ids l)) (pr_layers r)) 0 in
             if block_count = 0 then Some (Inl (PayloadTooLarge payload_len capacity))
             else publish_chunks r capacity block_count 0 []))"

section \<open>Restore requests are read back\<close>

definition layer_name_wf :: "bytes \<Rightarrow> bool" where
  "layer_name_wf n \<longleftrightarrow> utf8_valid n \<and> length n \<le> u32_max"

definition target_wf :: "nat option \<Rightarrow> bool" where
  "target_wf t \<longleftrightarrow> (case t of None \<Rightarrow> True | Some b \<Rightarrow> b < u32_max)"

interpretation lname: wire_codec hash_bytes dec_layer_name layer_name_wf
  by unfold_locales (simp add: dec_layer_name_def dec_runs hash_bytes_def layer_name_wf_def,
      auto simp: dec_layer_name_def dec_iffs dec_string_iff hash_bytes_def layer_name_wf_def)

interpretation lgroup: wire_codec "counted_bytes hash_bytes" dec_layer_group
  "\<lambda>g. length g \<le> u32_max \<and> list_all layer_name_wf g"
  unfolding dec_layer_group_def by (rule lname.counted) (simp_all add: hash_bytes_def)

interpretation target: wire_codec "\<lambda>t. le_bytes 4 (target_code t)" dec_target target_wf
proof
  show "dec_target (le_bytes 4 (target_code t) @ rest) = Inr (t, rest)" if "target_wf t" for t rest
    using that by (auto simp: dec_target_def target_wf_def target_code_def dec_runs split: option.splits)
  show "target_wf t \<and> bs = le_bytes 4 (target_code t) @ rest" if "dec_target bs = Inr (t, rest)" for bs t rest
    using that by (auto simp: dec_target_def target_wf_def target_code_def dec_iffs)
qed

interpretation targets: wire_codec "counted_bytes (\<lambda>t. le_bytes 4 (target_code t))" dec_targets
  "\<lambda>ts. length ts \<le> u32_max \<and> list_all target_wf ts"
  unfolding dec_targets_def by (rule target.counted) simp_all

definition target_groups_wf :: "nat option list list \<Rightarrow> bool" where
  "target_groups_wf ids \<longleftrightarrow> length ids \<le> u32_max \<and> list_all (\<lambda>ts. length ts \<le> u32_max \<and> list_all target_wf ts) ids"

definition target_groups_bytes :: "nat option list list \<Rightarrow> bytes" where
  "target_groups_bytes = counted_bytes (counted_bytes (\<lambda>t. le_bytes 4 (target_code t)))"

interpretation tgroups: wire_codec target_groups_bytes "dec_counted dec_targets 4" target_groups_wf
  unfolding target_groups_bytes_def target_groups_wf_def [abs_def]
  by (rule targets.counted) (simp_all add: counted_bytes_def)

definition load_wf :: "restore_lease \<Rightarrow> bool" where
  "load_wf l \<longleftrightarrow> rl_lease l \<noteq> [] \<and> hash_wf (rl_lease l) \<and> target_groups_wf (rl_block_ids_by_group l)"

definition load_bytes :: "restore_lease \<Rightarrow> bytes" where
  "load_bytes l = hash_bytes (rl_lease l) @ target_groups_bytes (rl_block_ids_by_group l)"

interpretation load: wire_codec load_bytes dec_load load_wf
  by unfold_locales (simp add: dec_load_def dec_runs load_wf_def load_bytes_def hash_wf_def hash_bytes_def tgroups.dec_enc,
      auto simp: dec_load_def dec_iffs dec_bytes_iff load_wf_def load_bytes_def hash_wf_def hash_bytes_def tgroups.dec_iff)

text \<open>\<open>restore_wf\<close>: the fields have the types of the struct, no lease is empty, and no target is the value that
  stands for no block.\<close>

definition restore_wf :: "restore_request \<Rightarrow> bool" where
  "restore_wf r \<longleftrightarrow> utf8_valid (rr_instance_id r) \<and> rr_tp_rank r \<le> u32_max \<and> i32_range (rr_device_id r) \<and>
     list_all (list_all utf8_valid) (rr_layer_groups r) \<and>
     list_all (\<lambda>l. rl_lease l \<noteq> [] \<and> list_all (list_all target_wf) (rl_block_ids_by_group l)) (rr_loads r)"

definition restore_accepts :: "restore_request \<Rightarrow> bool" where
  "restore_accepts r \<longleftrightarrow> length (rr_instance_id r) \<le> u32_max \<and> length (rr_layer_groups r) \<le> u32_max \<and>
     length (rr_loads r) \<le> u32_max \<and>
     list_all (\<lambda>g. length g \<le> u32_max \<and> list_all hash_wf g) (rr_layer_groups r) \<and>
     list_all (\<lambda>l. hash_wf (rl_lease l) \<and> length (rl_block_ids_by_group l) \<le> u32_max \<and>
       list_all (\<lambda>ts. length ts \<le> u32_max) (rl_block_ids_by_group l)) (rr_loads r)"

definition restore_bytes :: "restore_request \<Rightarrow> bytes" where
  "restore_bytes r = le_bytes 4 RESTORE_REQUEST_MAGIC @ le_bytes 2 CACHE_PROTOCOL_VERSION @ le_bytes 2 0 @
     le_bytes 4 (rr_tp_rank r) @ le_bytes 4 (i32_code (rr_device_id r)) @ le_bytes 4 (length (rr_instance_id r)) @
     le_bytes 4 (length (rr_layer_groups r)) @ le_bytes 4 (length (rr_loads r)) @ rr_instance_id r @
     concat (map (counted_bytes hash_bytes) (rr_layer_groups r)) @ concat (map load_bytes (rr_loads r))"

lemma push_layer_group_iff:
  "push_layer_group out g = Inr out1 \<longleftrightarrow>
     (length g \<le> u32_max \<and> list_all hash_wf g) \<and> out1 = out @ counted_bytes hash_bytes g"
  unfolding push_layer_group_def
  by (subst counted_push_iff [where P = hash_wf and f = hash_bytes]) (auto simp: push_bytes_iff hash_wf_def hash_bytes_def)

lemma push_targets_iff:
  "push_targets out ts = Inr out1 \<longleftrightarrow>
     length ts \<le> u32_max \<and> out1 = out @ counted_bytes (\<lambda>t. le_bytes 4 (target_code t)) ts"
  unfolding push_targets_def
  by (subst counted_push_iff [where P = "\<lambda>_. True" and f = "\<lambda>t. le_bytes 4 (target_code t)"])
    (auto simp: push_u32_def list_all_iff)

lemma push_load_iff:
  "push_load out l = Inr out1 \<longleftrightarrow>
     (hash_wf (rl_lease l) \<and> length (rl_block_ids_by_group l) \<le> u32_max \<and>
      list_all (\<lambda>ts. length ts \<le> u32_max) (rl_block_ids_by_group l)) \<and> out1 = out @ load_bytes l"
  unfolding push_load_def load_bytes_def target_groups_bytes_def rbind_eq_Inr_iff [of "push_bytes out (rl_lease l) ''lease''"]
  by (auto simp: push_bytes_iff counted_push_iff [OF push_targets_iff] hash_wf_def hash_bytes_def)

lemma sum_sizes_concat:
  "(\<Sum>(count, width)\<leftarrow>concat (map f xs). count * width) = (\<Sum>x\<leftarrow>xs. \<Sum>(count, width)\<leftarrow>f x. count * width)"
  by (induction xs) auto

lemma length_concat_map: "length (concat (map f xs)) = (\<Sum>x\<leftarrow>xs. length (f x))"
  by (induction xs) auto

lemma restore_size:
  "RESTORE_HEADER_BYTES + (\<Sum>(count, width)\<leftarrow>restore_sizes r. count * width) = length (restore_bytes r)"
  by (simp add: restore_sizes_def restore_bytes_def RESTORE_HEADER_BYTES_def sum_sizes_concat length_concat_map
      counted_bytes_def hash_bytes_def load_bytes_def target_groups_bytes_def sum_list_addf comp_def
      sum_list_triv del: length_concat)

lemma restore_encode_iff:
  "restore_encode r = Inr bs \<longleftrightarrow> restore_accepts r \<and> length (restore_bytes r) \<le> isize_max \<and> bs = restore_bytes r"
proof -
  have "restore_sizes r \<noteq> []" by (simp add: restore_sizes_def)
  then show ?thesis
    unfolding restore_encode_def restore_accepts_def rbind_eq_Inr_iff add_sizes_iff restore_size checked_u32_iff
      push_each_iff [OF push_layer_group_iff] push_each_iff [OF push_load_iff]
    by (auto simp: restore_bytes_def header_bytes push_u32_def push_i32_def)
qed

lemma restore_parts_wf:
  assumes "restore_wf r" and "restore_accepts r"
  shows "list_all (\<lambda>g. length g \<le> u32_max \<and> list_all layer_name_wf g) (rr_layer_groups r)"
    and "list_all load_wf (rr_loads r)"
  using assms
  by (auto simp: restore_wf_def restore_accepts_def list_all_iff layer_name_wf_def hash_wf_def load_wf_def
      target_groups_wf_def)

lemma restore_decode_enc:
  assumes "restore_wf r" and "restore_accepts r"
  shows "restore_decode (restore_bytes r) = Inr r"
proof -
  note parts = restore_parts_wf [OF assms]
  have m: "RESTORE_REQUEST_MAGIC \<le> u32_max" "0 \<le> u16_max" by (simp_all add: RESTORE_REQUEST_MAGIC_def u32_max_def)
  have room: "dec_room (length (rr_loads r)) 8 (concat (map load_bytes (rr_loads r))) =
      Inr ((), concat (map load_bytes (rr_loads r)))"
    using load.room_enc [OF parts(2) refl, of 8 "[]"]
    by (simp add: load_bytes_def hash_bytes_def target_groups_bytes_def counted_bytes_def)
  have many: "dec_many dec_load (length (rr_loads r)) (concat (map load_bytes (rr_loads r))) = Inr (rr_loads r, [])"
    using load.many_enc [OF parts(2) refl, of "[]"] by simp
  have groom: "dec_room (length (rr_layer_groups r)) 4 (concat (map (counted_bytes hash_bytes) (rr_layer_groups r)) @ rest) =
      Inr ((), concat (map (counted_bytes hash_bytes) (rr_layer_groups r)) @ rest)" for rest
    using lgroup.room_enc [OF parts(1) refl, of 4 rest] by (simp add: counted_bytes_def)
  show ?thesis
    using assms unfolding restore_decode_def restore_bytes_def
    by (simp add: restore_wf_def restore_accepts_def dec_runs m groom lgroup.many_enc [OF parts(1) refl] room many
        dec_finish_def)
qed

lemma restore_decode_sound:
  assumes "restore_decode bs = Inr r"
  shows "restore_wf r \<and> restore_accepts r \<and> bs = restore_bytes r"
  using assms unfolding restore_decode_def
  by (auto simp: dec_iffs dec_string_iff lgroup.many_iff load.many_iff restore_wf_def restore_accepts_def
      restore_bytes_def list_all_iff layer_name_wf_def hash_wf_def load_wf_def target_groups_wf_def dest!: dec_room_D)

lemma restore_codec:
  assumes "length bs \<le> isize_max"
  shows "restore_decode bs = Inr r \<longleftrightarrow> restore_wf r \<and> restore_encode r = Inr bs"
  using assms restore_decode_sound [of bs r] restore_decode_enc [of r] by (auto simp: restore_encode_iff)

section \<open>Publish requests are read back\<close>

definition block_bytes :: "nat \<times> bytes \<Rightarrow> bytes" where
  "block_bytes b = le_bytes 4 (fst b) @ hash_bytes (snd b)"

interpretation block: wire_codec block_bytes dec_block "\<lambda>b. fst b \<le> u32_max \<and> hash_wf (snd b)"
  by unfold_locales (simp add: dec_block_def dec_runs block_bytes_def hash_wf_def hash_bytes_def,
      auto simp: dec_block_def dec_iffs dec_bytes_iff block_bytes_def hash_wf_def hash_bytes_def)

definition layer_blocks :: "publish_layer \<Rightarrow> (nat \<times> bytes) list" where
  "layer_blocks l = zip (pl_block_ids l) (pl_block_hashes l)"

definition publish_layer_bytes :: "publish_layer \<Rightarrow> bytes" where
  "publish_layer_bytes l = le_bytes 4 (length (pl_layer_name l)) @ le_bytes 4 (length (pl_block_ids l)) @ pl_layer_name l @
     concat (map block_bytes (layer_blocks l))"

definition publish_layer_fits :: "publish_layer \<Rightarrow> bool" where
  "publish_layer_fits l \<longleftrightarrow> length (pl_layer_name l) \<le> u32_max \<and> length (pl_block_ids l) \<le> u32_max \<and>
     list_all (\<lambda>b. hash_wf (snd b)) (layer_blocks l)"

definition publish_layer_wf :: "publish_layer \<Rightarrow> bool" where
  "publish_layer_wf l \<longleftrightarrow> utf8_valid (pl_layer_name l) \<and> list_all (\<lambda>i. i \<le> u32_max) (pl_block_ids l) \<and>
     length (pl_block_ids l) = length (pl_block_hashes l)"

lemma layer_blocks_wf:
  "publish_layer_wf l \<Longrightarrow> publish_layer_fits l \<Longrightarrow>
     list_all (\<lambda>b. fst b \<le> u32_max \<and> hash_wf (snd b)) (layer_blocks l)"
  by (auto simp: publish_layer_wf_def publish_layer_fits_def layer_blocks_def list_all_iff dest: set_zip_leftD)

interpretation player: wire_codec publish_layer_bytes dec_publish_layer
  "\<lambda>l. publish_layer_wf l \<and> publish_layer_fits l"
proof
  show "dec_publish_layer (publish_layer_bytes l @ rest) = Inr (l, rest)"
    if "publish_layer_wf l \<and> publish_layer_fits l" for l rest
  proof -
    have b: "list_all (\<lambda>b. fst b \<le> u32_max \<and> hash_wf (snd b)) (layer_blocks l)"
      and n: "length (layer_blocks l) = length (pl_block_ids l)"
      using that layer_blocks_wf [of l] by (auto simp: layer_blocks_def publish_layer_wf_def)
    have room: "dec_room (length (pl_block_ids l)) 8 (concat (map block_bytes (layer_blocks l)) @ rest) =
        Inr ((), concat (map block_bytes (layer_blocks l)) @ rest)"
      using block.room_enc [OF b n] by (simp add: block_bytes_def hash_bytes_def)
    have fit: "utf8_valid (pl_layer_name l)" "length (pl_layer_name l) \<le> u32_max" "length (pl_block_ids l) \<le> u32_max"
      and parts: "map fst (layer_blocks l) = pl_block_ids l" "map snd (layer_blocks l) = pl_block_hashes l"
      using that by (simp_all add: publish_layer_wf_def publish_layer_fits_def layer_blocks_def)
    show ?thesis
      by (simp add: dec_publish_layer_def publish_layer_bytes_def dec_runs fit room block.many_enc [OF b n] parts)
  qed
  show "(publish_layer_wf l \<and> publish_layer_fits l) \<and> bs = publish_layer_bytes l @ rest"
    if "dec_publish_layer bs = Inr (l, rest)" for bs l rest
    using that
    by (auto simp: dec_publish_layer_def dec_iffs dec_string_iff block.many_iff publish_layer_bytes_def layer_blocks_def
        publish_layer_wf_def publish_layer_fits_def zip_map_fst_snd list_all_iff dest!: dec_room_D)
qed

text \<open>The part of a request that a range selects.\<close>

definition layer_restrict :: "(nat \<times> nat) option \<Rightarrow> publish_layer \<Rightarrow> publish_layer option" where
  "layer_restrict rng l =
     map_option (\<lambda>sel. l\<lparr>pl_block_ids := block_slice sel (pl_block_ids l), pl_block_hashes := block_slice sel (pl_block_hashes l)\<rparr>)
       (publish_selected rng l)"

definition publish_restrict :: "publish_request \<Rightarrow> (nat \<times> nat) option \<Rightarrow> publish_request" where
  "publish_restrict r rng = r\<lparr>pr_layers := List.map_filter (layer_restrict rng) (pr_layers r)\<rparr>"

definition publish_bytes :: "publish_request \<Rightarrow> bytes" where
  "publish_bytes r = le_bytes 4 PUBLISH_REQUEST_MAGIC @ le_bytes 2 CACHE_PROTOCOL_VERSION @ le_bytes 2 0 @
     le_bytes 4 (pr_tp_rank r) @ le_bytes 4 (pr_pp_rank r) @ le_bytes 4 (i32_code (pr_device_id r)) @
     le_bytes 4 (length (pr_instance_id r)) @ le_bytes 4 (length (pr_layers r)) @ pr_registration_generation r @
     pr_instance_id r @ concat (map publish_layer_bytes (pr_layers r))"

definition layer_part_bytes :: "(nat \<times> nat) option \<Rightarrow> publish_layer \<Rightarrow> bytes" where
  "layer_part_bytes rng l = (case layer_restrict rng l of None \<Rightarrow> [] | Some k \<Rightarrow> publish_layer_bytes k)"

definition layer_part_fits :: "(nat \<times> nat) option \<Rightarrow> publish_layer \<Rightarrow> bool" where
  "layer_part_fits rng l = (case layer_restrict rng l of None \<Rightarrow> True | Some k \<Rightarrow> publish_layer_fits k)"

lemma concat_layer_parts:
  "concat (map (layer_part_bytes rng) ls) = concat (map publish_layer_bytes (List.map_filter (layer_restrict rng) ls))"
  by (induction ls) (auto simp: layer_part_bytes_def List.map_filter_def split: option.splits)

lemma list_all_layer_parts:
  "list_all (layer_part_fits rng) ls \<longleftrightarrow> list_all publish_layer_fits (List.map_filter (layer_restrict rng) ls)"
  by (induction ls) (auto simp: layer_part_fits_def List.map_filter_def split: option.splits)

lemma selected_bounds: "publish_selected rng l = Some sel \<Longrightarrow> fst sel \<le> snd sel \<and> snd sel \<le> length (pl_block_ids l)"
  by (auto simp: publish_selected_def Let_def min_def split: option.splits if_splits)

lemma length_block_slice: "fst sel \<le> snd sel \<Longrightarrow> snd sel \<le> length xs \<Longrightarrow> length (block_slice sel xs) = snd sel - fst sel"
  by (simp add: block_slice_def)

lemma push_publish_layer_iff:
  "push_publish_layer rng out l = Inr out1 \<longleftrightarrow> layer_part_fits rng l \<and> out1 = out @ layer_part_bytes rng l"
proof (cases "publish_selected rng l")
  case (Some sel)
  have n: "snd sel - fst sel = length (block_slice sel (pl_block_ids l))"
    using selected_bounds [OF Some] by (simp add: length_block_slice)
  have "push_each push_block out2 bs = Inr out1 \<longleftrightarrow>
      list_all (\<lambda>b. hash_wf (snd b)) bs \<and> out1 = out2 @ concat (map block_bytes bs)" for out2 bs
    by (rule push_each_iff)
      (auto simp: push_block_def push_bytes_iff push_u32_def block_bytes_def hash_bytes_def hash_wf_def)
  then show ?thesis
    by (auto simp: push_publish_layer_def Some n rbind_eq_Inr_iff checked_u32_iff layer_part_fits_def layer_part_bytes_def
        layer_restrict_def publish_layer_fits_def publish_layer_bytes_def layer_blocks_def push_u32_def)
qed (auto simp: push_publish_layer_def layer_part_fits_def layer_part_bytes_def layer_restrict_def)

lemma layer_count:
  "length (filter (\<lambda>l. case rng of None \<Rightarrow> True | Some (s, e) \<Rightarrow> s < min e (length (pl_block_ids l))) ls) =
     length (List.map_filter (layer_restrict rng) ls)"
proof (induction ls)
  case (Cons l ls)
  have "(case rng of None \<Rightarrow> True | Some (s, e) \<Rightarrow> s < min e (length (pl_block_ids l))) \<longleftrightarrow> layer_restrict rng l \<noteq> None"
    by (auto simp: layer_restrict_def publish_selected_def Let_def split: option.splits)
  then show ?case using Cons by (auto simp: List.map_filter_def)
qed (simp add: List.map_filter_def)

lemma hashes_len_iff:
  "n \<le> isize_max \<Longrightarrow>
   hashes_len n hs = Inr m \<longleftrightarrow> list_all hash_wf hs \<and> m = n + sum_list (map length hs) \<and> m \<le> isize_max"
proof (induction hs arbitrary: n)
  case (Cons h hs)
  have "hashes_len n (h # hs) = Inr m \<longleftrightarrow> hash_wf h \<and> n + length h \<le> isize_max \<and> hashes_len (n + length h) hs = Inr m"
    by (auto simp: rbind_eq_Inr_iff checked_u32_iff add_encoded_size_iff hash_wf_def)
  then show ?case using Cons.IH [of "n + length h"] by auto
qed auto

lemma length_blocks:
  "length ids = length hs \<Longrightarrow>
   length (concat (map block_bytes (zip ids hs))) = 8 * length ids + sum_list (map length hs)"
  by (induction ids hs rule: list_induct2) (auto simp: block_bytes_def hash_bytes_def)

lemma list_all_zip_snd: "length xs = length ys \<Longrightarrow> list_all (\<lambda>b. P (snd b)) (zip xs ys) = list_all P ys"
  by (induction xs ys rule: list_induct2) auto

lemma layers_len_iff:
  assumes "n \<le> isize_max" and "list_all (\<lambda>l. length (pl_block_ids l) = length (pl_block_hashes l)) ls"
  shows "layers_len rng n ls = Inr m \<longleftrightarrow>
    list_all (layer_part_fits rng) ls \<and> m = n + length (concat (map (layer_part_bytes rng) ls)) \<and> m \<le> isize_max"
  using assms
proof (induction ls arbitrary: n)
  case (Cons l ls)
  show ?case
  proof (cases "publish_selected rng l")
    case None
    then show ?thesis using Cons by (simp add: layer_part_fits_def layer_part_bytes_def layer_restrict_def)
  next
    case (Some sel)
    let ?ids = "block_slice sel (pl_block_ids l)" and ?hs = "block_slice sel (pl_block_hashes l)"
    have len: "length ?ids = snd sel - fst sel" "length ?hs = snd sel - fst sel"
      using selected_bounds [OF Some] Cons.prems(2) by (simp_all add: length_block_slice)
    then have zip: "list_all (\<lambda>b. hash_wf (snd b)) (zip ?ids ?hs) = list_all hash_wf ?hs"
      by (intro list_all_zip_snd) simp
    have bytes: "length (layer_part_bytes rng l) = 8 + length (pl_layer_name l) + 8 * length ?ids + sum_list (map length ?hs)"
      using len by (simp add: layer_part_bytes_def layer_restrict_def Some publish_layer_bytes_def layer_blocks_def
          length_blocks del: length_concat)
    have "layers_len rng n (l # ls) = Inr m \<longleftrightarrow>
        layer_part_fits rng l \<and> n + length (layer_part_bytes rng l) \<le> isize_max \<and>
        layers_len rng (n + length (layer_part_bytes rng l)) ls = Inr m"
      using zip by (auto simp: Some rbind_eq_Inr_iff checked_u32_iff add_sizes_iff hashes_len_iff layer_part_fits_def
          layer_restrict_def publish_layer_fits_def layer_blocks_def bytes len algebra_simps simp del: add_sizes.simps)
    then show ?thesis
      using Cons.IH [of "n + length (layer_part_bytes rng l)"] Cons.prems(2) by (auto simp del: layers_len.simps length_concat)
  qed
qed auto

lemma validate_publish_layers_iff:
  "validate_publish_layers ls = Inr () \<longleftrightarrow> list_all (\<lambda>l. length (pl_block_ids l) = length (pl_block_hashes l)) ls"
  by (induction ls)
    (auto simp: validate_publish_layers_def validate_publish_layer_def rbind_eq_Inr_iff split: if_splits)

definition publish_accepts :: "publish_request \<Rightarrow> (nat \<times> nat) option \<Rightarrow> bool" where
  "publish_accepts r rng \<longleftrightarrow> pr_registration_generation r \<noteq> replicate 16 0 \<and>
     list_all (\<lambda>l. length (pl_block_ids l) = length (pl_block_hashes l)) (pr_layers r) \<and>
     length (pr_instance_id r) \<le> u32_max \<and> length (pr_layers r) \<le> u32_max \<and>
     list_all publish_layer_fits (pr_layers (publish_restrict r rng))"

definition publish_wf :: "publish_request \<Rightarrow> bool" where
  "publish_wf r \<longleftrightarrow> utf8_valid (pr_instance_id r) \<and> length (pr_registration_generation r) = 16 \<and>
     pr_tp_rank r \<le> u32_max \<and> pr_pp_rank r \<le> u32_max \<and> i32_range (pr_device_id r) \<and>
     list_all (\<lambda>l. utf8_valid (pl_layer_name l) \<and> list_all (\<lambda>i. i \<le> u32_max) (pl_block_ids l)) (pr_layers r)"

lemma publish_encoded_len_iff:
  assumes "length (pr_registration_generation r) = 16"
  shows "publish_encoded_len r rng = Inr n \<longleftrightarrow>
    publish_accepts r rng \<and> n = length (publish_bytes (publish_restrict r rng)) \<and> n \<le> isize_max"
proof -
  let ?start = "PUBLISH_HEADER_BYTES + length (pr_instance_id r)"
  have n: "length (publish_bytes (publish_restrict r rng)) =
      ?start + length (concat (map (layer_part_bytes rng) (pr_layers r)))"
    using assms by (simp add: publish_bytes_def publish_restrict_def PUBLISH_HEADER_BYTES_def concat_layer_parts
        del: length_concat)
  have "publish_encoded_len r rng = Inr n \<longleftrightarrow> pr_registration_generation r \<noteq> replicate 16 0 \<and>
      list_all (\<lambda>l. length (pl_block_ids l) = length (pl_block_hashes l)) (pr_layers r) \<and>
      length (pr_instance_id r) \<le> u32_max \<and> length (pr_layers r) \<le> u32_max \<and> ?start \<le> isize_max \<and>
      layers_len rng ?start (pr_layers r) = Inr n"
    by (auto simp: publish_encoded_len_def rbind_eq_Inr_iff checked_u32_iff add_encoded_size_iff
        validate_publish_layers_iff)
  then show ?thesis unfolding n
    using layers_len_iff [of ?start "pr_layers r" rng n]
    by (auto simp: publish_accepts_def publish_restrict_def list_all_layer_parts simp del: length_concat)
qed

lemma publish_encode_range_iff:
  assumes "length (pr_registration_generation r) = 16"
  shows "publish_encode_range r rng = Inr bs \<longleftrightarrow>
    publish_accepts r rng \<and> bs = publish_bytes (publish_restrict r rng) \<and> length bs \<le> isize_max"
proof -
  have fewer: "length (List.map_filter (layer_restrict rng) (pr_layers r)) \<le> length (pr_layers r)"
    by (simp add: layer_count [symmetric])
  show ?thesis
    unfolding publish_encode_range_def rbind_eq_Inr_iff publish_encoded_len_iff [OF assms] checked_u32_iff layer_count
      push_each_iff [OF push_publish_layer_iff] list_all_layer_parts concat_layer_parts
    using fewer
    by (auto simp: publish_bytes_def publish_restrict_def publish_accepts_def header_bytes push_u32_def push_i32_def
        simp del: length_concat)
qed

lemma publish_decode_enc:
  assumes wf: "publish_wf r" and "pr_registration_generation r \<noteq> replicate 16 0"
    and eq: "list_all (\<lambda>l. length (pl_block_ids l) = length (pl_block_hashes l)) (pr_layers r)"
    and lens: "length (pr_instance_id r) \<le> u32_max" "length (pr_layers r) \<le> u32_max"
    and fits: "list_all publish_layer_fits (pr_layers r)"
  shows "publish_decode (publish_bytes r) = Inr r"
proof -
  have layers: "list_all (\<lambda>l. publish_layer_wf l \<and> publish_layer_fits l) (pr_layers r)"
    using wf eq fits by (simp add: publish_wf_def publish_layer_wf_def list_all_iff)
  have m: "PUBLISH_REQUEST_MAGIC \<le> u32_max" by (simp add: PUBLISH_REQUEST_MAGIC_def u32_max_def)
  have room: "dec_room (length (pr_layers r)) 8 (concat (map publish_layer_bytes (pr_layers r))) =
      Inr ((), concat (map publish_layer_bytes (pr_layers r)))"
    using player.room_enc [OF layers refl, of 8 "[]"] by (simp add: publish_layer_bytes_def)
  have many: "dec_many dec_publish_layer (length (pr_layers r)) (concat (map publish_layer_bytes (pr_layers r))) =
      Inr (pr_layers r, [])"
    using player.many_enc [OF layers refl, of "[]"] by simp
  have v: "validate_publish_layers (pr_layers r) = Inr ()" using eq by (simp add: validate_publish_layers_iff)
  show ?thesis
    using assms(1,2) lens unfolding publish_decode_def publish_bytes_def
    by (simp add: publish_wf_def dec_runs m room many v dec_finish_def)
qed

lemma layer_restrict_None:
  "length (pl_block_ids l) = length (pl_block_hashes l) \<Longrightarrow> layer_restrict None l = Some l"
  by (simp add: layer_restrict_def publish_selected_def block_slice_def)

lemma publish_restrict_None:
  assumes "list_all (\<lambda>l. length (pl_block_ids l) = length (pl_block_hashes l)) (pr_layers r)"
  shows "publish_restrict r None = r"
proof -
  have "List.map_filter (layer_restrict None) ls = ls"
    if "list_all (\<lambda>l. length (pl_block_ids l) = length (pl_block_hashes l)) ls" for ls
    using that by (induction ls) (auto simp: List.map_filter_def layer_restrict_None)
  then show ?thesis using assms by (simp add: publish_restrict_def)
qed

lemma layer_restrict_parts:
  assumes "layer_restrict rng l = Some k"
  obtains sel where "pl_block_ids k = block_slice sel (pl_block_ids l)" "pl_block_hashes k = block_slice sel (pl_block_hashes l)"
    "pl_layer_name k = pl_layer_name l"
  using assms by (auto simp: layer_restrict_def)

lemma set_block_slice: "set (block_slice sel xs) \<subseteq> set xs"
  unfolding block_slice_def using set_take_subset set_drop_subset by (metis order_trans)

lemma restricted_layer:
  assumes "k \<in> set (pr_layers (publish_restrict r rng))"
  obtains l where "l \<in> set (pr_layers r)" "layer_restrict rng l = Some k"
  using assms by (auto simp: publish_restrict_def List.map_filter_def)

lemma publish_restrict_wf:
  assumes "publish_wf r"
  shows "publish_wf (publish_restrict r rng)"
proof -
  have "utf8_valid (pl_layer_name k) \<and> list_all (\<lambda>i. i \<le> u32_max) (pl_block_ids k)"
    if k: "k \<in> set (pr_layers (publish_restrict r rng))" for k
  proof -
    obtain l where l: "l \<in> set (pr_layers r)" "layer_restrict rng l = Some k" using k by (rule restricted_layer)
    obtain sel where "pl_block_ids k = block_slice sel (pl_block_ids l)" "pl_layer_name k = pl_layer_name l"
      using l(2) by (rule layer_restrict_parts)
    then show ?thesis using assms l(1) set_block_slice [of sel "pl_block_ids l"]
      by (auto simp: publish_wf_def list_all_iff)
  qed
  then show ?thesis using assms by (simp add: publish_wf_def list_all_iff publish_restrict_def)
qed

lemma publish_restrict_lengths:
  assumes "list_all (\<lambda>l. length (pl_block_ids l) = length (pl_block_hashes l)) (pr_layers r)"
  shows "list_all (\<lambda>l. length (pl_block_ids l) = length (pl_block_hashes l)) (pr_layers (publish_restrict r rng))"
  unfolding list_all_iff
proof
  fix k assume "k \<in> set (pr_layers (publish_restrict r rng))"
  then obtain l where l: "l \<in> set (pr_layers r)" "layer_restrict rng l = Some k" by (rule restricted_layer)
  obtain sel where "pl_block_ids k = block_slice sel (pl_block_ids l)" "pl_block_hashes k = block_slice sel (pl_block_hashes l)"
    using l(2) by (rule layer_restrict_parts)
  then show "length (pl_block_ids k) = length (pl_block_hashes k)"
    using assms l(1) by (simp add: list_all_iff block_slice_def)
qed

lemma publish_range_decodes:
  assumes "publish_wf r" and "publish_encode_range r rng = Inr bs"
  shows "publish_decode bs = Inr (publish_restrict r rng)"
proof -
  have g: "length (pr_registration_generation r) = 16" using assms(1) by (simp add: publish_wf_def)
  have a: "publish_accepts r rng" "bs = publish_bytes (publish_restrict r rng)"
    using assms(2) by (simp_all add: publish_encode_range_iff [OF g])
  have "length (pr_layers (publish_restrict r rng)) \<le> length (pr_layers r)"
    by (simp add: publish_restrict_def layer_count [symmetric])
  then show ?thesis
    using a publish_restrict_wf [OF assms(1)] publish_restrict_lengths [of r rng]
    by (intro publish_decode_enc [of "publish_restrict r rng", folded a(2)])
      (simp_all add: publish_accepts_def publish_restrict_def)
qed

lemma publish_codec:
  assumes "length bs \<le> isize_max"
  shows "publish_decode bs = Inr r \<longleftrightarrow> publish_wf r \<and> publish_encode r = Inr bs"
proof
  assume "publish_decode bs = Inr r"
  then have *: "publish_wf r \<and> publish_accepts r None \<and> bs = publish_bytes r"
    unfolding publish_decode_def
    by (auto simp: dec_iffs dec_string_iff dec_bytes_iff player.many_iff publish_wf_def publish_accepts_def publish_bytes_def
        list_all_iff publish_layer_wf_def publish_restrict_None dest!: dec_room_D)
  then have "publish_restrict r None = r" by (intro publish_restrict_None) (simp add: publish_accepts_def)
  then show "publish_wf r \<and> publish_encode r = Inr bs"
    using * assms publish_encode_range_iff [of r None bs] by (simp add: publish_encode_def publish_wf_def)
next
  assume r: "publish_wf r \<and> publish_encode r = Inr bs"
  then have "publish_accepts r None" using publish_encode_range_iff [of r None bs] by (simp add: publish_encode_def publish_wf_def)
  then have "publish_restrict r None = r" by (intro publish_restrict_None) (simp add: publish_accepts_def)
  then show "publish_decode bs = Inr r" using r publish_range_decodes [of r None bs] by (simp add: publish_encode_def)
qed

section \<open>Cutting a request loses no block\<close>

definition layer_part :: "publish_layer \<Rightarrow> (nat \<times> nat) option \<Rightarrow> (nat \<times> bytes) list" where
  "layer_part l rng = (case layer_restrict rng l of None \<Rightarrow> [] | Some k \<Rightarrow> layer_blocks k)"

fun consecutive :: "nat \<Rightarrow> (nat \<times> nat) list \<Rightarrow> nat \<Rightarrow> bool" where
  "consecutive s [] fin = (s = fin)"
| "consecutive s ((a, b) # rest) fin = (a = s \<and> s < b \<and> consecutive b rest fin)"

lemma block_slice_Suc:
  "s < e \<Longrightarrow> e < length xs \<Longrightarrow> block_slice (s, Suc e) xs = block_slice (s, e) xs @ [xs ! e]"
  by (simp add: block_slice_def Suc_diff_le take_Suc_conv_app_nth)

lemma part_grows:
  assumes "s < e" and eq: "length (pl_block_ids l) = length (pl_block_hashes l)"
  shows "length (layer_part_bytes (Some (s, Suc e)) l) = length (layer_part_bytes (Some (s, e)) l) +
    (if e < length (pl_block_hashes l) then 8 + length (pl_block_hashes l ! e) else 0)"
proof (cases "s < length (pl_block_ids l)")
  case True
  let ?n = "length (pl_block_ids l)"
  have len: "length (layer_part_bytes (Some (s, x)) l) = 8 + length (pl_layer_name l) +
      8 * (min x ?n - s) + sum_list (map length (block_slice (s, min x ?n) (pl_block_hashes l)))" if "s < x" for x
  proof -
    have "length (block_slice (s, min x ?n) (pl_block_ids l)) = length (block_slice (s, min x ?n) (pl_block_hashes l))"
      "length (block_slice (s, min x ?n) (pl_block_ids l)) = min x ?n - s"
      using eq by (simp_all add: block_slice_def)
    moreover have "publish_selected (Some (s, x)) l = Some (s, min x ?n)"
      using that True by (simp add: publish_selected_def Let_def)
    ultimately show ?thesis
      by (simp add: layer_part_bytes_def layer_restrict_def publish_layer_bytes_def layer_blocks_def length_blocks
          del: length_concat)
  qed
  show ?thesis
  proof (cases "e < ?n")
    case e: True
    then have "min (Suc e) ?n = Suc e" "min e ?n = e" by simp_all
    then show ?thesis using len [of "Suc e"] len [of e] assms e block_slice_Suc [of s e "pl_block_hashes l"] by simp
  next
    case False
    then show ?thesis using len [of "Suc e"] len [of e] assms by simp
  qed
next
  case False
  then show ?thesis using assms by (simp add: layer_part_bytes_def layer_restrict_def publish_selected_def Let_def)
qed

lemma parts_mono:
  assumes "s < e" and "list_all (\<lambda>l. length (pl_block_ids l) = length (pl_block_hashes l)) ls"
  shows "length (concat (map (layer_part_bytes (Some (s, e))) ls)) \<le> length (concat (map (layer_part_bytes (Some (s, Suc e))) ls))"
  using assms by (induction ls) (auto simp: part_grows)

lemma layers_block_len_iff:
  assumes "s < e" and "list_all (\<lambda>l. length (pl_block_ids l) = length (pl_block_hashes l)) ls"
    and "n + length (concat (map (layer_part_bytes (Some (s, Suc e))) ls)) \<le> isize_max + length (concat (map (layer_part_bytes (Some (s, e))) ls))"
    and "n \<le> isize_max"
  shows "layers_block_len e n ls = Inr (n + length (concat (map (layer_part_bytes (Some (s, Suc e))) ls))
    - length (concat (map (layer_part_bytes (Some (s, e))) ls)))"
  using assms
proof (induction ls arbitrary: n)
  case (Cons l ls)
  let ?add = "if e < length (pl_block_hashes l) then 8 + length (pl_block_hashes l ! e) else 0"
  have grow: "length (layer_part_bytes (Some (s, Suc e)) l) = length (layer_part_bytes (Some (s, e)) l) + ?add"
    using Cons.prems part_grows by simp
  have mono: "length (concat (map (layer_part_bytes (Some (s, e))) ls)) \<le>
      length (concat (map (layer_part_bytes (Some (s, Suc e))) ls))"
    using Cons.prems(1,2) by (intro parts_mono) simp_all
  have "layers_block_len e n (l # ls) = layers_block_len e (n + ?add) ls"
  proof (cases "e < length (pl_block_hashes l)")
    case True
    have "n + ?add \<le> isize_max" using Cons.prems(3) grow mono True by (simp del: length_concat)
    then have "add_sizes n [(1, 8), (length (pl_block_hashes l ! e), 1)] = Inr (n + ?add)"
      using True by (simp add: add_sizes_iff del: add_sizes.simps)
    then show ?thesis using True by simp
  qed simp
  moreover have "layers_block_len e (n + ?add) ls = Inr (n + ?add +
      length (concat (map (layer_part_bytes (Some (s, Suc e))) ls)) - length (concat (map (layer_part_bytes (Some (s, e))) ls)))"
    using Cons.prems grow mono by (intro Cons.IH) (simp_all del: length_concat)
  ultimately show ?case using grow by (simp del: length_concat layers_block_len.simps)
qed simp

text \<open>Sub-ranges of an encodable request are encodable.\<close>

lemma length_slice_le: "length (concat (map f (block_slice sel xs))) \<le> length (concat (map f xs))"
proof -
  have "xs = take (fst sel) xs @ block_slice sel xs @ drop (snd sel - fst sel) (drop (fst sel) xs)"
    unfolding block_slice_def by (metis append_take_drop_id)
  then have "length (concat (map f xs)) =
      length (concat (map f (take (fst sel) xs @ block_slice sel xs @ drop (snd sel - fst sel) (drop (fst sel) xs))))"
    by simp
  then show ?thesis by (simp del: length_concat)
qed

lemma layer_restrict_blocks:
  assumes "layer_restrict rng l = Some k"
  obtains sel where "layer_blocks k = block_slice sel (layer_blocks l)" "pl_layer_name k = pl_layer_name l"
    "length (pl_block_ids k) \<le> length (pl_block_ids l)"
proof -
  obtain sel where k: "k = l\<lparr>pl_block_ids := block_slice sel (pl_block_ids l),
      pl_block_hashes := block_slice sel (pl_block_hashes l)\<rparr>"
    using assms by (auto simp: layer_restrict_def)
  have "layer_blocks k = block_slice sel (layer_blocks l)"
    by (simp add: k layer_blocks_def block_slice_def take_zip drop_zip)
  then show ?thesis using that [of sel] k by (simp add: block_slice_def)
qed

lemma part_fits_of_whole:
  assumes "publish_layer_fits l"
  shows "layer_part_fits rng l" and "length (layer_part_bytes rng l) \<le> length (publish_layer_bytes l)"
proof (atomize (full), cases "layer_restrict rng l")
  case (Some k)
  obtain sel where k: "layer_blocks k = block_slice sel (layer_blocks l)" "pl_layer_name k = pl_layer_name l"
    "length (pl_block_ids k) \<le> length (pl_block_ids l)"
    using Some by (rule layer_restrict_blocks)
  have "set (layer_blocks k) \<subseteq> set (layer_blocks l)" using set_block_slice k(1) by metis
  then have "publish_layer_fits k" using assms k by (auto simp: publish_layer_fits_def list_all_iff)
  moreover have "length (publish_layer_bytes k) \<le> length (publish_layer_bytes l)"
    using k length_slice_le [of block_bytes sel "layer_blocks l"] by (simp add: publish_layer_bytes_def del: length_concat)
  ultimately show "layer_part_fits rng l \<and> length (layer_part_bytes rng l) \<le> length (publish_layer_bytes l)"
    by (simp add: layer_part_fits_def layer_part_bytes_def Some)
qed (simp add: layer_part_fits_def layer_part_bytes_def)

lemma accepts_range:
  assumes g: "length (pr_registration_generation r) = 16" and "publish_accepts r None" and "length (publish_bytes r) \<le> isize_max"
  shows "publish_accepts r rng" and "length (publish_bytes (publish_restrict r rng)) \<le> isize_max"
proof -
  have eq: "publish_restrict r None = r" using assms(2) by (intro publish_restrict_None) (simp add: publish_accepts_def)
  then have fits: "list_all publish_layer_fits (pr_layers r)" using assms(2) by (simp add: publish_accepts_def)
  then show "publish_accepts r rng"
    using assms(2) part_fits_of_whole(1) list_all_layer_parts [of rng "pr_layers r"]
    by (auto simp: publish_accepts_def publish_restrict_def list_all_iff)
  have "length (concat (map (layer_part_bytes rng) ls)) \<le> length (concat (map publish_layer_bytes ls))"
    if "list_all publish_layer_fits ls" for ls
    using that
  proof (induction ls)
    case (Cons l ls)
    then show ?case using part_fits_of_whole(2) [of l rng] by (simp add: add_mono)
  qed simp
  from this [OF fits] have "length (publish_bytes (publish_restrict r rng)) \<le> length (publish_bytes r)"
    by (simp add: publish_bytes_def publish_restrict_def concat_layer_parts del: length_concat)
  then show "length (publish_bytes (publish_restrict r rng)) \<le> isize_max" using assms(3) by linarith
qed

lemma range_bytes_length:
  assumes "length (pr_registration_generation r) = 16"
  shows "length (publish_bytes (publish_restrict r rng)) =
    PUBLISH_HEADER_BYTES + length (pr_instance_id r) + length (concat (map (layer_part_bytes rng) (pr_layers r)))"
  using assms by (simp add: publish_bytes_def publish_restrict_def PUBLISH_HEADER_BYTES_def concat_layer_parts
      del: length_concat)

text \<open>The running length of a chunk is the length of its encoding.\<close>

lemma chunk_grows:
  assumes g: "length (pr_registration_generation r) = 16" and a: "publish_accepts r None"
    and "length (publish_bytes r) \<le> isize_max" and "s < e"
  shows "\<exists>n. block_payload_len r e = Inr n \<and>
    length (publish_bytes (publish_restrict r (Some (s, Suc e)))) = length (publish_bytes (publish_restrict r (Some (s, e)))) + n"
proof -
  let ?L = "\<lambda>x. length (concat (map (layer_part_bytes (Some (s, x))) (pr_layers r)))"
  have eq: "list_all (\<lambda>l. length (pl_block_ids l) = length (pl_block_hashes l)) (pr_layers r)"
    using a by (simp add: publish_accepts_def)
  have small: "?L (Suc e) \<le> isize_max"
    using accepts_range(2) [OF g a assms(3), of "Some (s, Suc e)"] range_bytes_length [OF g, of "Some (s, Suc e)"] by linarith
  have "?L e \<le> ?L (Suc e)" using parts_mono [OF \<open>s < e\<close> eq] .
  then show ?thesis
    using layers_block_len_iff [OF \<open>s < e\<close> eq, of 0] small range_bytes_length [OF g]
    by (intro exI [of _ "?L (Suc e) - ?L e"]) (simp add: block_payload_len_def del: length_concat)
qed

lemma chunk_end_ok:
  assumes g: "length (pr_registration_generation r) = 16" and a: "publish_accepts r None"
    and small: "length (publish_bytes r) \<le> isize_max" and "s < e" "e \<le> block_count"
    and "chunk_len = length (publish_bytes (publish_restrict r (Some (s, e))))" and "chunk_len \<le> capacity"
  shows "\<exists>fin. chunk_end r capacity block_count e chunk_len = Some (Inr fin) \<and> e \<le> fin \<and> fin \<le> block_count \<and>
    length (publish_bytes (publish_restrict r (Some (s, fin)))) \<le> capacity"
  using assms(4-)
proof (induction "block_count - e" arbitrary: e chunk_len)
  case 0
  then show ?case by (subst chunk_end.simps) simp
next
  case (Suc k)
  obtain n where n: "block_payload_len r e = Inr n"
    "length (publish_bytes (publish_restrict r (Some (s, Suc e)))) = chunk_len + n"
    using chunk_grows [OF g a small Suc.prems(1)] Suc.prems(3) by auto
  show ?case
  proof (cases "n > capacity - chunk_len")
    case True
    then show ?thesis using Suc.hyps(2) Suc.prems n by (subst chunk_end.simps) (auto simp: usub_def)
  next
    case False
    then have "\<exists>fin. chunk_end r capacity block_count (Suc e) (chunk_len + n) = Some (Inr fin) \<and> Suc e \<le> fin \<and>
        fin \<le> block_count \<and> length (publish_bytes (publish_restrict r (Some (s, fin)))) \<le> capacity"
      using Suc.hyps(2) Suc.prems n by (intro Suc.hyps(1)) auto
    then show ?thesis using False Suc.hyps(2) Suc.prems n by (subst chunk_end.simps) (auto simp: usub_def)
  qed
qed

definition cut_into :: "publish_request \<Rightarrow> nat \<Rightarrow> bytes list \<Rightarrow> (nat \<times> nat) list \<Rightarrow> bool" where
  "cut_into r capacity ps rs \<longleftrightarrow>
     list_all2 (\<lambda>p rng. publish_encode_range r (Some rng) = Inr p \<and> length p \<le> capacity) ps rs"

lemma publish_chunks_ok:
  assumes g: "length (pr_registration_generation r) = 16" and a: "publish_accepts r None"
    and small: "length (publish_bytes r) \<le> isize_max" and "start \<le> block_count"
    and "cut_into r capacity payloads done_ranges" and "consecutive 0 done_ranges start"
  shows "\<exists>res. publish_chunks r capacity block_count start payloads = Some res \<and>
    (case res of
       Inl err \<Rightarrow> \<exists>i < block_count. length (publish_bytes (publish_restrict r (Some (i, Suc i)))) > capacity
     | Inr ps \<Rightarrow> \<exists>rs. cut_into r capacity ps rs \<and> consecutive 0 rs block_count)"
  using assms(4-)
proof (induction "block_count - start" arbitrary: start payloads done_ranges rule: less_induct)
  case less
  show ?case
  proof (cases "start < block_count")
    case False
    then show ?thesis using less.prems by (subst publish_chunks.simps) auto
  next
    case start: True
    let ?n = "length (publish_bytes (publish_restrict r (Some (start, Suc start))))"
    have len: "publish_encoded_len r (Some (start, Suc start)) = Inr ?n"
      using accepts_range [OF g a small] publish_encoded_len_iff [OF g] by blast
    show ?thesis
    proof (cases "?n > capacity")
      case True
      then show ?thesis using start len by (subst publish_chunks.simps) auto
    next
      case False
      then obtain fin where fin: "chunk_end r capacity block_count (Suc start) ?n = Some (Inr fin)" "Suc start \<le> fin"
        "fin \<le> block_count" "length (publish_bytes (publish_restrict r (Some (start, fin)))) \<le> capacity"
        using chunk_end_ok [OF g a small, of start "Suc start" block_count ?n capacity] start by auto
      let ?p = "publish_bytes (publish_restrict r (Some (start, fin)))"
      have enc: "publish_encode_range r (Some (start, fin)) = Inr ?p"
        using accepts_range [OF g a small] publish_encode_range_iff [OF g] by blast
      have step: "publish_chunks r capacity block_count start payloads =
          publish_chunks r capacity block_count fin (payloads @ [?p])"
        using False start len fin(1) enc by (subst publish_chunks.simps) simp
      have "cut_into r capacity (payloads @ [?p]) (done_ranges @ [(start, fin)])"
        using less.prems(2) enc fin(4) by (simp add: cut_into_def list_all2_appendI)
      moreover have "consecutive 0 (done_ranges @ [(start, fin)]) fin"
      proof -
        have "consecutive a rs start \<Longrightarrow> consecutive a (rs @ [(start, fin)]) fin" for a rs
          using fin(2) by (induction a rs start rule: consecutive.induct) auto
        then show ?thesis using less.prems(3) by blast
      qed
      ultimately show ?thesis unfolding step using fin(2,3) start by (intro less.hyps) auto
    qed
  qed
qed

lemma slice_min: "length xs = n \<Longrightarrow> take (min e n - s) (drop s xs) = take (e - s) (drop s xs)"
  by (cases "e \<le> n") (simp_all add: min_def)

lemma layer_part_slice:
  assumes "length (pl_block_ids l) = length (pl_block_hashes l)"
  shows "layer_part l (Some rng) = block_slice rng (layer_blocks l)"
proof (cases "publish_selected (Some rng) l")
  case None
  then have "length (layer_blocks l) \<le> fst rng \<or> snd rng \<le> fst rng"
    using assms by (cases rng) (auto simp: publish_selected_def Let_def layer_blocks_def min_def split: if_splits)
  then show ?thesis using None by (auto simp: layer_part_def layer_restrict_def block_slice_def)
next
  case (Some sel)
  then have "sel = (fst rng, min (snd rng) (length (pl_block_ids l)))"
    by (cases rng) (auto simp: publish_selected_def Let_def split: if_splits)
  then show ?thesis using Some assms
    by (simp add: layer_part_def layer_restrict_def block_slice_def layer_blocks_def take_zip drop_zip slice_min)
qed

lemma block_slice_join: "a \<le> b \<Longrightarrow> b \<le> c \<Longrightarrow> block_slice (a, b) xs @ block_slice (b, c) xs = block_slice (a, c) xs"
proof -
  assume "a \<le> b" "b \<le> c"
  then have "drop b xs = drop (b - a) (drop a xs)" "c - a = (b - a) + (c - b)" by simp_all
  then show ?thesis by (simp only: block_slice_def fst_conv snd_conv take_add)
qed

lemma consecutive_le: "consecutive s rs fin \<Longrightarrow> s \<le> fin"
  by (induction s rs fin rule: consecutive.induct) auto

lemma consecutive_concat: "consecutive s rs fin \<Longrightarrow> concat (map (\<lambda>rng. block_slice rng xs) rs) = block_slice (s, fin) xs"
proof (induction s rs fin rule: consecutive.induct)
  case (2 s a b rest fin)
  then show ?case using consecutive_le [of b rest fin] block_slice_join [of s b fin xs] by simp
qed (simp add: block_slice_def)

lemma fold_max_ge: "x \<in> set xs \<Longrightarrow> x \<le> fold max xs (m :: nat)"
proof -
  assume "x \<in> set xs"
  then have "x \<le> Max (set (m # xs))" by (intro Max_ge) auto
  then show ?thesis by (metis Max.set_eq_fold)
qed

lemma publish_whole:
  assumes "publish_wf r" and "publish_encode r = Inr p"
  shows "publish_decode p = Inr (publish_restrict r None)"
    and "l \<in> set (pr_layers r) \<Longrightarrow> layer_part l None = layer_blocks l"
proof -
  show "publish_decode p = Inr (publish_restrict r None)"
    using assms publish_range_decodes [of r None p] by (simp add: publish_encode_def)
  show "layer_part l None = layer_blocks l" if "l \<in> set (pr_layers r)"
    using that assms publish_encode_range_iff [of r None p]
    by (auto simp: publish_encode_def publish_wf_def publish_accepts_def list_all_iff layer_part_def layer_restrict_None)
qed

lemma cut_into_exact:
  assumes wf: "publish_wf r" and eq: "list_all (\<lambda>l. length (pl_block_ids l) = length (pl_block_hashes l)) (pr_layers r)"
    and le: "\<And>l. l \<in> set (pr_layers r) \<Longrightarrow> length (pl_block_ids l) \<le> count"
    and cut: "cut_into r capacity ps rs" and rs: "consecutive 0 rs count"
  shows "list_all2 (\<lambda>p rng. publish_decode p = Inr (publish_restrict r rng) \<and> length p \<le> capacity) ps (map Some rs) \<and>
    (\<forall>l \<in> set (pr_layers r). concat (map (layer_part l) (map Some rs)) = layer_blocks l)"
proof -
  have "concat (map (layer_part l) (map Some rs)) = layer_blocks l" if l: "l \<in> set (pr_layers r)" for l
  proof -
    have e: "length (pl_block_ids l) = length (pl_block_hashes l)" using eq l by (simp add: list_all_iff)
    have "concat (map (layer_part l) (map Some rs)) = block_slice (0, count) (layer_blocks l)"
      using consecutive_concat [OF rs, of "layer_blocks l"] by (simp add: layer_part_slice [OF e] comp_def)
    then show ?thesis using le [OF l] by (simp add: block_slice_def layer_blocks_def)
  qed
  then show ?thesis using cut publish_range_decodes [OF wf] by (auto simp: cut_into_def list_all2_conv_all_nth)
qed

text \<open>C15. Cutting a publish request into slot payloads never panics and always ends. Each payload fits the slot and
  decodes to the part of the request it stands for; together they carry every block of every layer exactly once,
  in order. The call fails only when the request itself cannot be encoded or its smallest parts do not fit.\<close>

theorem publish_payloads_exact:
  assumes wf: "publish_wf r"
  shows "\<exists>res. publish_payloads r capacity = Some res \<and>
    (case res of
       Inr ps \<Rightarrow> \<exists>rngs. list_all2 (\<lambda>p rng. publish_decode p = Inr (publish_restrict r rng) \<and> length p \<le> capacity) ps rngs \<and>
         (\<forall>l \<in> set (pr_layers r). concat (map (layer_part l) rngs) = layer_blocks l)
     | Inl e \<Rightarrow> (\<exists>err. publish_encoded_len r None = Inl err) \<or> (\<forall>l \<in> set (pr_layers r). pl_block_ids l = []) \<or>
         (\<exists>i n. publish_encoded_len r (Some (i, Suc i)) = Inr n \<and> n > capacity))"
proof (cases "publish_encoded_len r None")
  case (Inr n)
  have g: "length (pr_registration_generation r) = 16" using wf by (simp add: publish_wf_def)
  have a: "publish_accepts r None" and n: "n = length (publish_bytes (publish_restrict r None))" "n \<le> isize_max"
    using Inr by (simp_all add: publish_encoded_len_iff [OF g])
  have eq: "list_all (\<lambda>l. length (pl_block_ids l) = length (pl_block_hashes l)) (pr_layers r)"
    using a by (simp add: publish_accepts_def)
  have small: "length (publish_bytes r) \<le> isize_max" using n publish_restrict_None [OF eq] by simp
  have enc: "publish_encode r = Inr (publish_bytes r)"
    using publish_encode_range_iff [OF g, of None "publish_bytes r"] a small publish_restrict_None [OF eq]
    by (simp add: publish_encode_def)
  let ?count = "fold max (map (\<lambda>l. length (pl_block_ids l)) (pr_layers r)) 0"
  have le: "length (pl_block_ids l) \<le> ?count" if "l \<in> set (pr_layers r)" for l
    using that fold_max_ge [of "length (pl_block_ids l)"] by simp
  consider "n \<le> capacity" | "n > capacity" "?count = 0" | "n > capacity" "?count > 0" by linarith
  then show ?thesis
  proof cases
    case 1
    then show ?thesis using Inr enc n publish_whole [OF wf enc] publish_restrict_None [OF eq]
      by (intro exI [of _ "Inr [publish_bytes r]"]) (auto simp: publish_payloads_def intro!: exI [of _ "[None]"])
  next
    case 2
    then show ?thesis using Inr le by (auto simp: publish_payloads_def Let_def)
  next
    case 3
    obtain res where res: "publish_chunks r capacity ?count 0 [] = Some res"
      "case res of
         Inl err \<Rightarrow> \<exists>i < ?count. length (publish_bytes (publish_restrict r (Some (i, Suc i)))) > capacity
       | Inr ps \<Rightarrow> \<exists>rs. cut_into r capacity ps rs \<and> consecutive 0 rs ?count"
      using publish_chunks_ok [OF g a small, of 0 ?count capacity "[]" "[]"] by (auto simp: cut_into_def)
    have part: "\<exists>k. publish_encoded_len r (Some (i, Suc i)) = Inr k \<and> k > capacity"
      if "length (publish_bytes (publish_restrict r (Some (i, Suc i)))) > capacity" for i
      using that accepts_range [OF g a small] publish_encoded_len_iff [OF g] by blast
    have run: "publish_payloads r capacity = Some res" using 3 Inr res(1) by (simp add: publish_payloads_def Let_def)
    show ?thesis
    proof (cases res)
      case (Inl e)
      then obtain i where "length (publish_bytes (publish_restrict r (Some (i, Suc i)))) > capacity" using res(2) by auto
      then show ?thesis using run Inl part by auto
    next
      case (Inr ps)
      then obtain rs where "cut_into r capacity ps rs" "consecutive 0 rs ?count" using res(2) by auto
      note whole = cut_into_exact [OF wf eq le this]
      show ?thesis
        unfolding run by (rule exI [of _ res]) (use whole in \<open>auto simp: Inr intro!: exI [of _ "map Some rs"] simp del: map_map\<close>)
    qed
  qed
qed (simp add: publish_payloads_def)

definition demo_publish :: publish_request where
  "demo_publish = \<lparr>pr_instance_id = ascii ''i'', pr_registration_generation = replicate 16 1, pr_tp_rank = 0, pr_pp_rank = 0,
     pr_device_id = - 1, pr_layers =
       [\<lparr>pl_layer_name = ascii ''a'', pl_block_ids = [4, 5, 6], pl_block_hashes = [[1], [2], [3]]\<rparr>,
        \<lparr>pl_layer_name = ascii ''b'', pl_block_ids = [9], pl_block_hashes = [[7]]\<rparr>]\<rparr>"

theorem publish_payloads_exact_witness:
  "publish_wf demo_publish \<and> (\<exists>res. publish_payloads demo_publish 81 = Some res)"
proof -
  have "publish_wf demo_publish"
    by (simp add: demo_publish_def publish_wf_def i32_range_def machine_defs ascii_def utf8_valid_def)
  then show ?thesis using publish_payloads_exact [of demo_publish 81] by blast
qed

end
