(* ===== verification/Control_Message.thy ===== *)
theory Control_Message
  imports Wire_Primitives
begin

unbundle bit_operations_syntax

text \<open>
  The fixed-size control messages of the process channel (\<open>orbitkv-channel/src/protocol.rs\<close>) and the frame header
  of the lifecycle socket (\<open>orbitkv-channel/src/lifecycle.rs\<close>). A control message is a list of eight \<open>u64\<close>
  values; \<open>nth\<close> stands for the indexing of the array.
\<close>

section \<open>Control messages\<close>

definition ABI_VERSION :: nat where "ABI_VERSION = 12"
definition WIRE_MAGIC :: nat where "WIRE_MAGIC = 0x4F524254"
definition WORD_COUNT :: nat where "WORD_COUNT = 8"

type_synonym wire_message = "nat list"

datatype command_code =
    Ping | QueryBundle | Restore | Publish | Release | Shutdown | CancelQuery | ObserveCompletion
  | QueryShards | CancelShardQuery | ReleaseShardQuery

datatype status_code = StatusOk | StatusLoading | StatusMiss | StatusInvalid | StaleSession | StaleGeneration | Internal

datatype protocol_error = WireMagic nat | WireVersion nat | UnknownCode nat | LengthOverflow nat

record descriptor_ref =
  dr_offset :: nat
  dr_len :: nat
  dr_generation :: nat

record command =
  cm_code :: command_code
  cm_request_id :: nat
  cm_session_epoch :: nat
  cm_descriptor :: descriptor_ref
  cm_arg0 :: nat
  cm_arg1 :: nat

record response =
  rp_status :: status_code
  rp_request_id :: nat
  rp_session_epoch :: nat
  rp_descriptor :: descriptor_ref
  rp_value0 :: nat
  rp_value1 :: nat

fun command_value :: "command_code \<Rightarrow> nat" where
  "command_value Ping = 1"
| "command_value QueryBundle = 2"
| "command_value Restore = 3"
| "command_value Publish = 4"
| "command_value Release = 5"
| "command_value Shutdown = 6"
| "command_value CancelQuery = 7"
| "command_value ObserveCompletion = 8"
| "command_value QueryShards = 9"
| "command_value CancelShardQuery = 10"
| "command_value ReleaseShardQuery = 11"

definition command_try_from :: "nat \<Rightarrow> protocol_error + command_code" where
  "command_try_from v =
     (if v = 1 then Inr Ping else if v = 2 then Inr QueryBundle else if v = 3 then Inr Restore
      else if v = 4 then Inr Publish else if v = 5 then Inr Release else if v = 6 then Inr Shutdown
      else if v = 7 then Inr CancelQuery else if v = 8 then Inr ObserveCompletion else if v = 9 then Inr QueryShards
      else if v = 10 then Inr CancelShardQuery else if v = 11 then Inr ReleaseShardQuery else Inl (UnknownCode v))"

fun status_value :: "status_code \<Rightarrow> nat" where
  "status_value StatusOk = 0"
| "status_value StatusLoading = 1"
| "status_value StatusMiss = 2"
| "status_value StatusInvalid = 3"
| "status_value StaleSession = 4"
| "status_value StaleGeneration = 5"
| "status_value Internal = 6"

definition status_try_from :: "nat \<Rightarrow> protocol_error + status_code" where
  "status_try_from v =
     (if v = 0 then Inr StatusOk else if v = 1 then Inr StatusLoading else if v = 2 then Inr StatusMiss
      else if v = 3 then Inr StatusInvalid else if v = 4 then Inr StaleSession else if v = 5 then Inr StaleGeneration
      else if v = 6 then Inr Internal else Inl (UnknownCode v))"

definition encode_header :: "nat \<Rightarrow> nat" where
  "encode_header code = push_bit 32 WIRE_MAGIC OR push_bit 16 ABI_VERSION OR code"

definition decode_header :: "nat \<Rightarrow> protocol_error + nat" where
  "decode_header header =
     (let magic = take_bit 32 (drop_bit 32 header); version = drop_bit 16 header AND 65535 in
      if magic \<noteq> WIRE_MAGIC then Inl (WireMagic magic)
      else if version \<noteq> ABI_VERSION then Inl (WireVersion version)
      else Inr (header AND 65535))"

definition command_encode_words :: "command \<Rightarrow> wire_message" where
  "command_encode_words c =
     [encode_header (command_value (cm_code c)), cm_request_id c, cm_session_epoch c, dr_offset (cm_descriptor c),
      dr_len (cm_descriptor c), dr_generation (cm_descriptor c), cm_arg0 c, cm_arg1 c]"

definition command_decode_words :: "wire_message \<Rightarrow> protocol_error + command" where
  "command_decode_words m =
     rbind (decode_header (m ! 0)) (\<lambda>v. rbind (command_try_from v) (\<lambda>code.
       if m ! 4 > u32_max then Inl (LengthOverflow (m ! 4))
       else Inr \<lparr>cm_code = code, cm_request_id = m ! 1, cm_session_epoch = m ! 2,
         cm_descriptor = \<lparr>dr_offset = m ! 3, dr_len = m ! 4, dr_generation = m ! 5\<rparr>, cm_arg0 = m ! 6, cm_arg1 = m ! 7\<rparr>))"

definition response_encode_words :: "response \<Rightarrow> wire_message" where
  "response_encode_words r =
     [encode_header (status_value (rp_status r)), rp_request_id r, rp_session_epoch r, dr_offset (rp_descriptor r),
      dr_len (rp_descriptor r), dr_generation (rp_descriptor r), rp_value0 r, rp_value1 r]"

definition response_decode_words :: "wire_message \<Rightarrow> protocol_error + response" where
  "response_decode_words m =
     rbind (decode_header (m ! 0)) (\<lambda>v. rbind (status_try_from v) (\<lambda>status.
       if m ! 4 > u32_max then Inl (LengthOverflow (m ! 4))
       else Inr \<lparr>rp_status = status, rp_request_id = m ! 1, rp_session_epoch = m ! 2,
         rp_descriptor = \<lparr>dr_offset = m ! 3, dr_len = m ! 4, dr_generation = m ! 5\<rparr>, rp_value0 = m ! 6, rp_value1 = m ! 7\<rparr>))"

definition response_ok :: "command \<Rightarrow> response" where
  "response_ok c =
     \<lparr>rp_status = StatusOk, rp_request_id = cm_request_id c, rp_session_epoch = cm_session_epoch c,
      rp_descriptor = cm_descriptor c, rp_value0 = cm_arg0 c, rp_value1 = cm_arg1 c\<rparr>"

section \<open>Lifecycle headers\<close>

definition LIFECYCLE_MAGIC :: nat where "LIFECYCLE_MAGIC = 0x4F52424C"
definition LIFECYCLE_VERSION :: nat where "LIFECYCLE_VERSION = 9"
definition LIFECYCLE_HEADER_BYTES :: nat where "LIFECYCLE_HEADER_BYTES = 20"
definition MAX_LIFECYCLE_PAYLOAD :: nat where "MAX_LIFECYCLE_PAYLOAD = 67108864"

record lifecycle_header =
  lh_code :: nat
  lh_epoch :: nat
  lh_payload_len :: nat

definition lifecycle_encode :: "lifecycle_header \<Rightarrow> string + bytes" where
  "lifecycle_encode h =
     (if lh_payload_len h > MAX_LIFECYCLE_PAYLOAD then Inl ''lifecycle metadata exceeds limit''
      else Inr (le_bytes 4 LIFECYCLE_MAGIC @ le_bytes 2 LIFECYCLE_VERSION @ le_bytes 2 (lh_code h) @
                le_bytes 8 (lh_epoch h) @ le_bytes 4 (lh_payload_len h)))"

definition lifecycle_decode :: "bytes \<Rightarrow> string + lifecycle_header" where
  "lifecycle_decode bs =
     (if take 4 bs \<noteq> le_bytes 4 LIFECYCLE_MAGIC \<or> take 2 (drop 4 bs) \<noteq> le_bytes 2 LIFECYCLE_VERSION
      then Inl ''incompatible lifecycle protocol''
      else
        (let h = \<lparr>lh_code = le_nat (take 2 (drop 6 bs)), lh_epoch = le_nat (take 8 (drop 8 bs)),
                  lh_payload_len = le_nat (take 4 (drop 16 bs))\<rparr>
         in if lh_payload_len h > MAX_LIFECYCLE_PAYLOAD then Inl ''lifecycle metadata exceeds limit'' else Inr h))"

section \<open>Headers\<close>

lemma header_sum: "code < 65536 \<Longrightarrow> encode_header code = WIRE_MAGIC * 2 ^ 32 + ABI_VERSION * 2 ^ 16 + code"
proof -
  assume code: "code < 65536"
  have "push_bit 16 ABI_VERSION OR code = push_bit 16 ABI_VERSION + code"
  proof (rule disjunctive_add [symmetric])
    show "\<not> bit (push_bit 16 ABI_VERSION) n \<or> \<not> bit code n" for n
    proof (cases "n < 16")
      case False
      then have "code < 2 ^ n" using code power_increasing [of 16 n "2 :: nat"] by (simp add: order.strict_trans2)
      then show ?thesis by (metis bit_take_bit_iff take_bit_nat_eq_self nat_less_le)
    qed (simp add: bit_push_bit_iff)
  qed
  moreover have "push_bit 32 WIRE_MAGIC OR (push_bit 16 ABI_VERSION + code) =
      push_bit 32 WIRE_MAGIC + (push_bit 16 ABI_VERSION + code)"
  proof (rule disjunctive_add [symmetric])
    show "\<not> bit (push_bit 32 WIRE_MAGIC) n \<or> \<not> bit (push_bit 16 ABI_VERSION + code) n" for n
    proof (cases "n < 32")
      case False
      then have "push_bit 16 ABI_VERSION + code < 2 ^ n"
        using code power_increasing [of 32 n "2 :: nat"] by (simp add: push_bit_eq_mult ABI_VERSION_def)
      then show ?thesis by (metis bit_take_bit_iff take_bit_nat_eq_self nat_less_le)
    qed (simp add: bit_push_bit_iff)
  qed
  ultimately show ?thesis by (simp add: encode_header_def or.assoc push_bit_eq_mult)
qed

lemma and_65535: "n AND 65535 = (n :: nat) mod 65536"
  using take_bit_eq_mask [of 16 n] by (simp add: take_bit_eq_mod mask_numeral)

lemma decode_header_iff:
  assumes "header \<le> u64_max" and "code < 65536"
  shows "decode_header header = Inr code \<longleftrightarrow> header = encode_header code"
proof -
  let ?M = "WIRE_MAGIC * 2 ^ 32 + ABI_VERSION * 2 ^ 16"
  have "decode_header header = Inr code \<longleftrightarrow>
      header div 2 ^ 32 = WIRE_MAGIC \<and> (header div 2 ^ 16) mod 2 ^ 16 = ABI_VERSION \<and> header mod 2 ^ 16 = code"
    using assms by (auto simp: decode_header_def Let_def and_65535 take_bit_eq_mod drop_bit_eq_div u64_max_def)
  also have "\<dots> \<longleftrightarrow> header = ?M + code"
  proof
    assume h: "header div 2 ^ 32 = WIRE_MAGIC \<and> (header div 2 ^ 16) mod 2 ^ 16 = ABI_VERSION \<and> header mod 2 ^ 16 = code"
    have "header div 2 ^ 32 = header div 2 ^ 16 div 2 ^ 16" by (simp add: div_mult2_eq [symmetric])
    then have "header div 2 ^ 16 = header div 2 ^ 32 * 2 ^ 16 + (header div 2 ^ 16) mod 2 ^ 16" by simp
    then show "header = ?M + code" using h div_mult_mod_eq [of header "2 ^ 16"] by (simp add: algebra_simps)
  next
    assume "header = ?M + code"
    then have h: "header = code + 2 ^ 16 * (WIRE_MAGIC * 2 ^ 16 + ABI_VERSION)" by (simp add: algebra_simps)
    have "(code + 2 ^ 16 * q) div 2 ^ 16 = q" "(code + 2 ^ 16 * q) mod 2 ^ 16 = code" for q
      using assms(2) by simp_all
    note d = this [of "WIRE_MAGIC * 2 ^ 16 + ABI_VERSION", folded h]
    have "header div 2 ^ 32 = header div 2 ^ 16 div 2 ^ 16" by (simp add: div_mult2_eq [symmetric])
    then show "header div 2 ^ 32 = WIRE_MAGIC \<and> (header div 2 ^ 16) mod 2 ^ 16 = ABI_VERSION \<and> header mod 2 ^ 16 = code"
      using d by (simp add: ABI_VERSION_def)
  qed
  finally show ?thesis using assms(2) by (simp add: header_sum)
qed

section \<open>Messages are read back\<close>

lemma command_try_from_iff: "command_try_from v = Inr c \<longleftrightarrow> v = command_value c"
  by (cases c) (auto simp: command_try_from_def)

lemma status_try_from_iff: "status_try_from v = Inr c \<longleftrightarrow> v = status_value c"
  by (cases c) (auto simp: status_try_from_def)

lemma command_value_small: "command_value c < 65536"
  by (cases c) simp_all

lemma status_value_small: "status_value c < 65536"
  by (cases c) simp_all

definition words_wf :: "wire_message \<Rightarrow> bool" where
  "words_wf m \<longleftrightarrow> length m = WORD_COUNT \<and> list_all (\<lambda>w. w \<le> u64_max) m"

definition command_fits :: "command \<Rightarrow> bool" where
  "command_fits c \<longleftrightarrow> cm_request_id c \<le> u64_max \<and> cm_session_epoch c \<le> u64_max \<and> dr_offset (cm_descriptor c) \<le> u64_max \<and>
     dr_len (cm_descriptor c) \<le> u32_max \<and> dr_generation (cm_descriptor c) \<le> u64_max \<and> cm_arg0 c \<le> u64_max \<and>
     cm_arg1 c \<le> u64_max"

lemma decode_header_bound: "decode_header h = Inr v \<Longrightarrow> v < 65536"
  by (auto simp: decode_header_def Let_def and_65535 split: if_splits)

lemma message_words: "length m = WORD_COUNT \<Longrightarrow> m = [m ! 0, m ! 1, m ! 2, m ! 3, m ! 4, m ! 5, m ! 6, m ! 7]"
  unfolding WORD_COUNT_def by (intro nth_equalityI) (auto simp: less_Suc_eq numeral_eq_Suc)

lemma command_words_codec:
  assumes "words_wf m"
  shows "command_decode_words m = Inr c \<longleftrightarrow> command_fits c \<and> command_encode_words c = m"
proof -
  have m: "m = [m ! 0, m ! 1, m ! 2, m ! 3, m ! 4, m ! 5, m ! 6, m ! 7]"
    using assms by (intro message_words) (simp add: words_wf_def)
  have wl: "m ! 0 \<le> u64_max" "m ! 1 \<le> u64_max" "m ! 2 \<le> u64_max" "m ! 3 \<le> u64_max" "m ! 5 \<le> u64_max"
    "m ! 6 \<le> u64_max" "m ! 7 \<le> u64_max"
    using assms by (simp_all add: words_wf_def list_all_length WORD_COUNT_def)
  show ?thesis
  proof
    assume "command_decode_words m = Inr c"
    then obtain code where h: "decode_header (m ! 0) = Inr (command_value code)" and l: "m ! 4 \<le> u32_max"
      and c: "c = \<lparr>cm_code = code, cm_request_id = m ! 1, cm_session_epoch = m ! 2,
         cm_descriptor = \<lparr>dr_offset = m ! 3, dr_len = m ! 4, dr_generation = m ! 5\<rparr>, cm_arg0 = m ! 6, cm_arg1 = m ! 7\<rparr>"
      by (auto simp: command_decode_words_def rbind_eq_Inr_iff command_try_from_iff split: if_splits)
    have "m ! 0 = encode_header (command_value code)"
      using h decode_header_iff [OF wl(1) command_value_small] by simp
    then have enc: "command_encode_words c = [m ! 0, m ! 1, m ! 2, m ! 3, m ! 4, m ! 5, m ! 6, m ! 7]"
      using c by (simp add: command_encode_words_def)
    have "command_fits c" using c l wl by (simp add: command_fits_def)
    then show "command_fits c \<and> command_encode_words c = m" using trans [OF enc m [symmetric]] by blast
  next
    assume h: "command_fits c \<and> command_encode_words c = m"
    then have "m ! 0 = encode_header (command_value (cm_code c))" by (auto simp: command_encode_words_def)
    then have "decode_header (m ! 0) = Inr (command_value (cm_code c))"
      using decode_header_iff [OF wl(1) command_value_small [of "cm_code c"]] by blast
    moreover have "command_try_from (command_value (cm_code c)) = Inr (cm_code c)" by (simp add: command_try_from_iff)
    ultimately show "command_decode_words m = Inr c"
      using h by (auto simp: command_decode_words_def command_fits_def command_encode_words_def)
  qed
qed

definition response_fits :: "response \<Rightarrow> bool" where
  "response_fits c \<longleftrightarrow> rp_request_id c \<le> u64_max \<and> rp_session_epoch c \<le> u64_max \<and> dr_offset (rp_descriptor c) \<le> u64_max \<and>
     dr_len (rp_descriptor c) \<le> u32_max \<and> dr_generation (rp_descriptor c) \<le> u64_max \<and> rp_value0 c \<le> u64_max \<and>
     rp_value1 c \<le> u64_max"

lemma response_words_codec:
  assumes "words_wf m"
  shows "response_decode_words m = Inr c \<longleftrightarrow> response_fits c \<and> response_encode_words c = m"
proof -
  have m: "m = [m ! 0, m ! 1, m ! 2, m ! 3, m ! 4, m ! 5, m ! 6, m ! 7]"
    using assms by (intro message_words) (simp add: words_wf_def)
  have wl: "m ! 0 \<le> u64_max" "m ! 1 \<le> u64_max" "m ! 2 \<le> u64_max" "m ! 3 \<le> u64_max" "m ! 5 \<le> u64_max"
    "m ! 6 \<le> u64_max" "m ! 7 \<le> u64_max"
    using assms by (simp_all add: words_wf_def list_all_length WORD_COUNT_def)
  show ?thesis
  proof
    assume "response_decode_words m = Inr c"
    then obtain code where h: "decode_header (m ! 0) = Inr (status_value code)" and l: "m ! 4 \<le> u32_max"
      and c: "c = \<lparr>rp_status = code, rp_request_id = m ! 1, rp_session_epoch = m ! 2,
         rp_descriptor = \<lparr>dr_offset = m ! 3, dr_len = m ! 4, dr_generation = m ! 5\<rparr>, rp_value0 = m ! 6, rp_value1 = m ! 7\<rparr>"
      by (auto simp: response_decode_words_def rbind_eq_Inr_iff status_try_from_iff split: if_splits)
    have "m ! 0 = encode_header (status_value code)"
      using h decode_header_iff [OF wl(1) status_value_small] by simp
    then have enc: "response_encode_words c = [m ! 0, m ! 1, m ! 2, m ! 3, m ! 4, m ! 5, m ! 6, m ! 7]"
      using c by (simp add: response_encode_words_def)
    have "response_fits c" using c l wl by (simp add: response_fits_def)
    then show "response_fits c \<and> response_encode_words c = m" using trans [OF enc m [symmetric]] by blast
  next
    assume h: "response_fits c \<and> response_encode_words c = m"
    then have "m ! 0 = encode_header (status_value (rp_status c))" by (auto simp: response_encode_words_def)
    then have "decode_header (m ! 0) = Inr (status_value (rp_status c))"
      using decode_header_iff [OF wl(1) status_value_small [of "rp_status c"]] by blast
    moreover have "status_try_from (status_value (rp_status c)) = Inr (rp_status c)" by (simp add: status_try_from_iff)
    ultimately show "response_decode_words m = Inr c"
      using h by (auto simp: response_decode_words_def response_fits_def response_encode_words_def)
  qed
qed

definition lifecycle_fits :: "lifecycle_header \<Rightarrow> bool" where
  "lifecycle_fits h \<longleftrightarrow> lh_code h \<le> u16_max \<and> lh_epoch h \<le> u64_max"

lemma lifecycle_codec:
  assumes "length bs = LIFECYCLE_HEADER_BYTES"
  shows "lifecycle_decode bs = Inr h \<longleftrightarrow> lifecycle_fits h \<and> lifecycle_encode h = Inr bs"
proof
  assume d: "lifecycle_decode bs = Inr h"
  have n: "length bs = 20" using assms by (simp add: LIFECYCLE_HEADER_BYTES_def)
  have parts: "bs = take 4 bs @ take 2 (drop 4 bs) @ take 2 (drop 6 bs) @ take 8 (drop 8 bs) @ take 4 (drop 16 bs)"
    using n append_take_drop_id [of 4 bs] append_take_drop_id [of 2 "drop 4 bs"] append_take_drop_id [of 2 "drop 6 bs"]
      append_take_drop_id [of 8 "drop 8 bs"] by simp
  have "le_bytes k (le_nat (take k (drop j bs))) = take k (drop j bs)" if "j + k \<le> 20" for j k
    using that n le_bytes_le_nat [of "take k (drop j bs)"] by simp
  note again = this [of 6 2] this [of 8 8] this [of 16 4]
  have "le_nat (take 2 (drop 6 bs)) < 256 ^ 2" "le_nat (take 8 (drop 8 bs)) < 256 ^ 8"
    using le_nat_bound [of "take 2 (drop 6 bs)"] le_nat_bound [of "take 8 (drop 8 bs)"] n by simp_all
  then have "lifecycle_fits h"
    using d by (auto simp: lifecycle_decode_def Let_def lifecycle_fits_def machine_defs split: if_splits)
  moreover have "lifecycle_encode h = Inr (take 4 bs @ take 2 (drop 4 bs) @ take 2 (drop 6 bs) @ take 8 (drop 8 bs) @ take 4 (drop 16 bs))"
    using d again by (auto simp: lifecycle_decode_def lifecycle_encode_def Let_def split: if_splits)
  ultimately show "lifecycle_fits h \<and> lifecycle_encode h = Inr bs" using parts by simp
next
  assume h: "lifecycle_fits h \<and> lifecycle_encode h = Inr bs"
  then have "lh_payload_len h \<le> MAX_LIFECYCLE_PAYLOAD" by (auto simp: lifecycle_encode_def split: if_splits)
  then show "lifecycle_decode bs = Inr h"
    using h by (auto simp: lifecycle_encode_def lifecycle_decode_def Let_def lifecycle_fits_def machine_defs
        MAX_LIFECYCLE_PAYLOAD_def le_nat_le_bytes split: if_splits)
qed

end
