(* ===== verification/Cache_Codec.thy ===== *)
theory Cache_Codec
  imports Cache_Transfers Control_Message
begin

text \<open>
  Completion observations (\<open>orbitkv-channel/src/cache_protocol.rs\<close>), and all requests of the process channel
  together: what a client sends for a call (\<open>orbitkv-channel/src/client.rs\<close>) and how the server of the endpoint
  reads the payload of a command (\<open>orbitkv-server/src/endpoint/mod.rs\<close>).
\<close>

section \<open>Completion observations\<close>




















section \<open>Completion observations are read back\<close>






section \<open>The requests of a channel\<close>















text \<open>What the encoders accept and the decoders then do not give back: the block number that stands for no block,
  and an empty lease.\<close>

lemma restore_reserved_target:
  assumes "restore_encode r = Inr bs" and "length bs \<le> isize_max" and "load \<in> set (rr_loads r)"
    and "ts \<in> set (rl_block_ids_by_group load)" and "Some u32_max \<in> set ts"
  shows "restore_decode bs \<noteq> Inr r"
proof
  assume "restore_decode bs = Inr r"
  then have "restore_wf r" using assms(2) by (simp add: restore_codec)
  then have "target_wf (Some u32_max)" using assms(3-) unfolding restore_wf_def list_all_iff by blast
  then show False by (simp add: target_wf_def)
qed

lemma empty_lease_rejected: "release_encode [] = Inr bs \<Longrightarrow> release_decode bs \<noteq> Inr lease"
  by (cases "lease = []") (auto simp: release_codec release_encode_def push_bytes_iff header_bytes
      dest: arg_cong [of _ _ length])

end
