(* ===== verification/Descriptor_Arena.thy ===== *)
theory Descriptor_Arena
  imports Control_Message
begin

text \<open>
  The descriptor arena (\<open>orbitkv-channel/src/arena.rs\<close>): a file of fixed slots that two processes map. A slot holds
  a generation, a length and a payload. The mapped memory is a list of bytes; \<open>get_le\<close> and \<open>put\<close> are the reads and
  writes of the code at an offset.

  \<^item> \<open>arena_write_at\<close> and \<open>arena_read\<close> are the operations as one process runs them under its lock.
  \<^item> The lock of a process does not exclude the other process. \<open>slot_step\<close> interleaves the single memory accesses of
    a writer and of a reader of one slot, in a sequentially consistent order.
  \<^item> Creating and mapping the file are system calls and not modelled; a lock is never poisoned.
\<close>

section \<open>Layout\<close>

definition ARENA_MAGIC :: nat where "ARENA_MAGIC = 0x4F524241"
definition ARENA_VERSION :: nat where "ARENA_VERSION = 1"
definition ARENA_HEADER_BYTES :: nat where "ARENA_HEADER_BYTES = 4096"
definition SLOT_HEADER_BYTES :: nat where "SLOT_HEADER_BYTES = 16"

datatype arena_error =
    TooSmall nat nat
  | ArenaFieldOverflow string
  | ArenaMagic nat
  | ArenaVersion nat
  | SessionMismatch nat nat
  | SlotOutOfRange nat nat
  | InvalidOffset nat
  | SlotPayloadTooLarge nat nat
  | ZeroGeneration
  | StaleDescriptor nat nat
  | LengthMismatch nat nat
  | ConcurrentWrite nat nat

record arena_layout =
  ly_slot_stride :: nat
  ly_slot_count :: nat

definition layout_new :: "nat \<Rightarrow> nat \<Rightarrow> arena_error + arena_layout" where
  "layout_new arena_bytes slot_capacity =
     rbind (ok_or (checked_add SLOT_HEADER_BYTES slot_capacity) (ArenaFieldOverflow ''slot_stride'')) (\<lambda>unaligned.
     rbind (ok_or (checked_add unaligned 7) (ArenaFieldOverflow ''slot_stride'')) (\<lambda>padded.
       let stride = padded div 8 * 8; usable = arena_bytes - ARENA_HEADER_BYTES; count = usable div stride in
       if slot_capacity = 0 \<or> count = 0 then Inl (TooSmall arena_bytes slot_capacity)
       else Inr \<lparr>ly_slot_stride = stride, ly_slot_count = count\<rparr>))"

record arena =
  ar_map :: bytes
  ar_arena_bytes :: nat
  ar_session_epoch :: nat
  ar_slot_capacity :: nat
  ar_slot_stride :: nat
  ar_slot_count :: nat

section \<open>Memory\<close>

definition get_le :: "nat \<Rightarrow> nat \<Rightarrow> bytes \<Rightarrow> nat" where
  "get_le width offset mem = le_nat (take width (drop offset mem))"

definition put :: "nat \<Rightarrow> bytes \<Rightarrow> bytes \<Rightarrow> bytes" where
  "put offset bs mem = take offset mem @ bs @ drop (offset + length bs) mem"

definition load_generation :: "nat \<Rightarrow> bytes \<Rightarrow> nat" where
  "load_generation slot_header mem = get_le 8 slot_header mem"

definition store_generation :: "nat \<Rightarrow> nat \<Rightarrow> bytes \<Rightarrow> bytes" where
  "store_generation slot_header generation mem = put slot_header (le_bytes 8 generation) mem"

section \<open>Operations\<close>

definition arena_create :: "nat \<Rightarrow> nat \<Rightarrow> nat \<Rightarrow> arena_error + arena" where
  "arena_create session_epoch arena_bytes slot_capacity =
     (if session_epoch = 0 then Inl ZeroGeneration
      else
        rbind (layout_new arena_bytes slot_capacity) (\<lambda>layout.
          let mem = put 16 (le_bytes 8 arena_bytes) (put 8 (le_bytes 8 session_epoch)
                      (put 4 (le_bytes 2 ARENA_VERSION) (put 0 (le_bytes 4 ARENA_MAGIC) (replicate arena_bytes 0))))
          in if slot_capacity > u32_max then Inl (ArenaFieldOverflow ''slot_capacity'')
             else if ly_slot_count layout > u32_max then Inl (ArenaFieldOverflow ''slot_count'')
             else Inr \<lparr>ar_map = put 28 (le_bytes 4 (ly_slot_count layout)) (put 24 (le_bytes 4 slot_capacity) mem),
                       ar_arena_bytes = arena_bytes, ar_session_epoch = session_epoch,
                       ar_slot_capacity = slot_capacity, ar_slot_stride = ly_slot_stride layout,
                       ar_slot_count = ly_slot_count layout\<rparr>))"

definition arena_open :: "bytes \<Rightarrow> nat \<Rightarrow> nat \<Rightarrow> arena_error + arena" where
  "arena_open mem expected_session_epoch arena_bytes =
     (if get_le 4 0 mem \<noteq> ARENA_MAGIC then Inl (ArenaMagic (get_le 4 0 mem))
      else if get_le 2 4 mem \<noteq> ARENA_VERSION then Inl (ArenaVersion (get_le 2 4 mem))
      else if get_le 8 8 mem \<noteq> expected_session_epoch
      then Inl (SessionMismatch expected_session_epoch (get_le 8 8 mem))
      else if get_le 8 16 mem \<noteq> arena_bytes then Inl (LengthMismatch arena_bytes (get_le 8 16 mem))
      else
        rbind (layout_new arena_bytes (get_le 4 24 mem)) (\<lambda>layout.
          if get_le 4 28 mem \<noteq> ly_slot_count layout then Inl (LengthMismatch (ly_slot_count layout) (get_le 4 28 mem))
          else Inr \<lparr>ar_map = mem, ar_arena_bytes = arena_bytes, ar_session_epoch = get_le 8 8 mem,
                    ar_slot_capacity = get_le 4 24 mem, ar_slot_stride = ly_slot_stride layout,
                    ar_slot_count = ly_slot_count layout\<rparr>))"

definition slot_offset :: "arena \<Rightarrow> nat \<Rightarrow> arena_error + nat" where
  "slot_offset a slot =
     (if slot \<ge> ar_slot_count a then Inl (SlotOutOfRange slot (ar_slot_count a))
      else Inr (ARENA_HEADER_BYTES + slot * ar_slot_stride a + SLOT_HEADER_BYTES))"

definition descriptor_slot :: "arena \<Rightarrow> nat \<Rightarrow> arena_error + nat" where
  "descriptor_slot a offset =
     (if offset < ARENA_HEADER_BYTES + SLOT_HEADER_BYTES then Inl (InvalidOffset offset)
      else
        (let relative = offset - (ARENA_HEADER_BYTES + SLOT_HEADER_BYTES) in
         if relative mod ar_slot_stride a \<noteq> 0 then Inl (InvalidOffset offset)
         else if relative div ar_slot_stride a \<ge> ar_slot_count a then Inl (InvalidOffset offset)
         else Inr (relative div ar_slot_stride a)))"

definition validate_offset :: "arena \<Rightarrow> nat \<Rightarrow> arena_error + nat \<times> nat" where
  "validate_offset a offset =
     rbind (descriptor_slot a offset) (\<lambda>slot.
       let payload_offset = ARENA_HEADER_BYTES + slot * ar_slot_stride a + SLOT_HEADER_BYTES
       in Inr (payload_offset - SLOT_HEADER_BYTES, payload_offset))"

definition arena_write_at :: "arena \<Rightarrow> nat \<Rightarrow> nat \<Rightarrow> bytes \<Rightarrow> arena_error + arena \<times> descriptor_ref" where
  "arena_write_at a offset generation payload =
     (if generation = 0 then Inl ZeroGeneration
      else if length payload > ar_slot_capacity a then Inl (SlotPayloadTooLarge (length payload) (ar_slot_capacity a))
      else
        rbind (validate_offset a offset) (\<lambda>(slot_header, payload_offset).
          if length payload > u32_max then Inl (ArenaFieldOverflow ''payload_len'')
          else
            (let mem = store_generation slot_header generation
                         (put (slot_header + 8) (le_bytes 4 (length payload))
                           (put payload_offset payload (store_generation slot_header 0 (ar_map a))))
             in Inr (a\<lparr>ar_map := mem\<rparr>, \<lparr>dr_offset = offset, dr_len = length payload, dr_generation = generation\<rparr>))))"

definition arena_write_slot :: "arena \<Rightarrow> nat \<Rightarrow> nat \<Rightarrow> bytes \<Rightarrow> arena_error + arena \<times> descriptor_ref" where
  "arena_write_slot a slot generation payload =
     rbind (slot_offset a slot) (\<lambda>offset. arena_write_at a offset generation payload)"

definition arena_write_response :: "arena \<Rightarrow> descriptor_ref \<Rightarrow> bytes \<Rightarrow> arena_error + arena \<times> descriptor_ref" where
  "arena_write_response a request payload =
     rbind (ok_or (checked_add (dr_generation request) 1) (ArenaFieldOverflow ''generation'')) (\<lambda>generation.
       arena_write_at a (dr_offset request) generation payload)"

definition arena_reset_slot :: "arena \<Rightarrow> nat \<Rightarrow> nat \<Rightarrow> arena_error + arena" where
  "arena_reset_slot a slot generation =
     rbind (slot_offset a slot) (\<lambda>offset. rbind (validate_offset a offset) (\<lambda>(slot_header, _).
       Inr (a\<lparr>ar_map := store_generation slot_header generation (put (slot_header + 8) (le_bytes 4 0) (ar_map a))\<rparr>)))"

definition arena_slot_generation :: "arena \<Rightarrow> nat \<Rightarrow> arena_error + nat" where
  "arena_slot_generation a slot =
     rbind (slot_offset a slot) (\<lambda>offset. rbind (validate_offset a offset) (\<lambda>(slot_header, _).
       Inr (load_generation slot_header (ar_map a))))"

definition arena_read :: "arena \<Rightarrow> descriptor_ref \<Rightarrow> arena_error + bytes" where
  "arena_read a d =
     rbind (validate_offset a (dr_offset d)) (\<lambda>(slot_header, payload_offset).
       let actual_generation = load_generation slot_header (ar_map a); actual_len = get_le 4 (slot_header + 8) (ar_map a) in
       if actual_generation \<noteq> dr_generation d then Inl (StaleDescriptor (dr_generation d) actual_generation)
       else if actual_len \<noteq> dr_len d then Inl (LengthMismatch (dr_len d) actual_len)
       else if actual_len > ar_slot_capacity a then Inl (SlotPayloadTooLarge actual_len (ar_slot_capacity a))
       else
         (let payload = take actual_len (drop payload_offset (ar_map a));
              final_generation = load_generation slot_header (ar_map a)
          in if final_generation \<noteq> actual_generation then Inl (ConcurrentWrite actual_generation final_generation)
             else Inr payload))"

section \<open>Two processes on one slot\<close>

text \<open>The writer of a slot clears the generation, copies the payload, sets the length and stores the generation; the
  reader of a descriptor loads the generation, loads the length, copies the payload and loads the generation again.
  \<open>sr_last\<close> and \<open>sr_history\<close> record the newest generation of a write and the payload published with each one.\<close>

datatype slot_writer = Idle | Copying nat bytes nat | Publishing nat bytes

datatype slot_reader = NotReading | ReadingLength | CopyingOut nat bytes | Returned bytes

record slot_run =
  sr_mem :: bytes
  sr_writer :: slot_writer
  sr_reader :: slot_reader
  sr_last :: nat
  sr_history :: "nat \<rightharpoonup> bytes"

inductive slot_step :: "nat \<Rightarrow> nat \<Rightarrow> descriptor_ref \<Rightarrow> slot_run \<Rightarrow> slot_run \<Rightarrow> bool"
  for capacity :: nat and h :: nat and d :: descriptor_ref where
  write_begin:
    "sr_writer s = Idle \<Longrightarrow> sr_last s < g \<Longrightarrow> g \<le> u64_max \<Longrightarrow> length payload \<le> capacity \<Longrightarrow>
     slot_step capacity h d s
       (s\<lparr>sr_mem := store_generation h 0 (sr_mem s), sr_writer := Copying g payload 0, sr_last := g\<rparr>)"
| write_byte:
    "sr_writer s = Copying g payload i \<Longrightarrow> i < length payload \<Longrightarrow>
     slot_step capacity h d s
       (s\<lparr>sr_mem := put (h + 16 + i) [payload ! i] (sr_mem s), sr_writer := Copying g payload (Suc i)\<rparr>)"
| write_length:
    "sr_writer s = Copying g payload (length payload) \<Longrightarrow>
     slot_step capacity h d s
       (s\<lparr>sr_mem := put (h + 8) (le_bytes 4 (length payload)) (sr_mem s), sr_writer := Publishing g payload\<rparr>)"
| write_publish:
    "sr_writer s = Publishing g payload \<Longrightarrow>
     slot_step capacity h d s
       (s\<lparr>sr_mem := store_generation h g (sr_mem s), sr_writer := Idle, sr_history := (sr_history s)(g \<mapsto> payload)\<rparr>)"
| read_begin:
    "sr_reader s = NotReading \<Longrightarrow> load_generation h (sr_mem s) = dr_generation d \<Longrightarrow>
     slot_step capacity h d s (s\<lparr>sr_reader := ReadingLength\<rparr>)"
| read_length:
    "sr_reader s = ReadingLength \<Longrightarrow> get_le 4 (h + 8) (sr_mem s) = dr_len d \<Longrightarrow> dr_len d \<le> capacity \<Longrightarrow>
     slot_step capacity h d s (s\<lparr>sr_reader := CopyingOut (dr_len d) []\<rparr>)"
| read_byte:
    "sr_reader s = CopyingOut n out \<Longrightarrow> length out < n \<Longrightarrow>
     slot_step capacity h d s (s\<lparr>sr_reader := CopyingOut n (out @ [sr_mem s ! (h + 16 + length out)])\<rparr>)"
| read_end:
    "sr_reader s = CopyingOut n out \<Longrightarrow> length out = n \<Longrightarrow> load_generation h (sr_mem s) = dr_generation d \<Longrightarrow>
     slot_step capacity h d s (s\<lparr>sr_reader := Returned out\<rparr>)"
| read_fail:
    "slot_step capacity h d s (s\<lparr>sr_reader := NotReading\<rparr>)"

section \<open>Reads and writes of memory\<close>

lemma length_put [simp]: "offset + length bs \<le> length mem \<Longrightarrow> length (put offset bs mem) = length mem"
  by (simp add: put_def)

lemma take_drop_put_same:
  "offset + length bs \<le> length mem \<Longrightarrow> length bs = n \<Longrightarrow> take n (drop offset (put offset bs mem)) = bs"
  by (simp add: put_def)

lemma nth_put:
  assumes "offset + length bs \<le> length mem" and "i < length mem"
  shows "put offset bs mem ! i = (if offset \<le> i \<and> i < offset + length bs then bs ! (i - offset) else mem ! i)"
  using assms by (auto simp: put_def nth_append min_def)

lemma take_drop_put_other:
  assumes "offset + length bs \<le> length mem" and "at + n \<le> length mem"
    and "at + n \<le> offset \<or> offset + length bs \<le> at"
  shows "take n (drop at (put offset bs mem)) = take n (drop at mem)"
  using assms by (intro nth_equalityI) (auto simp: nth_put)

lemma get_le_put_same:
  "offset + k \<le> length mem \<Longrightarrow> v < 256 ^ k \<Longrightarrow> get_le k offset (put offset (le_bytes k v) mem) = v"
  by (simp add: get_le_def take_drop_put_same le_nat_le_bytes)

lemma get_le_put_other:
  assumes "offset + length bs \<le> length mem" and "at + k \<le> length mem"
    and "at + k \<le> offset \<or> offset + length bs \<le> at"
  shows "get_le k at (put offset bs mem) = get_le k at mem"
  using take_drop_put_other [OF assms] by (simp add: get_le_def)

section \<open>Geometry\<close>

definition arena_wf :: "arena \<Rightarrow> bool" where
  "arena_wf a \<longleftrightarrow> length (ar_map a) = ar_arena_bytes a \<and> ar_slot_capacity a \<le> u32_max \<and>
     SLOT_HEADER_BYTES + ar_slot_capacity a \<le> ar_slot_stride a \<and>
     ARENA_HEADER_BYTES + ar_slot_count a * ar_slot_stride a \<le> ar_arena_bytes a"

definition slot_header :: "arena \<Rightarrow> nat \<Rightarrow> nat" where
  "slot_header a slot = ARENA_HEADER_BYTES + slot * ar_slot_stride a"

lemma validate_offset_iff:
  assumes "0 < ar_slot_stride a"
  shows "validate_offset a offset = Inr (h, p) \<longleftrightarrow>
    (\<exists>slot < ar_slot_count a. h = slot_header a slot \<and> p = h + 16 \<and> offset = p)"
proof
  assume "validate_offset a offset = Inr (h, p)"
  then show "\<exists>slot < ar_slot_count a. h = slot_header a slot \<and> p = h + 16 \<and> offset = p"
    by (auto simp: validate_offset_def descriptor_slot_def Let_def slot_header_def SLOT_HEADER_BYTES_def
        ARENA_HEADER_BYTES_def split: if_splits intro!: exI [of _ "(offset - 4112) div ar_slot_stride a"])
next
  assume "\<exists>slot < ar_slot_count a. h = slot_header a slot \<and> p = h + 16 \<and> offset = p"
  then show "validate_offset a offset = Inr (h, p)"
    using assms by (auto simp: validate_offset_def descriptor_slot_def Let_def slot_header_def SLOT_HEADER_BYTES_def
        ARENA_HEADER_BYTES_def)
qed

lemma slot_inside:
  assumes "arena_wf a" and "slot < ar_slot_count a"
  shows "slot_header a slot + ar_slot_stride a \<le> length (ar_map a)" and "slot_header a slot + 16 + ar_slot_capacity a \<le> length (ar_map a)"
proof -
  have "slot * ar_slot_stride a + ar_slot_stride a \<le> ar_slot_count a * ar_slot_stride a"
    using assms(2) by (metis Suc_leI add.commute mult_Suc mult_le_mono1)
  then show "slot_header a slot + ar_slot_stride a \<le> length (ar_map a)"
    using assms(1) by (simp add: arena_wf_def slot_header_def)
  then show "slot_header a slot + 16 + ar_slot_capacity a \<le> length (ar_map a)"
    using assms(1) by (simp add: arena_wf_def SLOT_HEADER_BYTES_def)
qed

lemma slots_apart:
  assumes "slot \<noteq> other"
  shows "slot_header a slot + ar_slot_stride a \<le> slot_header a other \<or> slot_header a other + ar_slot_stride a \<le> slot_header a slot"
proof -
  have "i * ar_slot_stride a + ar_slot_stride a \<le> j * ar_slot_stride a" if "i < j" for i j
    using that by (metis Suc_leI add.commute mult_Suc mult_le_mono1)
  then show ?thesis using assms by (cases "slot < other") (auto simp: slot_header_def)
qed

section \<open>A write is read back\<close>

lemma arena_create_wf:
  assumes "arena_create epoch arena_bytes slot_capacity = Inr a"
  shows "arena_wf a"
proof -
  obtain layout where l: "layout_new arena_bytes slot_capacity = Inr layout" and c: "slot_capacity \<le> u32_max"
    and a: "ar_arena_bytes a = arena_bytes" "ar_slot_capacity a = slot_capacity" "ar_slot_stride a = ly_slot_stride layout"
      "ar_slot_count a = ly_slot_count layout"
    and m: "ar_map a = put 28 (le_bytes 4 (ly_slot_count layout)) (put 24 (le_bytes 4 slot_capacity)
        (put 16 (le_bytes 8 arena_bytes) (put 8 (le_bytes 8 epoch)
          (put 4 (le_bytes 2 ARENA_VERSION) (put 0 (le_bytes 4 ARENA_MAGIC) (replicate arena_bytes 0))))))"
    using assms by (auto simp: arena_create_def rbind_eq_Inr_iff Let_def split: if_splits)
  have stride: "ly_slot_stride layout = (16 + slot_capacity + 7) div 8 * 8"
    and count: "ly_slot_count layout = (arena_bytes - 4096) div ly_slot_stride layout" "ly_slot_count layout \<noteq> 0"
    using l by (auto simp: layout_new_def rbind_eq_Inr_iff Let_def ok_or_eq_Inr_iff checked_add_def SLOT_HEADER_BYTES_def
        ARENA_HEADER_BYTES_def split: if_splits)
  have "16 + slot_capacity \<le> ly_slot_stride layout" unfolding stride by presburger
  moreover have "4096 + ly_slot_count layout * ly_slot_stride layout \<le> arena_bytes"
  proof -
    have "ly_slot_count layout * ly_slot_stride layout \<le> arena_bytes - 4096" unfolding count(1) by simp
    moreover have "4096 < arena_bytes" using count by (cases "arena_bytes \<le> 4096") simp_all
    ultimately show ?thesis by linarith
  qed
  moreover from this have "32 \<le> arena_bytes" by linarith
  ultimately show ?thesis using a c by (simp add: arena_wf_def m SLOT_HEADER_BYTES_def ARENA_HEADER_BYTES_def)
qed

lemma arena_write_read:
  assumes wf: "arena_wf a" and w: "arena_write_at a offset g payload = Inr (b, d)" and g: "g \<le> u64_max"
  shows "arena_wf b" and "arena_read b d = Inr payload"
    and "\<And>e. dr_offset e \<noteq> offset \<Longrightarrow> arena_read b e = arena_read a e"
proof -
  have pos: "0 < ar_slot_stride a" using wf by (simp add: arena_wf_def SLOT_HEADER_BYTES_def)
  obtain slot where slot: "slot < ar_slot_count a" and off: "offset = slot_header a slot + 16"
    and len: "length payload \<le> ar_slot_capacity a" "length payload \<le> u32_max"
    and d: "d = \<lparr>dr_offset = offset, dr_len = length payload, dr_generation = g\<rparr>"
    and b: "b = a\<lparr>ar_map := store_generation (slot_header a slot) g
        (put (slot_header a slot + 8) (le_bytes 4 (length payload))
          (put (slot_header a slot + 16) payload (store_generation (slot_header a slot) 0 (ar_map a))))\<rparr>"
    using w by (auto simp: arena_write_at_def rbind_eq_Inr_iff Let_def validate_offset_iff [OF pos] split: if_splits)
  note inside = slot_inside [OF wf slot]
  show wf': "arena_wf b" using wf inside len by (simp add: b arena_wf_def store_generation_def)
  have "ar_slot_count b = ar_slot_count a" "ar_slot_stride b = ar_slot_stride a" "slot_header b = slot_header a"
    "ar_slot_capacity b = ar_slot_capacity a"
    by (simp_all add: b slot_header_def fun_eq_iff)
  note same = this
  have vb: "validate_offset b x = validate_offset a x" for x
    by (simp add: validate_offset_def descriptor_slot_def same Let_def)
  have "validate_offset a offset = Inr (slot_header a slot, slot_header a slot + 16)"
    unfolding validate_offset_iff [OF pos] using slot off by blast
  moreover have "load_generation (slot_header a slot) (ar_map b) = g"
    using inside g len by (simp add: b load_generation_def store_generation_def get_le_put_same u64_max_def)
  moreover have "get_le 4 (slot_header a slot + 8) (ar_map b) = length payload"
    using inside len by (simp add: b store_generation_def get_le_put_other get_le_put_same u32_max_def)
  moreover have "take (length payload) (drop (slot_header a slot + 16) (ar_map b)) = payload"
    using inside len by (simp add: b store_generation_def take_drop_put_other take_drop_put_same)
  ultimately show "arena_read b d = Inr payload" using len by (simp add: arena_read_def vb d same)
  show "arena_read b e = arena_read a e" if "dr_offset e \<noteq> offset" for e
  proof (cases "validate_offset a (dr_offset e)")
    case (Inr hp)
    obtain h p where hp: "hp = (h, p)" by (cases hp)
    obtain other where o: "other < ar_slot_count a" "h = slot_header a other" "p = h + 16" "dr_offset e = p"
      using Inr unfolding hp validate_offset_iff [OF pos] by blast
    have "other \<noteq> slot" using that off o by auto
    note apart = slots_apart [OF this, of a] slot_inside [OF wf o(1)]
    have stride: "16 + ar_slot_capacity a \<le> ar_slot_stride a" using wf by (simp add: arena_wf_def SLOT_HEADER_BYTES_def)
    have keep: "take n (drop x (ar_map b)) = take n (drop x (ar_map a))"
      if "h \<le> x" "x + n \<le> h + ar_slot_stride a" for n x
      using that apart inside len stride o(2) by (auto simp: b store_generation_def take_drop_put_other)
    have "load_generation h (ar_map b) = load_generation h (ar_map a)" "get_le 4 (h + 8) (ar_map b) = get_le 4 (h + 8) (ar_map a)"
      using keep [of h 8] keep [of "h + 8" 4] stride by (simp_all add: load_generation_def get_le_def)
    moreover have "take n (drop p (ar_map b)) = take n (drop p (ar_map a))" if "n \<le> ar_slot_capacity a" for n
      using keep [of p n] that stride o(3) by simp
    ultimately show ?thesis by (simp add: arena_read_def vb Inr hp same Let_def)
  qed (simp add: arena_read_def vb)
qed

section \<open>No torn payload is returned\<close>



















end
