(* ===== verification/Restore_Grants.thy ===== *)
theory Restore_Grants
  imports Wire_Primitives
begin

text \<open>
  The restore grants that the Cache Manager and an inference engine share (\<open>orbitkv-channel/src/completion.rs\<close>).
  A mapping of 64-bit words holds 1024 records and a bank of restore plans. \<open>co_words\<close> is the mapping, read and written
  at byte offsets; \<open>co_plans\<close> are the ranges of the bank that the Manager has handed out. A method that retries a
  compare-exchange is a recursive function that ends with the exchange that succeeds. Creating the memory file and
  writing the event descriptors is I/O and taken to succeed; a written descriptor is a flag.
\<close>

section \<open>Layout of the mapping\<close>

definition RESTORE_COMPLETION_SLOTS :: nat where "RESTORE_COMPLETION_SLOTS = 1024"
definition RESTORE_ERROR_BYTES :: nat where "RESTORE_ERROR_BYTES = 88"
definition RESTORE_PLAN_BYTES :: nat where "RESTORE_PLAN_BYTES = 1048576"
definition GRANT_HEADER_BYTES :: nat where "GRANT_HEADER_BYTES = 4096"
definition RECORD_BYTES :: nat where "RECORD_BYTES = 192"
definition PLAN_OFFSET :: nat where "PLAN_OFFSET = GRANT_HEADER_BYTES + RESTORE_COMPLETION_SLOTS * RECORD_BYTES"
definition MAPPING_BYTES :: nat where "MAPPING_BYTES = PLAN_OFFSET + RESTORE_PLAN_BYTES"
definition GRANT_MAGIC_VERSION :: nat where "GRANT_MAGIC_VERSION = 0x00054F524243"
definition NEXT_OPERATION_OFFSET :: nat where "NEXT_OPERATION_OFFSET = 24"
definition DIRTY_OFFSET :: nat where "DIRTY_OFFSET = 64"
definition DIRTY_WORDS :: nat where "DIRTY_WORDS = 16"
definition MAX_OPERATION_ID :: nat where "MAX_OPERATION_ID = 2 ^ 60 - 1"

named_theorems grant_layout "the offsets of the mapping of restore grants"

lemmas [grant_layout] = RESTORE_COMPLETION_SLOTS_def RESTORE_PLAN_BYTES_def GRANT_HEADER_BYTES_def RECORD_BYTES_def
  PLAN_OFFSET_def MAPPING_BYTES_def NEXT_OPERATION_OFFSET_def DIRTY_OFFSET_def DIRTY_WORDS_def

record restore_timing =
  readiness_ns :: nat
  dispatched_ns :: nat
  dequeued_ns :: nat
  claimed_ns :: nat
  submitted_ns :: nat
  drained_ns :: nat

definition timing_valid :: "restore_timing \<Rightarrow> bool" where
  "timing_valid t \<longleftrightarrow> readiness_ns t \<le> dispatched_ns t \<and> dispatched_ns t \<le> dequeued_ns t \<and>
     dequeued_ns t \<le> claimed_ns t \<and> claimed_ns t \<le> drained_ns t \<and> drained_ns t > 0 \<and> drained_ns t \<le> 86400000000000 \<and>
     (submitted_ns t = 0 \<or> claimed_ns t \<le> submitted_ns t \<and> submitted_ns t \<le> drained_ns t)"

datatype grant_state =
    Reserved | Preparing | CancelRequested | Granted | Active | Drained | Revoked | Managed | Reaped | Acknowledged
  | GrantedMore | ActiveMore | PartDrained

fun grant_tag :: "grant_state \<Rightarrow> nat" where
  "grant_tag Reserved = 0"
| "grant_tag Preparing = 1"
| "grant_tag CancelRequested = 2"
| "grant_tag Granted = 3"
| "grant_tag Active = 4"
| "grant_tag Drained = 5"
| "grant_tag Revoked = 6"
| "grant_tag Managed = 7"
| "grant_tag Reaped = 8"
| "grant_tag Acknowledged = 9"
| "grant_tag GrantedMore = 10"
| "grant_tag ActiveMore = 11"
| "grant_tag PartDrained = 12"

datatype completion_error =
    InvalidMapping | GrantsFull | PlanFull | GrantsExhausted | GrantStale nat | InvalidGrantPayload

text \<open>The text of an error.\<close>

fun completion_text :: "completion_error \<Rightarrow> bytes" where
  "completion_text InvalidMapping = ascii ''invalid restore grant mapping or session identity''"
| "completion_text GrantsFull = ascii ''all restore grant slots are unconsumed''"
| "completion_text PlanFull = ascii ''restore plan bank exhausted''"
| "completion_text GrantsExhausted = ascii ''restore operation ids exhausted''"
| "completion_text (GrantStale i) = ascii ''unknown, consumed, or invalid-state restore operation '' @ decimal i"
| "completion_text InvalidGrantPayload = ascii ''invalid restore grant payload''"

definition grant_decode :: "nat \<Rightarrow> completion_error + grant_state" where
  "grant_decode tag =
     (let t = tag mod 16 in
      if t = 0 then Inr Reserved else if t = 1 then Inr Preparing else if t = 2 then Inr CancelRequested
      else if t = 3 then Inr Granted else if t = 4 then Inr Active else if t = 5 then Inr Drained
      else if t = 6 then Inr Revoked else if t = 7 then Inr Managed else if t = 8 then Inr Reaped
      else if t = 9 then Inr Acknowledged else if t = 10 then Inr GrantedMore else if t = 11 then Inr ActiveMore
      else if t = 12 then Inr PartDrained else Inl InvalidGrantPayload)"

datatype restore_state = RestorePending | RestoreSucceeded | RestoreFailed

record restore_response =
  rr_operation_id :: nat
  rr_state :: restore_state
  rr_message :: bytes

record completions =
  co_words :: "nat \<Rightarrow> nat"
  co_plans :: "(nat, nat \<times> nat) btree"
  co_notified :: bool
  co_manager_notified :: bool

definition completions_create :: "nat \<Rightarrow> nat \<Rightarrow> completions" where
  "completions_create epoch token =
     \<lparr>co_words = (\<lambda>_. 0)(0 := GRANT_MAGIC_VERSION, 8 := epoch, NEXT_OPERATION_OFFSET := 1, 16 := token),
      co_plans = [], co_notified = False, co_manager_notified = False\<rparr>"

definition completions_open :: "(nat \<Rightarrow> nat) \<Rightarrow> nat \<Rightarrow> nat \<Rightarrow> completion_error + completions" where
  "completions_open ws epoch token =
     (if ws 16 \<noteq> token \<or> ws 8 \<noteq> epoch \<or> ws 0 \<noteq> GRANT_MAGIC_VERSION then Inl InvalidMapping
      else Inr \<lparr>co_words = ws, co_plans = [], co_notified = False, co_manager_notified = False\<rparr>)"

section \<open>Records\<close>

definition load :: "nat \<Rightarrow> completions \<Rightarrow> nat" where
  "load off c = co_words c off"

definition store :: "nat \<Rightarrow> nat \<Rightarrow> completions \<Rightarrow> completions" where
  "store off v c = c\<lparr>co_words := (co_words c)(off := v)\<rparr>"

definition grant_offset :: "nat \<Rightarrow> completion_error + nat" where
  "grant_offset i =
     (if i = 0 \<or> i > MAX_OPERATION_ID then Inl (GrantStale i)
      else Inr (GRANT_HEADER_BYTES + i mod RESTORE_COMPLETION_SLOTS * RECORD_BYTES))"

definition transition :: "nat \<Rightarrow> grant_state \<Rightarrow> grant_state \<Rightarrow> completions \<Rightarrow> (completion_error + unit) \<times> completions" where
  "transition i src dst c =
     (case grant_offset i of
        Inl e \<Rightarrow> (Inl e, c)
      | Inr rec \<Rightarrow>
          if load rec c = i * 16 + grant_tag src then (Inr (), store rec (i * 16 + grant_tag dst) c)
          else (Inl (GrantStale i), c))"

definition grant_state_of :: "nat \<Rightarrow> completions \<Rightarrow> completion_error + grant_state" where
  "grant_state_of i c =
     rbind (grant_offset i) (\<lambda>rec. let tag = load rec c in
       if tag div 16 \<noteq> i then Inl (GrantStale i) else grant_decode tag)"

fun reserve_loop :: "nat \<Rightarrow> completions \<Rightarrow> (completion_error + nat) \<times> completions" where
  "reserve_loop 0 c = (Inl GrantsFull, c)"
| "reserve_loop (Suc n) c =
     (let i = load NEXT_OPERATION_OFFSET c in
      if i = 0 \<or> i > MAX_OPERATION_ID then (Inl GrantsExhausted, c)
      else
        let c1 = store NEXT_OPERATION_OFFSET (i + 1) c in
        case grant_offset i of
          Inl e \<Rightarrow> (Inl e, c1)
        | Inr rec \<Rightarrow>
            let tag = load rec c1 in
            if (tag = 0 \<or> tag mod 16 = grant_tag Acknowledged) \<and> i > tag div 16
            then (Inr i, store rec (i * 16) c1)
            else reserve_loop n c1)"

definition reserve_grant :: "completions \<Rightarrow> (completion_error + nat) \<times> completions" where
  "reserve_grant = reserve_loop RESTORE_COMPLETION_SLOTS"

definition claim_grant :: "nat \<Rightarrow> completions \<Rightarrow> (completion_error + unit) \<times> completions" where
  "claim_grant i = transition i Reserved Preparing"

partial_function (option) cancel_grant :: "nat \<Rightarrow> completions \<Rightarrow> ((completion_error + bool) \<times> completions) option" where
  "cancel_grant i c =
     (case grant_state_of i c of
        Inl e \<Rightarrow> Some (Inl e, c)
      | Inr st \<Rightarrow>
          if st = Reserved then
            (case transition i Reserved Acknowledged c of
               (Inr _, c1) \<Rightarrow> Some (Inr True, c1)
             | (Inl _, c1) \<Rightarrow> cancel_grant i c1)
          else if st = Preparing then
            (case transition i Preparing CancelRequested c of
               (Inr _, c1) \<Rightarrow> Some (Inr False, c1)
             | (Inl _, c1) \<Rightarrow> cancel_grant i c1)
          else if st = Acknowledged then Some (Inl (GrantStale i), c)
          else Some (Inr False, c))"

partial_function (option) start_managed :: "nat \<Rightarrow> completions \<Rightarrow> ((completion_error + unit) \<times> completions) option" where
  "start_managed i c =
     (case grant_state_of i c of
        Inl e \<Rightarrow> Some (Inl e, c)
      | Inr st \<Rightarrow>
          if st \<noteq> Preparing \<and> st \<noteq> CancelRequested then Some (Inl (GrantStale i), c)
          else
            (case transition i st Managed c of
               (Inr _, c1) \<Rightarrow> Some (Inr (), c1)
             | (Inl _, c1) \<Rightarrow> start_managed i c1))"

section \<open>Plans\<close>

text \<open>The words of the bank that a plan is written to, eight bytes each, the last one padded with zeros.\<close>

fun store_chunks :: "nat \<Rightarrow> bytes \<Rightarrow> (nat \<Rightarrow> nat) \<Rightarrow> nat \<Rightarrow> nat" where
  "store_chunks off bs ws =
     (if bs = [] then ws
      else store_chunks (off + 8) (drop 8 bs) (ws(off := le_nat (take 8 bs @ replicate (8 - length bs) 0))))"

declare store_chunks.simps [simp del]

definition load_chunks :: "nat \<Rightarrow> nat \<Rightarrow> (nat \<Rightarrow> nat) \<Rightarrow> bytes" where
  "load_chunks off len ws = take len (concat (map (\<lambda>k. le_bytes 8 (ws (off + k * 8))) [0..<div_ceil len 8]))"

text \<open>The first gap of the bank that is large enough, or the end of the last range; a subtraction that wraps is None.\<close>

fun plan_gap :: "nat \<Rightarrow> nat \<Rightarrow> (nat \<times> nat) list \<Rightarrow> nat option" where
  "plan_gap sz start [] = Some start"
| "plan_gap sz start ((a, b) # ranges) =
     (case usub a start of
        None \<Rightarrow> None
      | Some gap \<Rightarrow> if gap \<ge> sz then Some start else plan_gap sz b ranges)"

definition plan_size :: "bytes \<Rightarrow> nat" where
  "plan_size plan = div_ceil (length plan) 8 * 8"

text \<open>\<open>publish_local\<close> up to the compare-exchange that makes the plan claimable, and that exchange.\<close>

definition publish_store :: "nat \<Rightarrow> bytes \<Rightarrow> completions \<Rightarrow> ((completion_error + bool) \<times> completions) option" where
  "publish_store i plan c =
     (case grant_state_of i c of
        Inl e \<Rightarrow> Some (Inl e, c)
      | Inr st \<Rightarrow>
          if st = CancelRequested then Some (Inr False, c)
          else if st \<noteq> Preparing then Some (Inl (GrantStale i), c)
          else if plan = [] \<or> length plan > RESTORE_PLAN_BYTES then Some (Inl PlanFull, c)
          else if i \<in> set (bt_keys (co_plans c)) then Some (Inl (GrantStale i), c)
          else
            (case plan_gap (plan_size plan) 0 (sort_key fst (bt_values (co_plans c))) of
               None \<Rightarrow> None
             | Some start \<Rightarrow>
                 if start + plan_size plan > RESTORE_PLAN_BYTES then Some (Inl PlanFull, c)
                 else
                   (case grant_offset i of
                      Inl e \<Rightarrow> Some (Inl e, c)
                    | Inr rec \<Rightarrow>
                        Some (Inr True, c\<lparr>
                          co_words := (store_chunks (PLAN_OFFSET + start) plan (co_words c))
                            (rec + 8 := start, rec + 16 := length plan, rec + 24 := 0),
                          co_plans := bt_insert i (start, start + plan_size plan) (co_plans c)\<rparr>))))"

definition publish_grant :: "nat \<Rightarrow> bool \<Rightarrow> completions \<Rightarrow> (completion_error + bool) \<times> completions" where
  "publish_grant i again c =
     (case transition i Preparing (if again then GrantedMore else Granted) c of
        (Inr _, c1) \<Rightarrow> (Inr True, c1)
      | (Inl err, c1) \<Rightarrow>
          (case grant_state_of i c1 of
             Inl e \<Rightarrow> (Inl e, c1)
           | Inr st \<Rightarrow>
               (if st = CancelRequested then Inr False else Inl err, c1\<lparr>co_plans := bt_remove i (co_plans c1)\<rparr>)))"

definition publish_local :: "nat \<Rightarrow> bytes \<Rightarrow> bool \<Rightarrow> completions \<Rightarrow> ((completion_error + bool) \<times> completions) option" where
  "publish_local i plan again c =
     (case publish_store i plan c of
        None \<Rightarrow> None
      | Some (Inl e, c1) \<Rightarrow> Some (Inl e, c1)
      | Some (Inr stored, c1) \<Rightarrow> if stored then Some (publish_grant i again c1) else Some (Inr False, c1))"

definition mark_dirty :: "nat \<Rightarrow> completions \<Rightarrow> completions" where
  "mark_dirty i c =
     (let slot = i mod RESTORE_COMPLETION_SLOTS; off = DIRTY_OFFSET + slot div 64 * 8 in
      (store off (or (load off c) (2 ^ (slot mod 64))) c)\<lparr>co_manager_notified := True\<rparr>)"

section \<open>Results\<close>

text \<open>\<open>str::is_char_boundary\<close>, and the loop of \<open>write_result\<close> that moves back to one.\<close>

definition char_boundary :: "bytes \<Rightarrow> nat \<Rightarrow> bool" where
  "char_boundary bs k \<longleftrightarrow> k = 0 \<or> k = length bs \<or> k < length bs \<and> \<not> continuation (unat (bs ! k))"

fun boundary_before :: "bytes \<Rightarrow> nat \<Rightarrow> nat" where
  "boundary_before bs 0 = 0"
| "boundary_before bs (Suc k) = (if char_boundary bs (Suc k) then Suc k else boundary_before bs k)"

definition write_result :: "nat \<Rightarrow> bytes + unit \<Rightarrow> completions \<Rightarrow> (completion_error + unit) \<times> completions" where
  "write_result i result c =
     (case grant_offset i of
        Inl e \<Rightarrow> (Inl e, c)
      | Inr rec \<Rightarrow>
          let failed = (case result of Inr _ \<Rightarrow> 0 | Inl _ \<Rightarrow> 1);
              message = (case result of Inr _ \<Rightarrow> [] | Inl text \<Rightarrow> text);
              fin = boundary_before message (min (length message) RESTORE_ERROR_BYTES);
              message = take fin message
          in (Inr (), c\<lparr>co_words := (store_chunks (rec + 40) message (co_words c))(rec + 32 := length message * 2 + failed)\<rparr>))"

text \<open>The evidence of \<open>drained\<close>: kept only when it is valid and, for a success, shows a submission.\<close>

definition timing_evidence :: "bytes + unit \<Rightarrow> restore_timing option \<Rightarrow> restore_timing option" where
  "timing_evidence result timing =
     (case timing of
        None \<Rightarrow> None
      | Some t \<Rightarrow> if timing_valid t \<and> (\<not> isl result \<longrightarrow> submitted_ns t \<noteq> 0) then Some t else None)"

definition write_timing :: "nat \<Rightarrow> restore_timing option \<Rightarrow> (nat \<Rightarrow> nat) \<Rightarrow> nat \<Rightarrow> nat" where
  "write_timing rec timing ws =
     (case timing of
        None \<Rightarrow> ws(rec + 128 := 0)
      | Some t \<Rightarrow> (ws(rec + 136 := readiness_ns t, rec + 144 := dispatched_ns t, rec + 152 := dequeued_ns t,
            rec + 160 := claimed_ns t, rec + 168 := submitted_ns t, rec + 176 := drained_ns t))(rec + 128 := 1))"

definition drained_grant ::
  "nat \<Rightarrow> bytes + unit \<Rightarrow> restore_timing option \<Rightarrow> completions \<Rightarrow> (completion_error + bool) \<times> completions" where
  "drained_grant i result timing c =
     (case grant_state_of i c of
        Inl e \<Rightarrow> (Inl e, c)
      | Inr st \<Rightarrow>
          if st \<noteq> Active \<and> st \<noteq> ActiveMore then (Inl (GrantStale i), c)
          else
            (case grant_offset i of
               Inl e \<Rightarrow> (Inl e, c)
             | Inr rec \<Rightarrow>
                 let terminal = (st = Active \<or> isl result);
                     c1 = c\<lparr>co_words := write_timing rec (timing_evidence result timing) (co_words c)\<rparr>
                 in case write_result i result c1 of
                      (Inl e, c2) \<Rightarrow> (Inl e, c2)
                    | (Inr _, c2) \<Rightarrow>
                        (case transition i st (if terminal then Drained else PartDrained) c2 of
                           (Inl e, c3) \<Rightarrow> (Inl e, c3)
                         | (Inr _, c3) \<Rightarrow> (Inr terminal, mark_dirty i c3))))"

section \<open>Claims of plans\<close>

text \<open>\<open>claim_local\<close>: the exchange that wins the plan, the place of the plan in the bank, and the release of the plan.\<close>

definition claim_begin :: "nat \<Rightarrow> completions \<Rightarrow> (completion_error + bool) \<times> completions" where
  "claim_begin i c =
     (case grant_state_of i c of
        Inl e \<Rightarrow> (Inl e, c)
      | Inr st \<Rightarrow>
          if st = Granted \<or> st = GrantedMore then
            (case transition i st (if st = Granted then Active else ActiveMore) c of
               (Inl e, c1) \<Rightarrow> (Inl e, c1)
             | (Inr _, c1) \<Rightarrow> (Inr True, c1))
          else if st = Acknowledged then (Inl (GrantStale i), c)
          else (Inr False, c))"

definition claim_place :: "nat \<Rightarrow> completions \<Rightarrow> completion_error + nat \<times> nat" where
  "claim_place i c =
     rbind (grant_offset i) (\<lambda>rec. let off = load (rec + 8) c; len = load (rec + 16) c in
       if len = 0 \<or> off mod 8 \<noteq> 0 \<or> len > RESTORE_PLAN_BYTES \<or> off > RESTORE_PLAN_BYTES - len
       then Inl InvalidGrantPayload else Inr (off, len))"

definition claim_finish :: "nat \<Rightarrow> completions \<Rightarrow> (completion_error + unit) \<times> completions" where
  "claim_finish i c =
     (case grant_offset i of
        Inl e \<Rightarrow> (Inl e, c)
      | Inr rec \<Rightarrow> (Inr (), mark_dirty i (store (rec + 24) 1 c)))"

definition claim_local :: "nat \<Rightarrow> completions \<Rightarrow> (completion_error + bytes option) \<times> completions" where
  "claim_local i c =
     (case claim_begin i c of
        (Inl e, c1) \<Rightarrow> (Inl e, c1)
      | (Inr claimed, c1) \<Rightarrow>
          if \<not> claimed then (Inr None, c1)
          else
            (case rbind (claim_place i c1) (\<lambda>(off, len). Inr (load_chunks (PLAN_OFFSET + off) len (co_words c1))) of
               Inl e \<Rightarrow>
                 (case drained_grant i (Inl (ascii ''Restore plan rejected before execution: '' @ completion_text e)) None c1 of
                    (Inl e2, c2) \<Rightarrow> (Inl e2, c2)
                  | (Inr _, c2) \<Rightarrow> (Inl e, c2))
             | Inr plan \<Rightarrow>
                 (case claim_finish i c1 of
                    (Inl e, c2) \<Rightarrow> (Inl e, c2)
                  | (Inr _, c2) \<Rightarrow> (Inr (Some plan), c2))))"

section \<open>The Manager\<close>

text \<open>\<open>manager_updates\<close>: the dirty words are cleared one after the other, and each set bit, lowest first, gives the
  tag of its slot.\<close>

definition dirty_slots :: "nat \<Rightarrow> nat \<Rightarrow> nat list" where
  "dirty_slots index bits = map (\<lambda>b. index * 64 + b) (filter (bit bits) [0..<64])"

fun slot_updates :: "completions \<Rightarrow> nat list \<Rightarrow> completion_error + (nat \<times> grant_state) list" where
  "slot_updates c [] = Inr []"
| "slot_updates c (slot # slots) =
     (let tag = load (GRANT_HEADER_BYTES + slot * RECORD_BYTES) c in
      if tag = 0 then slot_updates c slots
      else rbind (grant_decode tag) (\<lambda>st. rbind (slot_updates c slots) (\<lambda>rest. Inr ((tag div 16, st) # rest))))"

fun dirty_updates :: "nat list \<Rightarrow> completions \<Rightarrow> (completion_error + (nat \<times> grant_state) list) \<times> completions" where
  "dirty_updates [] c = (Inr [], c)"
| "dirty_updates (index # indices) c =
     (let off = DIRTY_OFFSET + index * 8; bits = load off c; c1 = store off 0 c in
      case slot_updates c1 (dirty_slots index bits) of
        Inl e \<Rightarrow> (Inl e, c1)
      | Inr us \<Rightarrow>
          (case dirty_updates indices c1 of
             (Inl e, c2) \<Rightarrow> (Inl e, c2)
           | (Inr rest, c2) \<Rightarrow> (Inr (us @ rest), c2)))"

definition manager_updates :: "completions \<Rightarrow> (completion_error + (nat \<times> grant_state) list) \<times> completions" where
  "manager_updates c = dirty_updates [0..<DIRTY_WORDS] (c\<lparr>co_manager_notified := False\<rparr>)"

definition release_plan :: "nat \<Rightarrow> completions \<Rightarrow> (completion_error + unit) \<times> completions" where
  "release_plan i c =
     (case grant_offset i of
        Inl e \<Rightarrow> (Inl e, c)
      | Inr rec \<Rightarrow>
          (case grant_state_of i c of
             Inl e \<Rightarrow> (Inl e, c)
           | Inr st \<Rightarrow>
               if st \<notin> {Revoked, Drained, PartDrained} \<and> \<not> (st \<in> {Active, ActiveMore} \<and> load (rec + 24) c = 1)
               then (Inl (GrantStale i), c)
               else (Inr (), c\<lparr>co_plans := bt_remove i (co_plans c)\<rparr>)))"

definition continue_local :: "nat \<Rightarrow> completions \<Rightarrow> (completion_error + unit) \<times> completions" where
  "continue_local i = transition i PartDrained Preparing"

partial_function (option) revoke_grant :: "nat \<Rightarrow> completions \<Rightarrow> ((completion_error + bool) \<times> completions) option" where
  "revoke_grant i c =
     (case grant_state_of i c of
        Inl e \<Rightarrow> Some (Inl e, c)
      | Inr st \<Rightarrow>
          if st \<in> {Granted, GrantedMore, PartDrained} then
            (case transition i st Revoked c of
               (Inr _, c1) \<Rightarrow> Some (Inr True, mark_dirty i c1)
             | (Inl _, c1) \<Rightarrow> revoke_grant i c1)
          else if st \<in> {Active, ActiveMore, Drained, Revoked, Reaped, Acknowledged} then Some (Inr False, c)
          else Some (Inl (GrantStale i), c))"

definition drain_timing :: "nat \<Rightarrow> completions \<Rightarrow> completion_error + restore_timing option" where
  "drain_timing i c =
     rbind (grant_state_of i c) (\<lambda>st. if st \<noteq> Drained then Inl (GrantStale i)
       else rbind (grant_offset i) (\<lambda>rec.
         let present = (load (rec + 128) c = 1);
             timing = \<lparr>readiness_ns = load (rec + 136) c, dispatched_ns = load (rec + 144) c,
               dequeued_ns = load (rec + 152) c, claimed_ns = load (rec + 160) c,
               submitted_ns = load (rec + 168) c, drained_ns = load (rec + 176) c\<rparr>
         in Inr (if present \<and> timing_valid timing then Some timing else None)))"

definition drain_succeeded :: "nat \<Rightarrow> completions \<Rightarrow> completion_error + bool" where
  "drain_succeeded i c =
     rbind (grant_state_of i c) (\<lambda>st.
       if st = Drained then rbind (grant_offset i) (\<lambda>rec. Inr (load (rec + 32) c mod 2 = 0))
       else if st = Revoked then Inr False
       else Inl (GrantStale i))"

definition notify_engine :: "completions \<Rightarrow> completions" where
  "notify_engine c = c\<lparr>co_notified := True\<rparr>"

definition reap_grant :: "nat \<Rightarrow> completions \<Rightarrow> (completion_error + unit) \<times> completions" where
  "reap_grant i c =
     (case grant_state_of i c of
        Inl e \<Rightarrow> (Inl e, c)
      | Inr st \<Rightarrow>
          if st \<noteq> Drained \<and> st \<noteq> Revoked then (Inl (GrantStale i), c)
          else
            let c1 = c\<lparr>co_plans := bt_remove i (co_plans c)\<rparr>;
                (res, c2) = (if st = Revoked then write_result i (Inl (ascii ''restore grant revoked'')) c1 else (Inr (), c1))
            in case res of
                 Inl e \<Rightarrow> (Inl e, c2)
               | Inr _ \<Rightarrow>
                   (case transition i st Reaped c2 of
                      (Inl e, c3) \<Rightarrow> (Inl e, c3)
                    | (Inr _, c3) \<Rightarrow> (Inr (), notify_engine c3)))"

partial_function (option) reject_grant ::
  "nat \<Rightarrow> bytes \<Rightarrow> completions \<Rightarrow> ((completion_error + unit) \<times> completions) option" where
  "reject_grant i message c =
     (case grant_state_of i c of
        Inl e \<Rightarrow> Some (Inl e, c)
      | Inr st \<Rightarrow>
          if st \<noteq> Preparing \<and> st \<noteq> CancelRequested then Some (Inl (GrantStale i), c)
          else
            (case write_result i (Inl message) c of
               (Inl e, c1) \<Rightarrow> Some (Inl e, c1)
             | (Inr _, c1) \<Rightarrow>
                 (case transition i st Reaped c1 of
                    (Inr _, c2) \<Rightarrow> Some (Inr (), notify_engine c2)
                  | (Inl _, c2) \<Rightarrow> reject_grant i message c2)))"

definition finish_cancelled :: "nat \<Rightarrow> completions \<Rightarrow> ((completion_error + unit) \<times> completions) option" where
  "finish_cancelled i = reject_grant i (ascii ''restore preparation cancelled'')"

definition complete_grant :: "nat \<Rightarrow> bytes + unit \<Rightarrow> completions \<Rightarrow> (completion_error + unit) \<times> completions" where
  "complete_grant i result c =
     (case grant_state_of i c of
        Inl e \<Rightarrow> (Inl e, c)
      | Inr st \<Rightarrow>
          if st \<noteq> Managed then (Inl (GrantStale i), c)
          else
            (case write_result i result c of
               (Inl e, c1) \<Rightarrow> (Inl e, c1)
             | (Inr _, c1) \<Rightarrow> transition i Managed Reaped c1))"

definition poll_grant :: "nat \<Rightarrow> completions \<Rightarrow> (completion_error + restore_response) \<times> completions" where
  "poll_grant i c =
     (case grant_offset i of
        Inl e \<Rightarrow> (Inl e, c)
      | Inr rec \<Rightarrow>
          (case grant_state_of i c of
             Inl e \<Rightarrow> (Inl e, c)
           | Inr st \<Rightarrow>
               if st = Acknowledged then (Inl (GrantStale i), c)
               else if st \<noteq> Reaped then
                 (Inr \<lparr>rr_operation_id = i, rr_state = RestorePending, rr_message = []\<rparr>, c)
               else
                 let result = load (rec + 32) c; len = result div 2 in
                 if len > RESTORE_ERROR_BYTES then (Inl InvalidGrantPayload, c)
                 else
                   let message = load_chunks (rec + 40) len (co_words c) in
                   case transition i Reaped Acknowledged c of
                     (Inl e, c1) \<Rightarrow> (Inl e, c1)
                   | (Inr _, c1) \<Rightarrow>
                       (if utf8_valid message
                        then Inr \<lparr>rr_operation_id = i,
                          rr_state = (if result mod 2 = 0 then RestoreSucceeded else RestoreFailed), rr_message = message\<rparr>
                        else Inl InvalidGrantPayload, c1)))"

section \<open>Words of the mapping\<close>

text \<open>The record of an operation, what it holds, and the bytes of the bank.\<close>

definition rec_of :: "nat \<Rightarrow> nat" where
  "rec_of i = GRANT_HEADER_BYTES + i mod RESTORE_COMPLETION_SLOTS * RECORD_BYTES"

definition holds :: "nat \<Rightarrow> grant_state \<Rightarrow> completions \<Rightarrow> bool" where
  "holds i st c \<longleftrightarrow> 0 < i \<and> i \<le> MAX_OPERATION_ID \<and> load (rec_of i) c = i * 16 + grant_tag st"

lemma grant_offset_eq: "grant_offset i = (if 0 < i \<and> i \<le> MAX_OPERATION_ID then Inr (rec_of i) else Inl (GrantStale i))"
  by (simp add: grant_offset_def rec_of_def)

lemma rec_inside: "rec_of i + 192 \<le> PLAN_OFFSET" "4096 \<le> rec_of i"
proof -
  have "i mod 1024 \<le> 1023" by (simp add: less_Suc_eq_le [symmetric])
  then show "rec_of i + 192 \<le> PLAN_OFFSET" "4096 \<le> rec_of i" by (simp_all add: rec_of_def grant_layout)
qed

lemma rec_apart:
  assumes "i mod RESTORE_COMPLETION_SLOTS \<noteq> j mod RESTORE_COMPLETION_SLOTS"
  shows "rec_of i + 192 \<le> rec_of j \<or> rec_of j + 192 \<le> rec_of i"
  using assms by (simp add: rec_of_def grant_layout) arith

lemma grant_tag_inject [simp]: "grant_tag a = grant_tag b \<longleftrightarrow> a = b"
  by (cases a; cases b) auto

lemma grant_tag_less: "grant_tag a < 16"
  by (cases a) auto

lemma grant_decode_iff: "grant_decode tag = Inr st \<longleftrightarrow> tag mod 16 = grant_tag st"
  by (cases st) (auto simp: grant_decode_def Let_def split: if_splits)

lemma grant_decode_tag [simp]: "grant_decode (i * 16 + grant_tag st) = Inr st"
  by (simp add: grant_decode_iff grant_tag_less)

lemma holds_inject: "holds i a c \<Longrightarrow> holds i b c \<Longrightarrow> a = b"
  by (simp add: holds_def)

lemma holds_slot: "holds i a c \<Longrightarrow> holds j b c \<Longrightarrow> i mod RESTORE_COMPLETION_SLOTS = j mod RESTORE_COMPLETION_SLOTS \<Longrightarrow> i = j"
  using grant_tag_less [of a] grant_tag_less [of b] by (simp add: holds_def rec_of_def)

lemma grant_state_of_iff: "grant_state_of i c = Inr st \<longleftrightarrow> holds i st c"
proof
  assume "grant_state_of i c = Inr st"
  then have "0 < i \<and> i \<le> MAX_OPERATION_ID" "load (rec_of i) c div 16 = i" "load (rec_of i) c mod 16 = grant_tag st"
    by (auto simp: grant_state_of_def grant_offset_eq rbind_eq_Inr_iff grant_decode_iff Let_def split: if_splits)
  then show "holds i st c" using div_mult_mod_eq [of "load (rec_of i) c" 16] by (simp add: holds_def)
next
  assume "holds i st c"
  then show "grant_state_of i c = Inr st"
    using grant_tag_less [of st] by (simp add: grant_state_of_def grant_offset_eq holds_def Let_def grant_decode_iff)
qed

definition set_state :: "nat \<Rightarrow> grant_state \<Rightarrow> completions \<Rightarrow> completions" where
  "set_state i st c = store (rec_of i) (i * 16 + grant_tag st) c"

lemma transition_eq:
  "transition i a b c = (if holds i a c then (Inr (), set_state i b c) else (Inl (GrantStale i), c))"
  by (auto simp: transition_def grant_offset_eq holds_def set_state_def)

text \<open>A move of one record: only its tag, its result and timing words and the dirty words change.\<close>

definition quiet :: "nat \<Rightarrow> completions \<Rightarrow> completions \<Rightarrow> bool" where
  "quiet i c d \<longleftrightarrow> co_plans d = co_plans c \<and>
     (\<forall>off. off \<noteq> rec_of i \<longrightarrow> \<not> (rec_of i + 32 \<le> off \<and> off < rec_of i + 192) \<longrightarrow> \<not> (64 \<le> off \<and> off < 192) \<longrightarrow>
       co_words d off = co_words c off)"

definition moves :: "nat \<Rightarrow> grant_state \<Rightarrow> grant_state \<Rightarrow> completions \<Rightarrow> completions \<Rightarrow> bool" where
  "moves i a b c d \<longleftrightarrow> holds i a c \<and> holds i b d \<and> quiet i c d"

lemma quiet_refl [simp]: "quiet i c c"
  by (simp add: quiet_def)

lemma quiet_trans: "quiet i c d \<Longrightarrow> quiet i d e \<Longrightarrow> quiet i c e"
  by (simp add: quiet_def)

lemma quiet_set_state [simp]: "quiet i c (set_state i b c)"
  by (simp add: quiet_def set_state_def store_def)

lemma holds_set_state [simp]: "holds i a c \<Longrightarrow> holds i b (set_state i b c)"
  by (simp add: holds_def set_state_def store_def load_def)

lemma quiet_mark_dirty [simp]: "quiet i c (mark_dirty i c)"
proof -
  have "i mod 1024 div 64 \<le> 15" by (rule order_trans [OF div_le_mono [of _ 1023]]) (simp_all add: less_Suc_eq_le [symmetric])
  then show ?thesis by (auto simp: quiet_def mark_dirty_def Let_def store_def grant_layout)
qed

lemma holds_dirty [simp]: "holds i a (mark_dirty j c) = holds i a c"
proof -
  have "j mod 1024 div 64 \<le> 15" by (rule order_trans [OF div_le_mono [of _ 1023]]) (simp_all add: less_Suc_eq_le [symmetric])
  then have "rec_of i \<noteq> DIRTY_OFFSET + j mod RESTORE_COMPLETION_SLOTS div 64 * 8"
    using rec_inside(2) [of i] by (simp add: grant_layout)
  then show ?thesis by (simp add: holds_def mark_dirty_def Let_def store_def load_def)
qed

lemma moves_set_state: "holds i a c \<Longrightarrow> moves i a b c (set_state i b c)"
  by (simp add: moves_def)

lemma div_ceil_step:
  assumes "0 < n"
  shows "div_ceil n 8 = Suc (div_ceil (n - 8) 8)"
proof (cases "n < 8")
  case False
  then obtain m where "n = 8 + m" by (metis le_add_diff_inverse not_less)
  then show ?thesis by (simp add: div_ceil_def)
qed (use assms in \<open>simp add: div_ceil_def\<close>)

lemma store_chunks_Nil [simp]: "store_chunks off [] ws = ws"
  by (simp add: store_chunks.simps)

lemma store_chunks_other:
  "x < off \<or> off + div_ceil (length bs) 8 * 8 \<le> x \<Longrightarrow> store_chunks off bs ws x = ws x"
proof (induction off bs ws rule: store_chunks.induct)
  case (1 off bs ws)
  show ?case
  proof (cases "bs = []")
    case False
    let ?w = "ws(off := le_nat (take 8 bs @ replicate (8 - length bs) 0))"
    have "store_chunks (off + 8) (drop 8 bs) ?w x = ?w x"
      using "1.prems" div_ceil_step [of "length bs"] False by (intro "1.IH") auto
    then show ?thesis using "1.prems" div_ceil_step [of "length bs"] False by (auto simp: store_chunks.simps [of off bs])
  qed simp
qed

lemma load_chunks_step:
  assumes "0 < len"
  shows "load_chunks off len ws = take len (le_bytes 8 (ws off)) @ load_chunks (off + 8) (len - 8) ws"
proof -
  have "[0..<div_ceil len 8] = 0 # map Suc [0..<div_ceil (len - 8) 8]"
    using div_ceil_step [OF assms] by (simp add: map_Suc_upt upt_conv_Cons)
  then show ?thesis by (simp add: load_chunks_def o_def add.assoc)
qed

lemma load_chunks_0 [simp]: "load_chunks off 0 ws = []"
  by (simp add: load_chunks_def)

lemma load_chunks_cong:
  assumes "\<And>k. k < div_ceil len 8 \<Longrightarrow> ws (off + k * 8) = vs (off + k * 8)"
  shows "load_chunks off len ws = load_chunks off len vs"
proof -
  have "map (\<lambda>k. le_bytes 8 (ws (off + k * 8))) [0..<div_ceil len 8] = map (\<lambda>k. le_bytes 8 (vs (off + k * 8))) [0..<div_ceil len 8]"
    using assms by simp
  then show ?thesis by (simp only: load_chunks_def)
qed

lemma load_store_chunks: "load_chunks off (length bs) (store_chunks off bs ws) = bs"
proof (induction off bs ws rule: store_chunks.induct)
  case (1 off bs ws)
  show ?case
  proof (cases "bs = []")
    case False
    let ?w = "ws(off := le_nat (take 8 bs @ replicate (8 - length bs) 0))"
    have len: "length (take 8 bs @ replicate (8 - length bs) 0) = 8" by simp
    have "store_chunks (off + 8) (drop 8 bs) ?w off = ?w off" by (rule store_chunks_other) simp
    then have "store_chunks off bs ws off = le_nat (take 8 bs @ replicate (8 - length bs) 0)"
      using False by (simp add: store_chunks.simps [of off bs])
    then have "le_bytes 8 (store_chunks off bs ws off) = take 8 bs @ replicate (8 - length bs) 0"
      using le_bytes_le_nat [of "take 8 bs @ replicate (8 - length bs) 0"] len by simp
    then have "take (length bs) (le_bytes 8 (store_chunks off bs ws off)) = take 8 bs" by (cases "length bs \<le> 8") auto
    moreover have "load_chunks (off + 8) (length bs - 8) (store_chunks off bs ws) = drop 8 bs"
      using 1 [OF False] False by (simp add: store_chunks.simps [of off bs] fun_upd_def)
    ultimately show ?thesis using False by (simp add: load_chunks_step [of "length bs"])
  qed simp
qed

lemma length_load_chunks [simp]: "length (load_chunks off len ws) = len"
proof (induction len arbitrary: off rule: less_induct)
  case (less len)
  then show ?case by (cases "len = 0") (auto simp: load_chunks_step [of len])
qed

lemma boundary_before_le: "boundary_before bs k \<le> k"
  by (induction bs k rule: boundary_before.induct) auto

lemma boundary_before_boundary: "char_boundary bs (boundary_before bs k)"
  by (induction bs k rule: boundary_before.induct) (auto simp: char_boundary_def)

section \<open>What each operation does to the record of its operation\<close>

definition clipped :: "bytes + unit \<Rightarrow> bytes" where
  "clipped result = (case result of Inr _ \<Rightarrow> []
     | Inl text \<Rightarrow> take (boundary_before text (min (length text) RESTORE_ERROR_BYTES)) text)"

definition result_stored :: "nat \<Rightarrow> bytes + unit \<Rightarrow> completions \<Rightarrow> bool" where
  "result_stored i result c \<longleftrightarrow>
     load (rec_of i + 32) c = length (clipped result) * 2 + (if isl result then 1 else 0) \<and>
     load_chunks (rec_of i + 40) (length (clipped result)) (co_words c) = clipped result"

lemma length_clipped: "length (clipped result) \<le> 88"
  using boundary_before_le [of _ "min _ RESTORE_ERROR_BYTES"]
  by (auto simp: clipped_def RESTORE_ERROR_BYTES_def split: sum.split intro: order_trans [OF min.cobounded2] min.coboundedI2 le_trans)

lemma write_result_spec:
  assumes "0 < i" and "i \<le> MAX_OPERATION_ID"
  obtains d where "write_result i result c = (Inr (), d)" "quiet i c d" "load (rec_of i) d = load (rec_of i) c" "result_stored i result d"
proof -
  let ?m = "clipped result"
  let ?w = "(store_chunks (rec_of i + 40) ?m (co_words c))(rec_of i + 32 := length ?m * 2 + (if isl result then 1 else 0))"
  let ?d = "c\<lparr>co_words := ?w\<rparr>"
  have "div_ceil (length ?m) 8 \<le> div_ceil 88 8"
    using length_clipped [of result] div_le_mono [of "length ?m" 87 8] by (cases "length ?m = 88") (auto simp: div_ceil_def)
  then have n: "div_ceil (length ?m) 8 * 8 \<le> 88" by (simp add: div_ceil_def)
  have other: "?w x = co_words c x" if "x \<noteq> rec_of i + 32" "x < rec_of i + 40 \<or> rec_of i + 128 \<le> x" for x
    using that n store_chunks_other [of x "rec_of i + 40" ?m "co_words c"] by auto
  have "write_result i result c = (Inr (), ?d)"
    using assms by (simp add: write_result_def grant_offset_eq clipped_def Let_def split: sum.split)
  moreover have "quiet i c ?d" using other by (auto simp: quiet_def)
  moreover have "load (rec_of i) ?d = load (rec_of i) c" using other [of "rec_of i"] by (simp add: load_def)
  moreover have "load_chunks (rec_of i + 40) (length ?m) ?w = load_chunks (rec_of i + 40) (length ?m) (store_chunks (rec_of i + 40) ?m (co_words c))"
    by (rule load_chunks_cong) simp
  then have "result_stored i result ?d" by (simp add: result_stored_def load_def load_store_chunks)
  ultimately show ?thesis by (rule that)
qed

lemma holds_range: "holds i a c \<Longrightarrow> 0 < i \<and> i \<le> MAX_OPERATION_ID"
  by (simp add: holds_def)

lemma cancel_grant_eq:
  "cancel_grant i c = Some (case grant_state_of i c of
     Inl e \<Rightarrow> (Inl e, c)
   | Inr st \<Rightarrow> if st = Reserved then (Inr True, set_state i Acknowledged c)
       else if st = Preparing then (Inr False, set_state i CancelRequested c)
       else if st = Acknowledged then (Inl (GrantStale i), c) else (Inr False, c))"
proof (cases "grant_state_of i c")
  case (Inr st)
  then have "holds i st c" by (simp add: grant_state_of_iff)
  then show ?thesis using Inr by (subst cancel_grant.simps) (auto simp: transition_eq)
qed (subst cancel_grant.simps, simp)

lemma start_managed_eq:
  "start_managed i c = Some (case grant_state_of i c of
     Inl e \<Rightarrow> (Inl e, c)
   | Inr st \<Rightarrow> if st = Preparing \<or> st = CancelRequested then (Inr (), set_state i Managed c) else (Inl (GrantStale i), c))"
proof (cases "grant_state_of i c")
  case (Inr st)
  then have "holds i st c" by (simp add: grant_state_of_iff)
  then show ?thesis using Inr by (subst start_managed.simps) (auto simp: transition_eq)
qed (subst start_managed.simps, simp)

lemma revoke_grant_eq:
  "revoke_grant i c = Some (case grant_state_of i c of
     Inl e \<Rightarrow> (Inl e, c)
   | Inr st \<Rightarrow> if st \<in> {Granted, GrantedMore, PartDrained} then (Inr True, mark_dirty i (set_state i Revoked c))
       else if st \<in> {Active, ActiveMore, Drained, Revoked, Reaped, Acknowledged} then (Inr False, c)
       else (Inl (GrantStale i), c))"
proof (cases "grant_state_of i c")
  case (Inr st)
  then have "holds i st c" by (simp add: grant_state_of_iff)
  then show ?thesis using Inr by (subst revoke_grant.simps) (auto simp: transition_eq)
qed (subst revoke_grant.simps, simp)

text \<open>The end of an operation: a result is written and the record moves on.\<close>

lemma moves_written:
  assumes "quiet i c d" and "load (rec_of i) d = load (rec_of i) c" and "holds i a c"
  shows "holds i a d" and "moves i a b c (set_state i b d)"
  using assms by (auto simp: moves_def holds_def intro: quiet_trans) (simp_all add: set_state_def store_def load_def)

lemma result_stored_state [simp]: "result_stored i result (set_state i b c) = result_stored i result c"
proof -
  have "load_chunks (rec_of i + 40) n ((co_words c)(rec_of i := v)) = load_chunks (rec_of i + 40) n (co_words c)" for n v
    by (rule load_chunks_cong) simp
  then show ?thesis by (simp add: result_stored_def set_state_def store_def load_def)
qed

lemma notify_simps [simp]:
  "co_words (notify_engine c) = co_words c" "co_plans (notify_engine c) = co_plans c" "load x (notify_engine c) = load x c"
  "holds i a (notify_engine c) = holds i a c" "quiet i c (notify_engine d) = quiet i c d"
  "moves i a b c (notify_engine d) = moves i a b c d" "result_stored i r (notify_engine c) = result_stored i r c"
  by (simp_all add: notify_engine_def load_def holds_def quiet_def moves_def result_stored_def)

lemma dirty_words:
  assumes "4096 \<le> x"
  shows "co_words (mark_dirty i c) x = co_words c x"
proof -
  have "i mod 1024 div 64 \<le> 15" by (rule order_trans [OF div_le_mono [of _ 1023]]) (simp_all add: less_Suc_eq_le [symmetric])
  then show ?thesis using assms by (simp add: mark_dirty_def Let_def store_def grant_layout)
qed

lemma co_plans_dirty [simp]: "co_plans (mark_dirty i c) = co_plans c"
  by (simp add: mark_dirty_def Let_def store_def)

lemma moves_dirty: "moves i a b c d \<Longrightarrow> moves i a b c (mark_dirty i d)"
  by (auto simp: moves_def intro: quiet_trans)

lemma load_dirty [simp]: "load (rec_of j + k) (mark_dirty i c) = load (rec_of j + k) c" "load (rec_of j) (mark_dirty i c) = load (rec_of j) c"
  using rec_inside(2) [of j] by (simp_all add: load_def dirty_words)

lemma load_chunks_dirty [simp]: "load_chunks (rec_of j + k) n (co_words (mark_dirty i c)) = load_chunks (rec_of j + k) n (co_words c)"
  using rec_inside(2) [of j] by (intro load_chunks_cong dirty_words) simp

lemma result_stored_dirty [simp]: "result_stored j r (mark_dirty i c) = result_stored j r c"
  by (simp add: result_stored_def)

lemma reject_grant_spec:
  assumes "reject_grant i message c = Some (r, d)"
  shows "d = c \<and> isl r \<or> (\<exists>a \<in> {Preparing, CancelRequested}. moves i a Reaped c d \<and> result_stored i (Inl message) d \<and> r = Inr ())"
proof (cases "grant_state_of i c")
  case (Inl e)
  then show ?thesis using assms by (subst (asm) reject_grant.simps) auto
next
  case (Inr st)
  then have h: "holds i st c" by (simp add: grant_state_of_iff)
  obtain e where e: "write_result i (Inl message) c = (Inr (), e)" "quiet i c e" "load (rec_of i) e = load (rec_of i) c" "result_stored i (Inl message) e"
    using h holds_range write_result_spec by blast
  show ?thesis using assms Inr e moves_written [OF e(2,3) h]
    by (subst (asm) reject_grant.simps) (auto simp: transition_eq split: if_splits)
qed

lemma reject_grant_returns: "\<exists>r d. reject_grant i message c = Some (r, d)"
proof (cases "grant_state_of i c")
  case (Inl e)
  then show ?thesis by (subst reject_grant.simps) simp
next
  case (Inr st)
  then have h: "holds i st c" by (simp add: grant_state_of_iff)
  obtain e where e: "write_result i (Inl message) c = (Inr (), e)" "quiet i c e" "load (rec_of i) e = load (rec_of i) c" "result_stored i (Inl message) e"
    using h holds_range write_result_spec by blast
  show ?thesis using Inr e moves_written(1) [OF e(2,3) h] by (subst reject_grant.simps) (simp add: transition_eq)
qed

lemma reject_grant_accepts:
  assumes "holds i a c" and "a \<in> {Preparing, CancelRequested}"
  shows "\<exists>d. reject_grant i message c = Some (Inr (), d)"
proof -
  have st: "grant_state_of i c = Inr a" using assms(1) by (simp only: grant_state_of_iff)
  obtain e where e: "write_result i (Inl message) c = (Inr (), e)" "quiet i c e" "load (rec_of i) e = load (rec_of i) c" "result_stored i (Inl message) e"
    using assms(1) holds_range write_result_spec by blast
  show ?thesis using st e moves_written(1) [OF e(2,3) assms(1)] assms(2) by (subst reject_grant.simps) (auto simp: transition_eq)
qed

lemma complete_grant_spec:
  assumes "complete_grant i result c = (r, d)"
  shows "d = c \<and> isl r \<or> moves i Managed Reaped c d \<and> result_stored i result d \<and> r = Inr ()"
proof (cases "grant_state_of i c = Inr Managed")
  case True
  then have h: "holds i Managed c" by (simp add: grant_state_of_iff)
  obtain e where e: "write_result i result c = (Inr (), e)" "quiet i c e" "load (rec_of i) e = load (rec_of i) c" "result_stored i result e"
    using h holds_range write_result_spec by blast
  show ?thesis using assms True e moves_written [OF e(2,3) h] by (auto simp: complete_grant_def transition_eq)
next
  case False
  then show ?thesis using assms by (auto simp: complete_grant_def split: sum.splits if_splits)
qed

lemma write_timing_quiet:
  "quiet i c (c\<lparr>co_words := write_timing (rec_of i) t (co_words c)\<rparr>)"
  "load (rec_of i) (c\<lparr>co_words := write_timing (rec_of i) t (co_words c)\<rparr>) = load (rec_of i) c"
  by (auto simp: quiet_def write_timing_def load_def split: option.split)

lemma drained_grant_spec:
  assumes "drained_grant i result timing c = (r, d)"
  shows "d = c \<and> isl r \<or>
    (\<exists>a \<in> {Active, ActiveMore}. \<exists>b. moves i a b c d \<and> result_stored i result d \<and> r = Inr (b = Drained) \<and>
       b = (if a = Active \<or> isl result then Drained else PartDrained))"
proof (cases "grant_state_of i c")
  case (Inl e)
  then show ?thesis using assms by (auto simp: drained_grant_def)
next
  case (Inr st)
  then have h: "holds i st c" by (simp add: grant_state_of_iff)
  then have rng: "0 < i" "i \<le> MAX_OPERATION_ID" by (simp_all add: holds_def)
  let ?c = "c\<lparr>co_words := write_timing (rec_of i) (timing_evidence result timing) (co_words c)\<rparr>"
  obtain e where e: "write_result i result ?c = (Inr (), e)" "quiet i ?c e" "load (rec_of i) e = load (rec_of i) ?c" "result_stored i result e"
    using rng by (rule write_result_spec)
  have q: "quiet i c e" "load (rec_of i) e = load (rec_of i) c"
    using quiet_trans [OF write_timing_quiet(1) e(2)] e(3) write_timing_quiet(2) by simp_all
  show ?thesis using assms Inr rng e(1,4) moves_written [OF q h]
    by (auto simp: drained_grant_def grant_offset_eq Let_def transition_eq intro: moves_dirty split: if_splits)
qed

lemma reap_grant_spec:
  assumes "reap_grant i c = (r, d)"
  shows "d = c \<and> isl r \<or>
    (\<exists>a \<in> {Drained, Revoked}. moves i a Reaped (c\<lparr>co_plans := bt_remove i (co_plans c)\<rparr>) d \<and> r = Inr () \<and>
       (if a = Revoked then result_stored i (Inl (ascii ''restore grant revoked'')) d
        else \<forall>res. result_stored i res c \<longrightarrow> result_stored i res d))"
proof (cases "grant_state_of i c")
  case (Inl e)
  then show ?thesis using assms by (auto simp: reap_grant_def)
next
  case (Inr st)
  let ?c = "c\<lparr>co_plans := bt_remove i (co_plans c)\<rparr>"
  have h: "holds i st ?c" using Inr by (simp add: grant_state_of_iff holds_def load_def)
  then have rng: "0 < i" "i \<le> MAX_OPERATION_ID" by (simp_all add: holds_def)
  obtain e where e: "write_result i (Inl (ascii ''restore grant revoked'')) ?c = (Inr (), e)" "quiet i ?c e"
      "load (rec_of i) e = load (rec_of i) ?c" "result_stored i (Inl (ascii ''restore grant revoked'')) e"
    using rng by (rule write_result_spec)
  have same: "result_stored i res ?c = result_stored i res c" for res by (simp add: result_stored_def load_def)
  show ?thesis
    using assms Inr h e(1,4) moves_written [OF e(2,3) h] moves_set_state [OF h] same
    by (auto simp: reap_grant_def Let_def transition_eq split: if_splits)
qed

lemma poll_grant_spec:
  assumes "poll_grant i c = (r, d)"
  shows "d = c \<and> (\<forall>resp. r = Inr resp \<longrightarrow> rr_state resp = RestorePending) \<or>
    moves i Reaped Acknowledged c d \<and>
    (\<forall>res. result_stored i res c \<longrightarrow> utf8_valid (clipped res) \<longrightarrow>
       r = Inr \<lparr>rr_operation_id = i, rr_state = (if isl res then RestoreFailed else RestoreSucceeded), rr_message = clipped res\<rparr>)"
proof (cases "grant_state_of i c = Inr Reaped")
  case True
  then have h: "holds i Reaped c" by (simp add: grant_state_of_iff)
  then have o: "grant_offset i = Inr (rec_of i)" by (simp add: holds_def grant_offset_eq)
  show ?thesis
    using assms True o h moves_set_state [OF h]
    by (auto simp: poll_grant_def Let_def transition_eq result_stored_def split: if_splits)
next
  case False
  then show ?thesis using assms by (auto simp: poll_grant_def split: sum.splits if_splits)
qed

lemma claim_begin_spec:
  assumes "claim_begin i c = (r, d)"
  shows "d = c \<and> r \<noteq> Inr True \<or>
    r = Inr True \<and> (moves i Granted Active c d \<or> moves i GrantedMore ActiveMore c d)"
proof (cases "grant_state_of i c")
  case (Inr st)
  then have h: "holds i st c" by (simp add: grant_state_of_iff)
  then show ?thesis using assms Inr moves_set_state [OF h] by (auto simp: claim_begin_def transition_eq split: if_splits)
qed (use assms in \<open>auto simp: claim_begin_def\<close>)

lemma reserve_loop_spec:
  assumes "reserve_loop n c = (r, d)"
  shows "load NEXT_OPERATION_OFFSET c \<le> load NEXT_OPERATION_OFFSET d \<and> co_plans d = co_plans c \<and>
    (case r of
       Inl _ \<Rightarrow> \<forall>x. x \<noteq> NEXT_OPERATION_OFFSET \<longrightarrow> co_words d x = co_words c x
     | Inr i \<Rightarrow> load NEXT_OPERATION_OFFSET c \<le> i \<and> i < load NEXT_OPERATION_OFFSET d \<and> holds i Reserved d \<and>
         (load (rec_of i) c = 0 \<or> load (rec_of i) c mod 16 = grant_tag Acknowledged) \<and>
         (\<forall>x. x \<noteq> NEXT_OPERATION_OFFSET \<longrightarrow> x \<noteq> rec_of i \<longrightarrow> co_words d x = co_words c x))"
  using assms
proof (induction n arbitrary: c)
  case (Suc n)
  let ?i = "load NEXT_OPERATION_OFFSET c"
  let ?c = "store NEXT_OPERATION_OFFSET (?i + 1) c"
  have ne: "rec_of j \<noteq> NEXT_OPERATION_OFFSET" for j using rec_inside(2) [of j] by (simp add: NEXT_OPERATION_OFFSET_def)
  show ?case
  proof (cases "0 < ?i \<and> ?i \<le> MAX_OPERATION_ID")
    case False
    then show ?thesis using Suc.prems by (auto simp: Let_def)
  next
    case True
    let ?t = "load (rec_of ?i) c"
    show ?thesis
    proof (cases "(?t = 0 \<or> ?t mod 16 = grant_tag Acknowledged) \<and> ?i > ?t div 16")
      case taken: True
      then have "r = Inr ?i" "d = store (rec_of ?i) (?i * 16) ?c"
        using Suc.prems True ne [of ?i] by (auto simp: Let_def grant_offset_eq store_def load_def)
      then show ?thesis using True taken ne [of ?i] by (auto simp: store_def load_def holds_def)
    next
      case skip: False
      then have "reserve_loop n ?c = (r, d)"
        using Suc.prems True ne [of ?i] by (auto simp: Let_def grant_offset_eq store_def load_def)
      from Suc.IH [OF this] show ?thesis using ne by (auto simp: store_def load_def split: sum.splits)
    qed
  qed
qed auto

lemma utf8_step:
  assumes "utf8_nats ns" and "ns \<noteq> []"
  shows "\<exists>n. 0 < n \<and> n \<le> length ns \<and> utf8_nats (drop n ns) \<and> (\<forall>j. 0 < j \<longrightarrow> j < n \<longrightarrow> continuation (ns ! j)) \<and>
    (\<forall>ys. utf8_nats (take n ns @ ys) = utf8_nats ys)"
proof -
  obtain a r where ns: "ns = a # r" using assms(2) by (cases ns) auto
  consider (one) "a \<le> 127" | (two) "194 \<le> a" "a \<le> 223" | (three) "224 \<le> a" "a \<le> 239" | (four) "240 \<le> a" "a \<le> 244"
    using assms(1) ns by (fastforce split: if_splits)
  then show ?thesis
  proof cases
    case one
    then show ?thesis using assms(1) ns by (intro exI [of _ 1]) auto
  next
    case two
    then obtain b r' where "r = b # r'" using assms(1) ns by (auto split: list.splits)
    then show ?thesis using assms(1) ns two by (intro exI [of _ 2]) (auto simp: less_Suc_eq numeral_eq_Suc)
  next
    case three
    then obtain b c r' where "r = b # c # r'" using assms(1) ns by (auto split: list.splits)
    then show ?thesis using assms(1) ns three by (intro exI [of _ 3]) (auto simp: less_Suc_eq numeral_eq_Suc)
  next
    case four
    then obtain b c d r' where "r = b # c # d # r'" using assms(1) ns by (auto split: list.splits)
    then show ?thesis using assms(1) ns four by (intro exI [of _ 4]) (auto simp: less_Suc_eq numeral_eq_Suc)
  qed
qed

lemma utf8_take:
  assumes "utf8_nats ns" and "k = 0 \<or> k = length ns \<or> k < length ns \<and> \<not> continuation (ns ! k)"
  shows "utf8_nats (take k ns)"
  using assms
proof (induction "length ns" arbitrary: ns k rule: less_induct)
  case less
  show ?case
  proof (cases "ns = [] \<or> k = 0")
    case False
    then obtain n where n: "0 < n" "n \<le> length ns" "utf8_nats (drop n ns)" "\<forall>j. 0 < j \<longrightarrow> j < n \<longrightarrow> continuation (ns ! j)"
        "\<forall>ys. utf8_nats (take n ns @ ys) = utf8_nats ys"
      using utf8_step [OF less.prems(1)] by blast
    then have "n \<le> k" using less.prems(2) False by (metis leI le_neq_implies_less neq0_conv)
    then have "utf8_nats (take (k - n) (drop n ns))"
      using n less.prems(2) by (intro less.hyps) auto
    moreover have "take k ns = take n ns @ take (k - n) (drop n ns)"
      using \<open>n \<le> k\<close> by (metis le_add_diff_inverse take_add)
    ultimately show ?thesis using n(5) by simp
  qed auto
qed

lemma utf8_clipped: "utf8_valid msg \<Longrightarrow> utf8_valid (clipped (Inl msg))"
  using boundary_before_boundary [of msg "min (length msg) RESTORE_ERROR_BYTES"]
    boundary_before_le [of msg "min (length msg) RESTORE_ERROR_BYTES"]
  by (auto simp: clipped_def utf8_valid_def take_map [symmetric] char_boundary_def intro!: utf8_take)

lemma utf8_small: "\<forall>b \<in> set bs. unat b \<le> 127 \<Longrightarrow> utf8_valid bs"
  by (induction bs) (auto simp: utf8_valid_def)

lemma decimal_small: "b \<in> set (decimal n) \<Longrightarrow> unat b \<le> 127"
proof (induction n rule: decimal.induct)
  case (1 n)
  have digit: "unat (word_of_nat (48 + k) :: byte) = 48 + k" if "k < 10" for k
    using that by (simp add: unat_of_nat take_bit_eq_mod del: of_nat_add of_nat_numeral)
  show ?case
  proof (cases "n < 10")
    case True
    then show ?thesis using 1 digit [of n] by (simp add: decimal.simps [of n])
  next
    case False
    then show ?thesis using 1 digit [of "n mod 10"] by (auto simp: decimal.simps [of n])
  qed
qed

lemma completion_text_valid: "utf8_valid (completion_text e)"
proof (cases e)
  case (GrantStale i)
  have "\<forall>b \<in> set (ascii ''unknown, consumed, or invalid-state restore operation ''). unat b \<le> 127" by code_simp
  then show ?thesis using GrantStale decimal_small by (auto intro!: utf8_small)
qed (simp, code_simp)+

section \<open>The bank of plans\<close>

definition plans_ok :: "(nat, nat \<times> nat) btree \<Rightarrow> bool" where
  "plans_ok ps \<longleftrightarrow> bt_wf ps \<and>
     (\<forall>i a b. map_of ps i = Some (a, b) \<longrightarrow> a < b \<and> b \<le> RESTORE_PLAN_BYTES \<and> a mod 8 = 0) \<and>
     (\<forall>i j a b a' b'. i \<noteq> j \<longrightarrow> map_of ps i = Some (a, b) \<longrightarrow> map_of ps j = Some (a', b') \<longrightarrow> b \<le> a' \<or> b' \<le> a) \<and>
     (\<forall>i a b. map_of ps i = Some (a, b) \<longrightarrow> b mod 8 = 0)"

definition placed :: "nat \<Rightarrow> bytes \<Rightarrow> completions \<Rightarrow> bool" where
  "placed i plan c \<longleftrightarrow> plan \<noteq> [] \<and>
     (\<exists>a. map_of (co_plans c) i = Some (a, a + plan_size plan) \<and> load (rec_of i + 8) c = a \<and>
        load_chunks (PLAN_OFFSET + a) (length plan) (co_words c) = plan) \<and>
     load (rec_of i + 16) c = length plan \<and> load (rec_of i + 24) c = 0"

lemma plans_ok_Nil [simp]: "plans_ok []"
  by (simp add: plans_ok_def)

lemma plans_ok_remove: "plans_ok ps \<Longrightarrow> plans_ok (bt_remove i ps)"
  unfolding plans_ok_def by (auto split: if_splits)

lemma plan_gap_free:
  assumes "sorted_wrt (\<lambda>(a, b) (a', b'). b \<le> a') rs" and "\<forall>(a, b) \<in> set rs. start \<le> a \<and> a < b \<and> b mod 8 = 0" and "start mod 8 = 0"
  shows "\<exists>s. plan_gap sz start rs = Some s \<and> start \<le> s \<and> s mod 8 = 0 \<and> (\<forall>(a, b) \<in> set rs. s + sz \<le> a \<or> b \<le> s)"
  using assms
proof (induction rs arbitrary: start)
  case (Cons r rs)
  obtain a b where r: "r = (a, b)" by fastforce
  show ?case
  proof (cases "sz \<le> a - start")
    case True
    then have "start + sz \<le> a' \<or> b' \<le> start" if "(a', b') \<in> set rs" for a' b'
      using Cons.prems that r by fastforce
    then show ?thesis using Cons.prems True r by auto
  next
    case False
    have "\<exists>s. plan_gap sz b rs = Some s \<and> b \<le> s \<and> s mod 8 = 0 \<and> (\<forall>(a, b) \<in> set rs. s + sz \<le> a \<or> b \<le> s)"
      using Cons.prems r by (intro Cons.IH) auto
    then show ?thesis using False Cons.prems r by fastforce
  qed
qed simp

lemma sorted_ranges:
  assumes "plans_ok ps"
  shows "sorted_wrt (\<lambda>(a, b) (a', b'). b \<le> a') (sort_key fst (bt_values ps))"
proof -
  let ?rs = "sort_key fst (bt_values ps)"
  have wf: "bt_wf ps" and pos: "\<And>i a b. map_of ps i = Some (a, b) \<Longrightarrow> a < b"
    and apart: "\<And>i j a b a' b'. i \<noteq> j \<Longrightarrow> map_of ps i = Some (a, b) \<Longrightarrow> map_of ps j = Some (a', b') \<Longrightarrow> b \<le> a' \<or> b' \<le> a"
    using assms unfolding plans_ok_def by blast+
  have mem: "\<exists>i. map_of ps i = Some r" if "r \<in> set ?rs" for r
    using that wf by (auto simp: bt_values_def in_set_iff_map_of)
  have "inj_on snd (set ps)"
  proof (rule inj_onI)
    fix x y assume "x \<in> set ps" "y \<in> set ps" "snd x = snd y"
    moreover have "map_of ps (fst z) = Some (snd z)" if "z \<in> set ps" for z using wf that by (simp add: in_set_iff_map_of [symmetric])
    ultimately have "map_of ps (fst x) = Some (snd x)" "map_of ps (fst y) = Some (snd x)" by simp_all
    then have "fst x = fst y" using pos [of "fst x" "fst (snd x)" "snd (snd x)"] apart [of "fst x" "fst y" "fst (snd x)" "snd (snd x)" "fst (snd x)" "snd (snd x)"]
      by fastforce
    then show "x = y" using \<open>snd x = snd y\<close> by (simp add: prod_eq_iff)
  qed
  then have d: "distinct ?rs" using bt_wf_distinct [OF wf] by (simp add: bt_values_def distinct_map)
  show ?thesis unfolding sorted_wrt_iff_nth_less
  proof (intro allI impI)
    fix p q assume pq: "p < q" "q < length ?rs"
    obtain a b a' b' where e: "?rs ! p = (a, b)" "?rs ! q = (a', b')" by fastforce
    have "a \<le> a'" using sorted_nth_mono [OF sorted_sort_key [of fst "bt_values ps"], of p q] pq e by simp
    moreover obtain i j where ij: "map_of ps i = Some (a, b)" "map_of ps j = Some (a', b')"
      using mem e pq by (metis nth_mem order.strict_trans)
    moreover have "(a, b) \<noteq> (a', b')" using d pq e nth_eq_iff_index_eq by (metis less_trans nat_neq_iff)
    ultimately have "b \<le> a'" using pos [OF ij(2)] apart [of i j a b a' b'] by fastforce
    then show "(case ?rs ! p of (a, b) \<Rightarrow> \<lambda>(a', b'). b \<le> a') (?rs ! q)" using e by simp
  qed
qed

text \<open>A plan that was written to the bank: it has a range of its own, and nothing else of use was overwritten.\<close>

definition stored :: "nat \<Rightarrow> bytes \<Rightarrow> completions \<Rightarrow> completions \<Rightarrow> bool" where
  "stored i plan c d \<longleftrightarrow> placed i plan d \<and> plans_ok (co_plans d) \<and>
     (\<forall>j. j \<noteq> i \<longrightarrow> map_of (co_plans d) j = map_of (co_plans c) j) \<and>
     (\<forall>x < PLAN_OFFSET. x \<noteq> rec_of i + 8 \<longrightarrow> x \<noteq> rec_of i + 16 \<longrightarrow> x \<noteq> rec_of i + 24 \<longrightarrow> co_words d x = co_words c x) \<and>
     (\<forall>j a b x. map_of (co_plans c) j = Some (a, b) \<longrightarrow> PLAN_OFFSET + a \<le> x \<longrightarrow> x < PLAN_OFFSET + b \<longrightarrow>
        co_words d x = co_words c x)"

lemma plan_size_pos: "plan \<noteq> [] \<Longrightarrow> 0 < plan_size plan"
  using div_ceil_pos [of 8 "length plan"] by (simp add: plan_size_def)

lemma plans_ok_insert:
  assumes "plans_ok ps" and "map_of ps i = None" and "0 < n" and "n mod 8 = 0" and "start mod 8 = 0" and "start + n \<le> RESTORE_PLAN_BYTES"
    and "\<And>j a b. map_of ps j = Some (a, b) \<Longrightarrow> start + n \<le> a \<or> b \<le> start"
  shows "plans_ok (bt_insert i (start, start + n) ps)"
proof -
  have "(start + n) mod 8 = 0" using assms(4,5) by (simp add: mod_add_eq [symmetric])
  moreover have "bt_wf ps" using assms(1) by (simp add: plans_ok_def)
  ultimately show ?thesis
    using assms unfolding plans_ok_def by (auto simp: le_Suc_eq split: if_splits)
qed

lemma store_plan:
  assumes ok: "plans_ok (co_plans c)" and free: "map_of (co_plans c) i = None" and plan: "plan \<noteq> []"
    and start: "start mod 8 = 0" "start + plan_size plan \<le> RESTORE_PLAN_BYTES"
    and gap: "\<And>j a b. map_of (co_plans c) j = Some (a, b) \<Longrightarrow> start + plan_size plan \<le> a \<or> b \<le> start"
  shows "stored i plan c (c\<lparr>co_words := (store_chunks (PLAN_OFFSET + start) plan (co_words c))
           (rec_of i + 8 := start, rec_of i + 16 := length plan, rec_of i + 24 := 0),
         co_plans := bt_insert i (start, start + plan_size plan) (co_plans c)\<rparr>)"
proof -
  let ?w = "store_chunks (PLAN_OFFSET + start) plan (co_words c)"
  let ?v = "?w(rec_of i + 8 := start, rec_of i + 16 := length plan, rec_of i + 24 := 0)"
  have high: "?v x = ?w x" if "PLAN_OFFSET \<le> x" for x using that rec_inside(1) [of i] by auto
  have other: "?w x = co_words c x" if "x < PLAN_OFFSET + start \<or> PLAN_OFFSET + start + plan_size plan \<le> x" for x
    using that store_chunks_other [of x "PLAN_OFFSET + start" plan "co_words c"] by (auto simp: plan_size_def)
  have "load_chunks (PLAN_OFFSET + start) (length plan) ?v = load_chunks (PLAN_OFFSET + start) (length plan) ?w"
    by (rule load_chunks_cong) (simp add: high del: fun_upd_apply)
  then have "load_chunks (PLAN_OFFSET + start) (length plan) ?v = plan" by (simp add: load_store_chunks del: fun_upd_apply)
  then have "placed i plan (c\<lparr>co_words := ?v, co_plans := bt_insert i (start, start + plan_size plan) (co_plans c)\<rparr>)"
    using plan by (simp add: placed_def load_def)
  moreover have "plans_ok (bt_insert i (start, start + plan_size plan) (co_plans c))"
    using assms plan_size_pos [OF plan] by (intro plans_ok_insert) (auto simp: plan_size_def)
  moreover have "?v x = co_words c x" if "x < PLAN_OFFSET" "x \<noteq> rec_of i + 8" "x \<noteq> rec_of i + 16" "x \<noteq> rec_of i + 24" for x
    using that other [of x] by simp
  moreover have "?v x = co_words c x" if "map_of (co_plans c) j = Some (a, b)" "PLAN_OFFSET + a \<le> x" "x < PLAN_OFFSET + b" for j a b x
    using that gap [OF that(1)] other [of x] high [of x] by fastforce
  ultimately show ?thesis unfolding stored_def by (simp del: fun_upd_apply) (auto simp del: fun_upd_apply simp: fun_upd_other)
qed

lemma publish_store_spec:
  assumes "plans_ok (co_plans c)"
  shows "\<exists>r d. publish_store i plan c = Some (r, d) \<and>
    (d = c \<and> r \<noteq> Inr True \<or> r = Inr True \<and> holds i Preparing c \<and> stored i plan c d)"
proof (cases "holds i Preparing c \<and> plan \<noteq> [] \<and> length plan \<le> RESTORE_PLAN_BYTES \<and> i \<notin> set (bt_keys (co_plans c))")
  case True
  have wf: "bt_wf (co_plans c)" using assms by (simp add: plans_ok_def)
  let ?rs = "sort_key fst (bt_values (co_plans c))"
  have mem: "(a, b) \<in> set ?rs \<longleftrightarrow> (\<exists>j. map_of (co_plans c) j = Some (a, b))" for a b
    using wf by (force simp: bt_values_def in_set_iff_map_of [symmetric])
  obtain s where s: "plan_gap (plan_size plan) 0 ?rs = Some s" "s mod 8 = 0" "\<forall>(a, b) \<in> set ?rs. s + plan_size plan \<le> a \<or> b \<le> s"
    using plan_gap_free [OF sorted_ranges [OF assms], of 0 "plan_size plan"] assms mem unfolding plans_ok_def by fastforce
  have none: "map_of (co_plans c) i = None" using True by (simp add: bt_keys_def map_of_eq_None_iff)
  have st: "grant_state_of i c = Inr Preparing" "grant_offset i = Inr (rec_of i)"
    using True by (simp_all add: grant_state_of_iff grant_offset_eq holds_def)
  show ?thesis
  proof (cases "s + plan_size plan \<le> RESTORE_PLAN_BYTES")
    case fits: True
    then show ?thesis
      using st True s store_plan [OF assms none _ s(2) fits] mem by (fastforce simp: publish_store_def)
  qed (use st True s in \<open>simp add: publish_store_def\<close>)
next
  case False
  then show ?thesis
    by (auto simp: publish_store_def grant_state_of_iff split: sum.split)
qed

end
