(* ===== verification/Grant_Protocol.thy ===== *)
theory Grant_Protocol
  imports Restore_Grants
begin

text \<open>
  The two processes on the restore grants: the engine reserves, cancels, claims, drains and polls operations while the
  Manager admits, publishes, releases, revokes and reaps them. A step is one atomic access of one process: an operation
  takes effect at its compare-exchange, a plan is copied word by word, and a plan is written before it is made claimable,
  with the lock of the Manager on its plans held in between. \<open>gr_storing\<close> is that lock, \<open>gr_reading\<close> are the claims whose
  plan is being copied and \<open>gr_executing\<close> the plans an engine has been given and has not drained. The other fields record
  the history: the plan last published and the result last recorded for an operation, the admissions and the deliveries.
\<close>

datatype claim_phase = ClaimWon | CopyingPlan nat nat bytes

record grant_run =
  gr_grants :: completions
  gr_storing :: "(nat \<times> bool \<times> bytes) option"
  gr_reading :: "nat \<rightharpoonup> claim_phase"
  gr_executing :: "nat \<rightharpoonup> bytes"
  gr_published :: "nat \<rightharpoonup> bytes"
  gr_result :: "nat \<rightharpoonup> bytes + unit"
  gr_admitted :: "nat list"
  gr_delivered :: "(nat \<times> restore_response) list"

definition result_text :: "bytes + unit \<Rightarrow> bool" where
  "result_text result = (case result of Inl m \<Rightarrow> utf8_valid m | Inr _ \<Rightarrow> True)"

definition delivery :: "nat \<Rightarrow> bytes + unit \<Rightarrow> restore_response" where
  "delivery i result = \<lparr>rr_operation_id = i,
     rr_state = (if isl result then RestoreFailed else RestoreSucceeded), rr_message = clipped result\<rparr>"

inductive grant_step :: "grant_run \<Rightarrow> grant_run \<Rightarrow> bool" where
  engine_reserve:
    "reserve_grant (gr_grants s) = (r, d) \<Longrightarrow> grant_step s (s\<lparr>gr_grants := d\<rparr>)"
| engine_cancel:
    "cancel_grant i (gr_grants s) = Some (r, d) \<Longrightarrow> grant_step s (s\<lparr>gr_grants := d\<rparr>)"
| engine_claim:
    "claim_begin i (gr_grants s) = (Inr True, d) \<Longrightarrow>
     grant_step s (s\<lparr>gr_grants := d, gr_reading := (gr_reading s)(i \<mapsto> ClaimWon)\<rparr>)"
| engine_place:
    "gr_reading s i = Some ClaimWon \<Longrightarrow> claim_place i (gr_grants s) = Inr (off, len) \<Longrightarrow>
     grant_step s (s\<lparr>gr_reading := (gr_reading s)(i \<mapsto> CopyingPlan off len [])\<rparr>)"
| engine_bad_place:
    "gr_reading s i = Some ClaimWon \<Longrightarrow> claim_place i (gr_grants s) = Inl e \<Longrightarrow>
     drained_grant i (Inl (ascii ''Restore plan rejected before execution: '' @ completion_text e)) None (gr_grants s) = (r, d) \<Longrightarrow>
     grant_step s (s\<lparr>gr_grants := d, gr_reading := (gr_reading s)(i := None)\<rparr>)"
| engine_word:
    "gr_reading s i = Some (CopyingPlan off len out) \<Longrightarrow> length out < len \<Longrightarrow>
     grant_step s (s\<lparr>gr_reading := (gr_reading s)
       (i \<mapsto> CopyingPlan off len (out @ le_bytes 8 (load (PLAN_OFFSET + off + length out) (gr_grants s))))\<rparr>)"
| engine_return:
    "gr_reading s i = Some (CopyingPlan off len out) \<Longrightarrow> len \<le> length out \<Longrightarrow> claim_finish i (gr_grants s) = (Inr (), d) \<Longrightarrow>
     grant_step s (s\<lparr>gr_grants := d, gr_reading := (gr_reading s)(i := None),
       gr_executing := (gr_executing s)(i \<mapsto> take len out)\<rparr>)"
| engine_drained:
    "gr_executing s i \<noteq> None \<Longrightarrow> result_text result \<Longrightarrow> drained_grant i result timing (gr_grants s) = (Inr terminal, d) \<Longrightarrow>
     grant_step s (s\<lparr>gr_grants := d, gr_executing := (gr_executing s)(i := None),
       gr_result := (gr_result s)(i \<mapsto> result)\<rparr>)"
| engine_poll:
    "poll_grant i (gr_grants s) = (r, d) \<Longrightarrow>
     grant_step s (s\<lparr>gr_grants := d, gr_delivered := gr_delivered s @
       (case r of Inr resp \<Rightarrow> if rr_state resp = RestorePending then [] else [(i, resp)] | Inl _ \<Rightarrow> [])\<rparr>)"
| manager_claim:
    "claim_grant i (gr_grants s) = (Inr (), d) \<Longrightarrow>
     grant_step s (s\<lparr>gr_grants := d, gr_admitted := gr_admitted s @ [i]\<rparr>)"
| manager_start:
    "start_managed i (gr_grants s) = Some (r, d) \<Longrightarrow> grant_step s (s\<lparr>gr_grants := d\<rparr>)"
| manager_store:
    "gr_storing s = None \<Longrightarrow> publish_store i plan (gr_grants s) = Some (Inr True, d) \<Longrightarrow>
     grant_step s (s\<lparr>gr_grants := d, gr_storing := Some (i, again, plan)\<rparr>)"
| manager_grant:
    "gr_storing s = Some (i, again, plan) \<Longrightarrow> publish_grant i again (gr_grants s) = (r, d) \<Longrightarrow>
     grant_step s (s\<lparr>gr_grants := d, gr_storing := None,
       gr_published := (if r = Inr True then (gr_published s)(i \<mapsto> plan) else gr_published s)\<rparr>)"
| manager_release:
    "gr_storing s = None \<Longrightarrow> release_plan i (gr_grants s) = (r, d) \<Longrightarrow> grant_step s (s\<lparr>gr_grants := d\<rparr>)"
| manager_continue:
    "continue_local i (gr_grants s) = (r, d) \<Longrightarrow> grant_step s (s\<lparr>gr_grants := d\<rparr>)"
| manager_revoke:
    "revoke_grant i (gr_grants s) = Some (r, d) \<Longrightarrow> grant_step s (s\<lparr>gr_grants := d\<rparr>)"
| manager_reap:
    "gr_storing s = None \<Longrightarrow> reap_grant i (gr_grants s) = (r, d) \<Longrightarrow>
     grant_step s (s\<lparr>gr_grants := d, gr_result :=
       (if r = Inr () \<and> grant_state_of i (gr_grants s) = Inr Revoked
        then (gr_result s)(i \<mapsto> Inl (ascii ''restore grant revoked'')) else gr_result s)\<rparr>)"
| manager_reject:
    "utf8_valid message \<Longrightarrow> reject_grant i message (gr_grants s) = Some (r, d) \<Longrightarrow>
     grant_step s (s\<lparr>gr_grants := d,
       gr_result := (if r = Inr () then (gr_result s)(i \<mapsto> Inl message) else gr_result s)\<rparr>)"
| manager_complete:
    "result_text result \<Longrightarrow> complete_grant i result (gr_grants s) = (r, d) \<Longrightarrow>
     grant_step s (s\<lparr>gr_grants := d,
       gr_result := (if r = Inr () then (gr_result s)(i \<mapsto> result) else gr_result s)\<rparr>)"
| manager_inspect:
    "manager_updates (gr_grants s) = (r, d) \<Longrightarrow> grant_step s (s\<lparr>gr_grants := d\<rparr>)"

definition grant_start :: "grant_run \<Rightarrow> bool" where
  "grant_start s \<longleftrightarrow> (\<exists>epoch token. s = \<lparr>gr_grants = completions_create epoch token, gr_storing = None, gr_reading = Map.empty,
     gr_executing = Map.empty, gr_published = Map.empty, gr_result = Map.empty, gr_admitted = [], gr_delivered = []\<rparr>)"

section \<open>Moves of one record\<close>

definition next_id :: "completions \<Rightarrow> nat" where
  "next_id c = load NEXT_OPERATION_OFFSET c"

definition copied :: "nat \<Rightarrow> completions \<Rightarrow> bytes \<Rightarrow> claim_phase \<Rightarrow> bool" where
  "copied i c plan phase = (case phase of ClaimWon \<Rightarrow> True
     | CopyingPlan off len out \<Rightarrow> len = length plan \<and> load (rec_of i + 8) c = off \<and>
         (\<exists>k \<le> div_ceil len 8. out = concat (map (\<lambda>k. le_bytes 8 (co_words c (PLAN_OFFSET + off + k * 8))) [0..<k])))"

text \<open>What a change of the mapping keeps for an operation: its plan, and how far it has been copied.\<close>

definition same_plan :: "nat \<Rightarrow> completions \<Rightarrow> completions \<Rightarrow> bool" where
  "same_plan j c d \<longleftrightarrow> map_of (co_plans d) j = map_of (co_plans c) j \<and>
     (\<forall>k \<in> {8, 16, 24}. load (rec_of j + k) d = load (rec_of j + k) c) \<and>
     (\<forall>a b x. map_of (co_plans c) j = Some (a, b) \<longrightarrow> PLAN_OFFSET + a \<le> x \<longrightarrow> x < PLAN_OFFSET + b \<longrightarrow> co_words d x = co_words c x)"

lemma plan_words:
  assumes "k < div_ceil (length plan) 8"
  shows "k * 8 + 8 \<le> plan_size plan"
  using assms by (simp add: plan_size_def)

lemma same_plan_placed:
  assumes "same_plan j c d" and "placed j plan c"
  shows "placed j plan d"
proof -
  obtain a where a: "map_of (co_plans c) j = Some (a, a + plan_size plan)" "load (rec_of j + 8) c = a"
      "load_chunks (PLAN_OFFSET + a) (length plan) (co_words c) = plan"
    using assms(2) by (auto simp: placed_def)
  have "load_chunks (PLAN_OFFSET + a) (length plan) (co_words d) = load_chunks (PLAN_OFFSET + a) (length plan) (co_words c)"
    using assms(1) a(1) plan_words by (intro load_chunks_cong) (fastforce simp: same_plan_def)
  then show ?thesis using assms a by (auto simp: placed_def same_plan_def)
qed

lemma same_plan_copied:
  assumes "same_plan j c d" and "placed j plan c" and "copied j c plan phase"
  shows "copied j d plan phase"
proof (cases phase)
  case (CopyingPlan off len out)
  obtain k where k: "k \<le> div_ceil len 8" "len = length plan" "load (rec_of j + 8) c = off"
      "out = concat (map (\<lambda>k. le_bytes 8 (co_words c (PLAN_OFFSET + off + k * 8))) [0..<k])"
    using assms(3) CopyingPlan by (auto simp: copied_def)
  have off: "map_of (co_plans c) j = Some (off, off + plan_size plan)" using assms(2) k(3) by (auto simp: placed_def)
  have "co_words d (PLAN_OFFSET + off + l * 8) = co_words c (PLAN_OFFSET + off + l * 8)" if "l < k" for l
    using assms(1) off plan_words [of l plan] k(1,2) that by (fastforce simp: same_plan_def)
  then have "map (\<lambda>k. le_bytes 8 (co_words c (PLAN_OFFSET + off + k * 8))) [0..<k] = map (\<lambda>k. le_bytes 8 (co_words d (PLAN_OFFSET + off + k * 8))) [0..<k]"
    by simp
  then have "out = concat (map (\<lambda>k. le_bytes 8 (co_words d (PLAN_OFFSET + off + k * 8))) [0..<k])" using k(4) by (simp only:)
  moreover have "load (rec_of j + 8) d = off" using assms(1) k(3) by (simp add: same_plan_def)
  ultimately show ?thesis unfolding copied_def CopyingPlan claim_phase.case using k(1,2) by blast
qed (simp add: copied_def)

lemma quiet_words:
  assumes "quiet i c d" and "x \<noteq> rec_of i" and "x < rec_of i + 32 \<or> rec_of i + 192 \<le> x" and "x < 64 \<or> 192 \<le> x"
  shows "co_words d x = co_words c x"
  using assms by (auto simp: quiet_def)

lemma quiet_same_plan:
  assumes "quiet i c d"
  shows "same_plan j c d" and "next_id d = next_id c"
proof -
  have 1: "co_words d x = co_words c x" if "PLAN_OFFSET \<le> x" for x
    using that rec_inside [of i] by (intro quiet_words [OF assms]) auto
  have 2: "load (rec_of j + k) d = load (rec_of j + k) c" if "k \<in> {8, 16, 24}" for k
  proof (cases "j mod RESTORE_COMPLETION_SLOTS = i mod RESTORE_COMPLETION_SLOTS")
    case True
    then have "rec_of j = rec_of i" by (simp add: rec_of_def)
    then show ?thesis using that rec_inside(2) [of j] unfolding load_def by (intro quiet_words [OF assms]) auto
  next
    case False
    then show ?thesis using that rec_apart [OF False] rec_inside(2) [of j] unfolding load_def by (intro quiet_words [OF assms]) auto
  qed
  show "same_plan j c d" using assms 1 2 by (auto simp: same_plan_def quiet_def)
  show "next_id d = next_id c"
    using rec_inside(2) [of i] unfolding next_id_def load_def NEXT_OPERATION_OFFSET_def by (intro quiet_words [OF assms]) auto
qed

lemma result_words:
  assumes "\<And>k. 32 \<le> k \<Longrightarrow> k < 192 \<Longrightarrow> co_words d (rec_of j + k) = co_words c (rec_of j + k)"
  shows "result_stored j r d = result_stored j r c"
proof -
  have "div_ceil (length (clipped r)) 8 \<le> div_ceil 88 8"
    using length_clipped [of r] div_le_mono [of "length (clipped r)" 87 8] by (cases "length (clipped r) = 88") (auto simp: div_ceil_def)
  then have n: "div_ceil (length (clipped r)) 8 \<le> 11" by (simp add: div_ceil_def)
  have "load_chunks (rec_of j + 40) (length (clipped r)) (co_words d) = load_chunks (rec_of j + 40) (length (clipped r)) (co_words c)"
  proof (rule load_chunks_cong)
    fix k assume "k < div_ceil (length (clipped r)) 8"
    then show "co_words d (rec_of j + 40 + k * 8) = co_words c (rec_of j + 40 + k * 8)"
      using assms [of "40 + k * 8"] n by (simp add: add.assoc)
  qed
  then show ?thesis using assms [of 32] by (simp add: result_stored_def load_def)
qed

lemma quiet_other_slot:
  assumes "quiet i c d" and "j mod RESTORE_COMPLETION_SLOTS \<noteq> i mod RESTORE_COMPLETION_SLOTS"
  shows "holds j st d = holds j st c" and "result_stored j r d = result_stored j r c"
proof -
  have w: "co_words d (rec_of j + k) = co_words c (rec_of j + k)" if "k < 192" for k
    using that rec_apart [OF assms(2)] rec_inside(2) [of j] by (intro quiet_words [OF assms(1)]) auto
  show "holds j st d = holds j st c" using w [of 0] by (simp add: holds_def load_def)
  show "result_stored j r d = result_stored j r c" using w by (intro result_words) simp
qed

lemma moves_other:
  assumes "moves i a b c d" and "j \<noteq> i"
  shows "holds j st d = holds j st c" and "holds j st c \<Longrightarrow> result_stored j r d = result_stored j r c"
proof -
  have m: "holds i a c" "holds i b d" "quiet i c d" using assms(1) by (auto simp: moves_def)
  show "holds j st d = holds j st c"
    using quiet_other_slot(1) [OF m(3), of j st] holds_slot m(1,2) assms(2) by blast
  show "holds j st c \<Longrightarrow> result_stored j r d = result_stored j r c"
    using quiet_other_slot(2) [OF m(3), of j r] holds_slot m(1) assms(2) by blast
qed

lemma moves_same: "moves i a b c d \<Longrightarrow> holds i st c \<longleftrightarrow> st = a" "moves i a b c d \<Longrightarrow> holds i st d \<longleftrightarrow> st = b"
  by (auto simp: moves_def dest: holds_inject)

lemma moves_frame:
  assumes "moves i a b c d"
  shows "same_plan j c d" and "next_id d = next_id c" and "co_plans d = co_plans c"
  using assms quiet_same_plan [of i c d] by (auto simp: moves_def quiet_def)

section \<open>The invariant\<close>

definition granted_inv :: "grant_run \<Rightarrow> bool" where
  "granted_inv s \<longleftrightarrow> (\<forall>i st. st \<in> {Granted, GrantedMore} \<longrightarrow> holds i st (gr_grants s) \<longrightarrow>
     (\<exists>plan. gr_published s i = Some plan \<and> placed i plan (gr_grants s)))"

definition reading_inv :: "grant_run \<Rightarrow> bool" where
  "reading_inv s \<longleftrightarrow> (\<forall>i phase. gr_reading s i = Some phase \<longrightarrow>
     (\<exists>st \<in> {Active, ActiveMore}. holds i st (gr_grants s)) \<and> gr_executing s i = None \<and>
     (\<exists>plan. gr_published s i = Some plan \<and> placed i plan (gr_grants s) \<and> copied i (gr_grants s) plan phase))"

definition executing_inv :: "grant_run \<Rightarrow> bool" where
  "executing_inv s \<longleftrightarrow> (\<forall>i plan. gr_executing s i = Some plan \<longrightarrow>
     (\<exists>st \<in> {Active, ActiveMore}. holds i st (gr_grants s)) \<and> gr_published s i = Some plan)"

definition storing_inv :: "grant_run \<Rightarrow> bool" where
  "storing_inv s \<longleftrightarrow> (\<forall>i again plan. gr_storing s = Some (i, again, plan) \<longrightarrow> i < next_id (gr_grants s) \<and>
     (\<forall>st. holds i st (gr_grants s) \<longrightarrow> st \<in> {Preparing, CancelRequested, Managed, Reaped, Acknowledged}) \<and>
     (holds i Preparing (gr_grants s) \<longrightarrow> placed i plan (gr_grants s)))"

definition ids_inv :: "grant_run \<Rightarrow> bool" where
  "ids_inv s \<longleftrightarrow> (\<forall>i st. holds i st (gr_grants s) \<longrightarrow> i < next_id (gr_grants s)) \<and>
     distinct (gr_admitted s) \<and>
     (\<forall>i \<in> set (gr_admitted s). i < next_id (gr_grants s) \<and> \<not> holds i Reserved (gr_grants s)) \<and>
     distinct (map fst (gr_delivered s))"

definition result_inv :: "grant_run \<Rightarrow> bool" where
  "result_inv s \<longleftrightarrow>
     (\<forall>i st. st \<in> {Reaped, Drained} \<longrightarrow> holds i st (gr_grants s) \<longrightarrow>
        (\<exists>res. gr_result s i = Some res \<and> result_stored i res (gr_grants s) \<and> utf8_valid (clipped res))) \<and>
     (\<forall>(i, resp) \<in> set (gr_delivered s). i < next_id (gr_grants s) \<and>
        (\<forall>st. holds i st (gr_grants s) \<longrightarrow> st = Acknowledged) \<and>
        (\<exists>res. gr_result s i = Some res \<and> resp = delivery i res))"

definition run_inv :: "grant_run \<Rightarrow> bool" where
  "run_inv s \<longleftrightarrow> plans_ok (co_plans (gr_grants s)) \<and> granted_inv s \<and> reading_inv s \<and> executing_inv s \<and> storing_inv s \<and>
     ids_inv s \<and> result_inv s"

lemma moved_granted:
  assumes "granted_inv s" and "moves i a b (gr_grants s) (gr_grants t)" and "\<And>j. j \<noteq> i \<Longrightarrow> gr_published t j = gr_published s j"
    and "b \<in> {Granted, GrantedMore} \<Longrightarrow> \<exists>plan. gr_published t i = Some plan \<and> placed i plan (gr_grants s)"
  shows "granted_inv t"
  unfolding granted_inv_def
proof (intro allI impI)
  fix j st assume st: "st \<in> {Granted, GrantedMore}" and h: "holds j st (gr_grants t)"
  have "\<exists>plan. gr_published t j = Some plan \<and> placed j plan (gr_grants s)"
  proof (cases "j = i")
    case True
    then have "b \<in> {Granted, GrantedMore}" using st h moves_same(2) [OF assms(2)] by simp
    then show ?thesis using assms(4) True by simp
  next
    case False
    then show ?thesis using assms(1,3) st h moves_other(1) [OF assms(2) False] by (auto simp: granted_inv_def)
  qed
  moreover have "same_plan j (gr_grants s) (gr_grants t)" using assms(2) by (rule moves_frame)
  ultimately show "\<exists>plan. gr_published t j = Some plan \<and> placed j plan (gr_grants t)" using same_plan_placed by blast
qed

lemma moved_reading:
  assumes "reading_inv s" and "moves i a b (gr_grants s) (gr_grants t)"
    and "\<And>j. j \<noteq> i \<Longrightarrow> gr_published t j = gr_published s j \<and> gr_reading t j = gr_reading s j \<and> gr_executing t j = gr_executing s j"
    and "\<And>phase. gr_reading t i = Some phase \<Longrightarrow> b \<in> {Active, ActiveMore} \<and> gr_executing t i = None \<and>
      (\<exists>plan. gr_published t i = Some plan \<and> placed i plan (gr_grants s) \<and> copied i (gr_grants s) plan phase)"
  shows "reading_inv t"
  unfolding reading_inv_def
proof (intro allI impI)
  fix j phase assume r: "gr_reading t j = Some phase"
  have "(\<exists>st \<in> {Active, ActiveMore}. holds j st (gr_grants t)) \<and> gr_executing t j = None \<and>
    (\<exists>plan. gr_published t j = Some plan \<and> placed j plan (gr_grants s) \<and> copied j (gr_grants s) plan phase)"
  proof (cases "j = i")
    case True
    then show ?thesis using assms(4) r moves_same(2) [OF assms(2)] by simp
  next
    case False
    then show ?thesis using assms(1,3) r moves_other(1) [OF assms(2) False] by (auto simp: reading_inv_def)
  qed
  moreover have "same_plan j (gr_grants s) (gr_grants t)" using assms(2) by (rule moves_frame)
  ultimately show "(\<exists>st \<in> {Active, ActiveMore}. holds j st (gr_grants t)) \<and> gr_executing t j = None \<and>
    (\<exists>plan. gr_published t j = Some plan \<and> placed j plan (gr_grants t) \<and> copied j (gr_grants t) plan phase)"
    using same_plan_placed same_plan_copied by blast
qed

lemma moved_executing:
  assumes "executing_inv s" and "moves i a b (gr_grants s) (gr_grants t)"
    and "\<And>j. j \<noteq> i \<Longrightarrow> gr_published t j = gr_published s j \<and> gr_executing t j = gr_executing s j"
    and "\<And>plan. gr_executing t i = Some plan \<Longrightarrow> b \<in> {Active, ActiveMore} \<and> gr_published t i = Some plan"
  shows "executing_inv t"
  unfolding executing_inv_def
proof (intro allI impI)
  fix j plan assume e: "gr_executing t j = Some plan"
  show "(\<exists>st \<in> {Active, ActiveMore}. holds j st (gr_grants t)) \<and> gr_published t j = Some plan"
  proof (cases "j = i")
    case True
    then show ?thesis using assms(4) e moves_same(2) [OF assms(2)] by simp
  next
    case False
    then show ?thesis using assms(1,3) e moves_other(1) [OF assms(2) False] by (auto simp: executing_inv_def)
  qed
qed

lemma moved_storing:
  assumes "storing_inv s" and "moves i a b (gr_grants s) (gr_grants t)" and "gr_storing t \<in> {None, gr_storing s}"
    and "\<And>again plan. gr_storing t = Some (i, again, plan) \<Longrightarrow> a \<in> {Preparing, CancelRequested, Managed, Reaped, Acknowledged} \<Longrightarrow>
      b \<in> {CancelRequested, Managed, Reaped, Acknowledged}"
  shows "storing_inv t"
  unfolding storing_inv_def
proof (intro allI impI)
  fix j again plan assume "gr_storing t = Some (j, again, plan)"
  then have e: "gr_storing t = Some (j, again, plan)" "gr_storing s = Some (j, again, plan)" using assms(3) by auto
  show "j < next_id (gr_grants t) \<and>
    (\<forall>st. holds j st (gr_grants t) \<longrightarrow> st \<in> {Preparing, CancelRequested, Managed, Reaped, Acknowledged}) \<and>
    (holds j Preparing (gr_grants t) \<longrightarrow> placed j plan (gr_grants t))"
  proof (cases "j = i")
    case True
    then have "a \<in> {Preparing, CancelRequested, Managed, Reaped, Acknowledged}"
      using assms(1) e(2) moves_same(1) [OF assms(2)] unfolding storing_inv_def by blast
    then show ?thesis
      using True assms(1,4) e moves_same(2) [OF assms(2)] moves_frame(2) [OF assms(2)] by (auto simp: storing_inv_def)
  next
    case False
    then show ?thesis
      using assms(1) e(2) moves_other(1) [OF assms(2) False] moves_frame(2) [OF assms(2)] same_plan_placed [OF moves_frame(1) [OF assms(2)]]
      by (auto simp: storing_inv_def)
  qed
qed

lemma moved_ids:
  assumes "ids_inv s" and "moves i a b (gr_grants s) (gr_grants t)" and "b \<noteq> Reserved"
    and "gr_admitted t = gr_admitted s \<or> a = Reserved \<and> gr_admitted t = gr_admitted s @ [i]"
    and "distinct (map fst (gr_delivered t))"
  shows "ids_inv t"
proof -
  have i: "i < next_id (gr_grants s)" using assms(1) moves_same(1) [OF assms(2)] by (auto simp: ids_inv_def)
  have h: "holds j st (gr_grants t) = (if j = i then st = b else holds j st (gr_grants s))" for j st
    using moves_same(2) [OF assms(2)] moves_other(1) [OF assms(2)] by simp
  have "i \<notin> set (gr_admitted s)" if "a = Reserved"
    using assms(1) moves_same(1) [OF assms(2), of Reserved] that by (auto simp: ids_inv_def)
  then show ?thesis using assms(1,3-5) i h moves_frame(2) [OF assms(2)] by (auto simp: ids_inv_def split: if_splits)
qed

lemma moved_result:
  assumes "result_inv s" and "moves i a b (gr_grants s) (gr_grants t)" and "i < next_id (gr_grants s)"
    and "\<And>j. j \<noteq> i \<Longrightarrow> gr_result t j = gr_result s j"
    and "b \<in> {Reaped, Drained} \<Longrightarrow> \<exists>res. gr_result t i = Some res \<and> result_stored i res (gr_grants t) \<and> utf8_valid (clipped res)"
    and "a \<noteq> Acknowledged"
    and "gr_delivered t = gr_delivered s \<or>
      (\<exists>res. gr_delivered t = gr_delivered s @ [(i, delivery i res)] \<and> gr_result t i = Some res \<and> b = Acknowledged)"
  shows "result_inv t"
proof -
  have h: "holds j st (gr_grants t) = (if j = i then st = b else holds j st (gr_grants s))" for j st
    using moves_same(2) [OF assms(2)] moves_other(1) [OF assms(2)] by simp
  have new: "i \<notin> fst ` set (gr_delivered s)"
    using assms(1,6) moves_same(1) [OF assms(2), of a] by (fastforce simp: result_inv_def)
  have "\<exists>res. gr_result t j = Some res \<and> result_stored j res (gr_grants t) \<and> utf8_valid (clipped res)"
    if "st \<in> {Reaped, Drained}" "holds j st (gr_grants t)" for j st
  proof (cases "j = i")
    case True
    then show ?thesis using that h assms(5) by auto
  next
    case False
    then show ?thesis using that h assms(1,4) moves_other(2) [OF assms(2) False] by (fastforce simp: result_inv_def)
  qed
  moreover have "j < next_id (gr_grants t) \<and> (\<forall>st. holds j st (gr_grants t) \<longrightarrow> st = Acknowledged) \<and>
      (\<exists>res. gr_result t j = Some res \<and> resp = delivery j res)" if "(j, resp) \<in> set (gr_delivered t)" for j resp
  proof (cases "(j, resp) \<in> set (gr_delivered s)")
    case True
    then have "j \<noteq> i" using new by force
    then show ?thesis using True assms(1,4) h moves_frame(2) [OF assms(2)] by (fastforce simp: result_inv_def)
  next
    case False
    then show ?thesis using that assms(3,7) h moves_frame(2) [OF assms(2)] by auto
  qed
  ultimately show ?thesis unfolding result_inv_def by blast
qed

lemma moved_run:
  assumes inv: "run_inv s" and m: "moves i a b (gr_grants s) (gr_grants t)" and ab: "b \<noteq> Reserved" "a \<noteq> Acknowledged"
    and frame: "\<And>j. j \<noteq> i \<Longrightarrow> gr_published t j = gr_published s j \<and> gr_reading t j = gr_reading s j \<and>
      gr_executing t j = gr_executing s j \<and> gr_result t j = gr_result s j"
    and granted: "b \<in> {Granted, GrantedMore} \<Longrightarrow> \<exists>plan. gr_published t i = Some plan \<and> placed i plan (gr_grants s)"
    and reading: "\<And>phase. gr_reading t i = Some phase \<Longrightarrow> b \<in> {Active, ActiveMore} \<and> gr_executing t i = None \<and>
      (\<exists>plan. gr_published t i = Some plan \<and> placed i plan (gr_grants s) \<and> copied i (gr_grants s) plan phase)"
    and executing: "\<And>plan. gr_executing t i = Some plan \<Longrightarrow> b \<in> {Active, ActiveMore} \<and> gr_published t i = Some plan"
    and storing: "gr_storing t \<in> {None, gr_storing s}"
      "\<And>again plan. gr_storing t = Some (i, again, plan) \<Longrightarrow> a \<in> {Preparing, CancelRequested, Managed, Reaped, Acknowledged} \<Longrightarrow>
         b \<in> {CancelRequested, Managed, Reaped, Acknowledged}"
    and admitted: "gr_admitted t = gr_admitted s \<or> a = Reserved \<and> gr_admitted t = gr_admitted s @ [i]"
    and result: "b \<in> {Reaped, Drained} \<Longrightarrow> \<exists>res. gr_result t i = Some res \<and> result_stored i res (gr_grants t) \<and> utf8_valid (clipped res)"
    and delivered: "gr_delivered t = gr_delivered s \<or>
      (\<exists>res. gr_delivered t = gr_delivered s @ [(i, delivery i res)] \<and> gr_result t i = Some res \<and> b = Acknowledged)"
  shows "run_inv t"
proof -
  have parts: "granted_inv s" "reading_inv s" "executing_inv s" "storing_inv s" "ids_inv s" "result_inv s"
    using inv by (auto simp: run_inv_def)
  have i: "i < next_id (gr_grants s)" using parts(5) moves_same(1) [OF m] by (auto simp: ids_inv_def)
  have "i \<notin> fst ` set (gr_delivered s)"
    using parts(6) ab(2) moves_same(1) [OF m, of a] by (fastforce simp: result_inv_def)
  then have d: "distinct (map fst (gr_delivered t))" using parts(5) delivered by (auto simp: ids_inv_def)
  have "granted_inv t" using parts(1) m _ granted by (rule moved_granted) (simp add: frame)
  moreover have "reading_inv t" using parts(2) m _ reading by (rule moved_reading) (simp add: frame)
  moreover have "executing_inv t" using parts(3) m _ executing by (rule moved_executing) (simp add: frame)
  moreover have "storing_inv t" using parts(4) m storing by (rule moved_storing)
  moreover have "ids_inv t" using parts(5) m ab(1) admitted d by (rule moved_ids)
  moreover have "result_inv t" using parts(6) m i _ result ab(2) delivered by (rule moved_result) (simp add: frame)
  ultimately show ?thesis using inv moves_frame(3) [OF m] by (simp add: run_inv_def)
qed

lemma idle_claim:
  assumes "run_inv s" and "holds i a (gr_grants s)" and "a \<noteq> Active" and "a \<noteq> ActiveMore"
  shows "gr_reading s i = None" and "gr_executing s i = None"
proof -
  have "\<not> holds i st (gr_grants s)" if "st \<in> {Active, ActiveMore}" for st
    using that assms(2-4) holds_inject by blast
  then show "gr_reading s i = None" and "gr_executing s i = None"
    using assms(1) unfolding run_inv_def reading_inv_def executing_inv_def by (meson not_Some_eq)+
qed

text \<open>The moves that change no history.\<close>

definition plain_move :: "grant_state \<Rightarrow> grant_state \<Rightarrow> bool" where
  "plain_move a b \<longleftrightarrow> (a, b) \<in> {(Reserved, Acknowledged), (Preparing, CancelRequested), (Preparing, Managed),
     (CancelRequested, Managed), (PartDrained, Preparing), (Granted, Revoked), (GrantedMore, Revoked), (PartDrained, Revoked)}"

lemma plain_run:
  assumes "run_inv s" and "moves i a b (gr_grants s) d" and "plain_move a b"
  shows "run_inv (s\<lparr>gr_grants := d\<rparr>)"
proof (rule moved_run [where s = s and i = i and a = a and b = b])
  have "a \<noteq> Active" "a \<noteq> ActiveMore" using assms(3) by (auto simp: plain_move_def)
  note idle = idle_claim [OF assms(1) _ this, of i]
  have h: "holds i a (gr_grants s)" using assms(2) by (simp add: moves_def)
  show "gr_reading (s\<lparr>gr_grants := d\<rparr>) i = Some phase \<Longrightarrow> b \<in> {Active, ActiveMore} \<and> gr_executing (s\<lparr>gr_grants := d\<rparr>) i = None \<and>
      (\<exists>plan. gr_published (s\<lparr>gr_grants := d\<rparr>) i = Some plan \<and> placed i plan (gr_grants s) \<and> copied i (gr_grants s) plan phase)" for phase
    using idle(1) [OF h] by simp
  show "gr_executing (s\<lparr>gr_grants := d\<rparr>) i = Some plan \<Longrightarrow> b \<in> {Active, ActiveMore} \<and> gr_published (s\<lparr>gr_grants := d\<rparr>) i = Some plan" for plan
    using idle(2) [OF h] by simp
qed (use assms in \<open>auto simp: plain_move_def\<close>)

lemma claim_admitted:
  assumes "run_inv s" and "moves i Reserved Preparing (gr_grants s) d"
  shows "run_inv (s\<lparr>gr_grants := d, gr_admitted := gr_admitted s @ [i]\<rparr>)"
proof -
  have h: "holds i Reserved (gr_grants s)" using assms(2) by (simp add: moves_def)
  have idle: "gr_reading s i = None" "gr_executing s i = None" using idle_claim [OF assms(1) h] by simp_all
  show ?thesis
    by (rule moved_run [where s = s and i = i and a = Reserved and b = Preparing]) (use assms idle in \<open>auto\<close>)
qed

text \<open>The moves that record a result.\<close>

lemma text_clipped: "result_text res \<Longrightarrow> utf8_valid (clipped res)"
  using utf8_clipped by (cases res) (auto simp: result_text_def clipped_def utf8_valid_def)

lemma result_run:
  assumes "run_inv s" and "moves i a b (gr_grants s) d" and "b \<in> {Reaped, Drained, PartDrained}" and "a \<noteq> Acknowledged" and "a \<noteq> Reserved"
    and "a \<in> {Active, ActiveMore} \<Longrightarrow> gr_reading s i = None"
    and "a \<in> {Preparing, CancelRequested, Managed, Reaped, Acknowledged} \<Longrightarrow> b = Reaped"
    and "result_stored i res d" and "utf8_valid (clipped res)"
  shows "run_inv (s\<lparr>gr_grants := d, gr_executing := (gr_executing s)(i := None), gr_result := (gr_result s)(i \<mapsto> res)\<rparr>)"
proof -
  have h: "holds i a (gr_grants s)" using assms(2) by (simp add: moves_def)
  have r: "gr_reading s i = None" using idle_claim(1) [OF assms(1) h] assms(6) by blast
  show ?thesis
    by (rule moved_run [where s = s and i = i and a = a and b = b]) (use assms r in \<open>auto\<close>)
qed

lemma ended_run:
  assumes "run_inv s" and "moves i a Reaped (gr_grants s) d" and "a \<in> {Preparing, CancelRequested, Managed}"
    and "result_stored i res d" and "utf8_valid (clipped res)"
  shows "run_inv (s\<lparr>gr_grants := d, gr_result := (gr_result s)(i \<mapsto> res)\<rparr>)"
proof -
  have h: "holds i a (gr_grants s)" using assms(2) by (simp add: moves_def)
  have "gr_executing s i = None" using idle_claim(2) [OF assms(1) h] assms(3) by auto
  then have "(gr_executing s)(i := None) = gr_executing s" by (simp add: fun_upd_idem)
  then show ?thesis using result_run [OF assms(1,2), of res] assms(3-5) by (cases s) auto
qed

lemma claimed_run:
  assumes "run_inv s" and "moves i a b (gr_grants s) d" and "(a, b) \<in> {(Granted, Active), (GrantedMore, ActiveMore)}"
  shows "run_inv (s\<lparr>gr_grants := d, gr_reading := (gr_reading s)(i \<mapsto> ClaimWon)\<rparr>)"
proof -
  have h: "holds i a (gr_grants s)" using assms(2) by (simp add: moves_def)
  obtain plan where plan: "gr_published s i = Some plan" "placed i plan (gr_grants s)"
    using assms(1,3) h unfolding run_inv_def granted_inv_def by blast
  have idle: "gr_executing s i = None" using idle_claim(2) [OF assms(1) h] assms(3) by auto
  show ?thesis
    by (rule moved_run [where s = s and i = i and a = a and b = b]) (use assms plan idle in \<open>auto simp: copied_def\<close>)
qed

lemma delivered_run:
  assumes "run_inv s" and "moves i Reaped Acknowledged (gr_grants s) d" and "gr_result s i = Some res"
  shows "run_inv (s\<lparr>gr_grants := d, gr_delivered := gr_delivered s @ [(i, delivery i res)]\<rparr>)"
proof -
  have h: "holds i Reaped (gr_grants s)" using assms(2) by (simp add: moves_def)
  have idle: "gr_reading s i = None" "gr_executing s i = None" using idle_claim [OF assms(1) h] by simp_all
  show ?thesis
    by (rule moved_run [where s = s and i = i and a = Reaped and b = Acknowledged]) (use assms idle in \<open>auto\<close>)
qed

lemma published_run:
  assumes "run_inv s" and "moves i Preparing b (gr_grants s) d" and "b \<in> {Granted, GrantedMore}" and "gr_storing s = Some (i, again, plan)"
  shows "run_inv (s\<lparr>gr_grants := d, gr_storing := None, gr_published := (gr_published s)(i \<mapsto> plan)\<rparr>)"
proof -
  have h: "holds i Preparing (gr_grants s)" using assms(2) by (simp add: moves_def)
  have idle: "gr_reading s i = None" "gr_executing s i = None" using idle_claim [OF assms(1) h] by simp_all
  have placed: "placed i plan (gr_grants s)" using assms(1,4) h by (auto simp: run_inv_def storing_inv_def)
  show ?thesis
    by (rule moved_run [where s = s and i = i and a = Preparing and b = b]) (use assms idle placed in \<open>auto\<close>)
qed

text \<open>The changes that move no record, apart from a reservation.\<close>

definition kept :: "completions \<Rightarrow> completions \<Rightarrow> bool" where
  "kept c d \<longleftrightarrow> next_id c \<le> next_id d \<and> plans_ok (co_plans d) \<and>
     (\<forall>j st. holds j st d \<longrightarrow> holds j st c \<or> st = Reserved \<and> next_id c \<le> j \<and> j < next_id d) \<and>
     (\<forall>j st. holds j st c \<longrightarrow> st \<noteq> Acknowledged \<longrightarrow> holds j st d \<and> (\<forall>r. result_stored j r d = result_stored j r c))"

lemma kept_storing:
  assumes "kept (gr_grants s) d" and "storing_inv s" 
    and "\<And>j. gr_storing s \<noteq> None \<Longrightarrow> holds j Preparing (gr_grants s) \<Longrightarrow> same_plan j (gr_grants s) d"
  shows "storing_inv (s\<lparr>gr_grants := d\<rparr>)"
  unfolding storing_inv_def
proof (intro allI impI)
  fix i again plan assume "gr_storing (s\<lparr>gr_grants := d\<rparr>) = Some (i, again, plan)"
  then have e: "gr_storing s = Some (i, again, plan)" by simp
  then have i: "i < next_id (gr_grants s)" "\<forall>st. holds i st (gr_grants s) \<longrightarrow> st \<in> {Preparing, CancelRequested, Managed, Reaped, Acknowledged}"
      "holds i Preparing (gr_grants s) \<longrightarrow> placed i plan (gr_grants s)"
    using assms(2) unfolding storing_inv_def by blast+
  have "holds i st (gr_grants s)" if "holds i st d" for st using assms(1) i(1) that by (fastforce simp: kept_def)
  moreover have "i < next_id d" using assms(1) i(1) by (simp add: kept_def)
  ultimately show "i < next_id (gr_grants (s\<lparr>gr_grants := d\<rparr>)) \<and>
    (\<forall>st. holds i st (gr_grants (s\<lparr>gr_grants := d\<rparr>)) \<longrightarrow> st \<in> {Preparing, CancelRequested, Managed, Reaped, Acknowledged}) \<and>
    (holds i Preparing (gr_grants (s\<lparr>gr_grants := d\<rparr>)) \<longrightarrow> placed i plan (gr_grants (s\<lparr>gr_grants := d\<rparr>)))"
    using i same_plan_placed assms(3) [of i] e by fastforce
qed

lemma kept_run:
  assumes inv: "run_inv s" and k: "kept (gr_grants s) (gr_grants t)"
    and same: "gr_published t = gr_published s" "gr_result t = gr_result s" "gr_admitted t = gr_admitted s" "gr_delivered t = gr_delivered s"
    and plans: "\<And>j. holds j Granted (gr_grants s) \<or> holds j GrantedMore (gr_grants s) \<or> gr_reading t j \<noteq> None \<Longrightarrow> same_plan j (gr_grants s) (gr_grants t)"
    and reading: "\<And>j phase. gr_reading t j = Some phase \<Longrightarrow> gr_reading s j = Some phase \<and> gr_executing t j = None"
    and executing: "\<And>j plan. gr_executing t j = Some plan \<Longrightarrow>
      gr_executing s j = Some plan \<or> gr_published s j = Some plan \<and> (\<exists>st \<in> {Active, ActiveMore}. holds j st (gr_grants s))"
    and storing: "storing_inv t"
  shows "run_inv t"
proof -
  have bwd: "holds j st (gr_grants s)" if "holds j st (gr_grants t)" "st \<noteq> Reserved" for j st
    using k that by (fastforce simp: kept_def)
  have fwd: "holds j st (gr_grants t)" if "holds j st (gr_grants s)" "st \<noteq> Acknowledged" for j st
    using k that by (fastforce simp: kept_def)
  have "granted_inv t"
    unfolding granted_inv_def
  proof (intro allI impI)
    fix i st assume "st \<in> {Granted, GrantedMore}" "holds i st (gr_grants t)"
    then have "st \<in> {Granted, GrantedMore}" "holds i st (gr_grants s)" using bwd [of i st] by auto
    then show "\<exists>plan. gr_published t i = Some plan \<and> placed i plan (gr_grants t)"
      using inv same(1) plans [of i] same_plan_placed unfolding run_inv_def granted_inv_def by (metis insertE singletonD)
  qed
  moreover have "reading_inv t"
    unfolding reading_inv_def
  proof (intro allI impI)
    fix i phase assume r: "gr_reading t i = Some phase"
    then have "(\<exists>st \<in> {Active, ActiveMore}. holds i st (gr_grants s)) \<and>
        (\<exists>plan. gr_published s i = Some plan \<and> placed i plan (gr_grants s) \<and> copied i (gr_grants s) plan phase)"
      using inv reading unfolding run_inv_def reading_inv_def by blast
    moreover have "same_plan i (gr_grants s) (gr_grants t)" using plans r by simp
    ultimately show "(\<exists>st \<in> {Active, ActiveMore}. holds i st (gr_grants t)) \<and> gr_executing t i = None \<and>
        (\<exists>plan. gr_published t i = Some plan \<and> placed i plan (gr_grants t) \<and> copied i (gr_grants t) plan phase)"
      using reading [OF r] same(1) same_plan_placed same_plan_copied fwd by auto
  qed
  moreover have "executing_inv t"
    using inv executing same(1) fwd unfolding run_inv_def executing_inv_def by fastforce
  moreover have "ids_inv t"
    using inv k same(3,4) unfolding run_inv_def ids_inv_def kept_def by (fastforce dest: leD)
  moreover have "result_inv t"
    using inv k same(2,4) unfolding run_inv_def result_inv_def kept_def by (fastforce dest: leD)
  moreover have "plans_ok (co_plans (gr_grants t))" using k by (simp add: kept_def)
  ultimately show ?thesis using storing by (simp add: run_inv_def)
qed

lemma words_kept:
  assumes "plans_ok (co_plans d)" and "next_id c \<le> next_id d"
    and "\<And>j. co_words d (rec_of j) = co_words c (rec_of j)" and "\<And>j k. 32 \<le> k \<Longrightarrow> k < 192 \<Longrightarrow> co_words d (rec_of j + k) = co_words c (rec_of j + k)"
  shows "kept c d"
proof -
  have "holds j st d = holds j st c" for j st using assms(3) [of j] by (simp add: holds_def load_def)
  then show ?thesis using assms(1,2) result_words [of d _ c] assms(4) by (simp add: kept_def)
qed

lemma rec_field: "0 < k \<Longrightarrow> k < 192 \<Longrightarrow> rec_of j + k \<noteq> rec_of i" "k < 192 \<Longrightarrow> l < 192 \<Longrightarrow> k \<noteq> l \<Longrightarrow> rec_of j + k \<noteq> rec_of i + l"
proof -
  show *: "rec_of j + k \<noteq> rec_of i + l" if "k < 192" "l < 192" "k \<noteq> l" for k l
    using that rec_apart [of j i] by (cases "j mod RESTORE_COMPLETION_SLOTS = i mod RESTORE_COMPLETION_SLOTS") (auto simp: rec_of_def)
  show "0 < k \<Longrightarrow> k < 192 \<Longrightarrow> rec_of j + k \<noteq> rec_of i" using * [of k 0] by simp
qed

text \<open>A change of the dirty words only.\<close>

lemma low_kept:
  assumes "plans_ok (co_plans c)" and "co_plans d = co_plans c" and "\<And>x. x < 64 \<or> 192 \<le> x \<Longrightarrow> co_words d x = co_words c x"
  shows "kept c d" and "same_plan j c d"
proof -
  have r: "co_words d (rec_of j + k) = co_words c (rec_of j + k)" for j k using assms(3) rec_inside(2) [of j] by simp
  show "kept c d"
    using assms r r [of _ 0] by (intro words_kept) (simp_all add: next_id_def load_def NEXT_OPERATION_OFFSET_def)
  show "same_plan j c d" using assms(2,3) r by (simp add: same_plan_def load_def PLAN_OFFSET_def GRANT_HEADER_BYTES_def)
qed

lemma dirty_updates_words:
  assumes "dirty_updates indices c = (r, d)" and "\<forall>k \<in> set indices. k < 16"
  shows "co_plans d = co_plans c \<and> (\<forall>x. x < 64 \<or> 192 \<le> x \<longrightarrow> co_words d x = co_words c x)"
  using assms
proof (induction indices arbitrary: c r d)
  case (Cons index indices)
  let ?c = "store (DIRTY_OFFSET + index * 8) 0 c"
  have one: "co_plans ?c = co_plans c \<and> (\<forall>x. x < 64 \<or> 192 \<le> x \<longrightarrow> co_words ?c x = co_words c x)"
    using Cons.prems(2) by (auto simp: store_def DIRTY_OFFSET_def)
  show ?case
  proof (cases "\<exists>us r'. dirty_updates indices ?c = (r', d)")
    case True
    then show ?thesis using Cons.IH [of ?c _ d] Cons.prems(2) one by auto
  next
    case False
    then have "d = ?c" using Cons.prems(1) by (auto simp: Let_def split: sum.splits prod.splits)
    then show ?thesis using one by simp
  qed
qed simp

lemma reserve_kept:
  assumes "plans_ok (co_plans c)" and "reserve_grant c = (r, d)"
  shows "kept c d" and "same_plan j c d"
proof -
  have spec: "next_id c \<le> next_id d" "co_plans d = co_plans c"
    using reserve_loop_spec [of _ c r d] assms(2) by (auto simp: reserve_grant_def next_id_def)
  obtain i where i: "\<forall>x. x \<noteq> NEXT_OPERATION_OFFSET \<longrightarrow> x \<noteq> rec_of i \<longrightarrow> co_words d x = co_words c x"
      "co_words d (rec_of i) = co_words c (rec_of i) \<or>
       next_id c \<le> i \<and> i < next_id d \<and> holds i Reserved d \<and> (load (rec_of i) c = 0 \<or> load (rec_of i) c mod 16 = grant_tag Acknowledged)"
  proof (cases r)
    case (Inl e)
    moreover have "rec_of 0 \<noteq> NEXT_OPERATION_OFFSET" using rec_inside(2) [of 0] by (simp add: NEXT_OPERATION_OFFSET_def)
    ultimately show ?thesis using reserve_loop_spec [of _ c r d] assms(2) that [of 0] by (auto simp: reserve_grant_def)
  next
    case (Inr i)
    then show ?thesis using reserve_loop_spec [of _ c r d] assms(2) that [of i] by (auto simp: reserve_grant_def next_id_def)
  qed
  have low: "rec_of j + k \<noteq> NEXT_OPERATION_OFFSET" for j k using rec_inside(2) [of j] by (simp add: NEXT_OPERATION_OFFSET_def)
  have field: "co_words d (rec_of j + k) = co_words c (rec_of j + k)" if "0 < k" "k < 192" for j k
    using i(1) low rec_field(1) [OF that] by simp
  show "same_plan j c d"
    using spec(2) i(1) field rec_inside(1) [of i] by (auto simp: same_plan_def load_def NEXT_OPERATION_OFFSET_def PLAN_OFFSET_def GRANT_HEADER_BYTES_def)
  have results: "result_stored j r d = result_stored j r c" for j r using field by (intro result_words) simp
  have other: "holds j st d = holds j st c" if "rec_of j \<noteq> rec_of i \<or> co_words d (rec_of i) = co_words c (rec_of i)" for j st
    using that i(1) low [of j 0] by (auto simp: holds_def load_def)
  show "kept c d"
  proof (cases "co_words d (rec_of i) = co_words c (rec_of i)")
    case True
    then show ?thesis using other results spec assms(1) by (simp add: kept_def)
  next
    case False
    then have new: "next_id c \<le> i" "i < next_id d" "holds i Reserved d" "load (rec_of i) c = 0 \<or> load (rec_of i) c mod 16 = grant_tag Acknowledged"
      using i(2) by auto
    have "holds j st c \<or> st = Reserved \<and> next_id c \<le> j \<and> j < next_id d" if "holds j st d" for j st
    proof (cases "rec_of j = rec_of i")
      case True
      then have "j = i" using holds_slot [OF that new(3)] by (simp add: rec_of_def grant_layout)
      then show ?thesis using that new holds_inject by blast
    qed (use other that in simp)
    moreover have "holds j st d" if "holds j st c" "st \<noteq> Acknowledged" for j st
    proof (cases "rec_of j = rec_of i")
      case True
      then show ?thesis using that new(4) grant_tag_less [of st] grant_tag_inject [of st Acknowledged] by (auto simp: holds_def simp del: grant_tag_inject grant_tag.simps)
    qed (use other that in simp)
    ultimately show ?thesis using results spec assms(1) by (simp add: kept_def)
  qed
qed

section \<open>Steps\<close>

lemma removed_run:
  assumes "run_inv s" and "gr_storing t = None" and "\<not> holds i Granted (gr_grants s)" and "\<not> holds i GrantedMore (gr_grants s)"
    and "gr_reading s i = None" and "t = s\<lparr>gr_grants := (gr_grants s)\<lparr>co_plans := bt_remove i (co_plans (gr_grants s))\<rparr>, gr_storing := None\<rparr>"
  shows "run_inv t"
proof (rule kept_run [OF assms(1)])
  show "kept (gr_grants s) (gr_grants t)"
    using assms(1,6) plans_ok_remove by (intro words_kept) (auto simp: run_inv_def next_id_def load_def)
  show "same_plan j (gr_grants s) (gr_grants t)"
    if "holds j Granted (gr_grants s) \<or> holds j GrantedMore (gr_grants s) \<or> gr_reading t j \<noteq> None" for j
    using that assms(3-6) by (auto simp: same_plan_def load_def)
qed (use assms in \<open>auto simp: run_inv_def reading_inv_def storing_inv_def\<close>)

lemma stored_holds:
  assumes "stored i plan c d"
  shows "holds j st d = holds j st c"
proof -
  have "rec_of j < PLAN_OFFSET" "rec_of j \<noteq> rec_of i + 8" "rec_of j \<noteq> rec_of i + 16" "rec_of j \<noteq> rec_of i + 24"
    using rec_inside(1) [of j] rec_field(1) [of 8 i j] rec_field(1) [of 16 i j] rec_field(1) [of 24 i j] by simp_all
  then have "co_words d (rec_of j) = co_words c (rec_of j)" using assms by (simp add: stored_def)
  then show ?thesis by (simp add: holds_def load_def)
qed

lemma stored_run:
  assumes inv: "run_inv s" and h: "holds i Preparing (gr_grants s)" and st: "stored i plan (gr_grants s) d"
  shows "run_inv (s\<lparr>gr_grants := d, gr_storing := Some (i, again, plan)\<rparr>)"
proof -
  let ?t = "s\<lparr>gr_grants := d, gr_storing := Some (i, again, plan)\<rparr>"
  have w: "co_words d x = co_words (gr_grants s) x" if "x < PLAN_OFFSET" "x \<noteq> rec_of i + 8" "x \<noteq> rec_of i + 16" "x \<noteq> rec_of i + 24" for x
    using st that by (simp add: stored_def)
  have field: "co_words d (rec_of j + k) = co_words (gr_grants s) (rec_of j + k)"
    if "k < 192" "k \<noteq> 8" "k \<noteq> 16" "k \<noteq> 24" for j k
    using rec_inside(1) [of j] rec_field(2) [of k _ j i] that by (intro w) auto
  have n: "next_id d = next_id (gr_grants s)"
    using w [of NEXT_OPERATION_OFFSET] rec_inside(2) [of i] by (simp add: next_id_def load_def NEXT_OPERATION_OFFSET_def PLAN_OFFSET_def GRANT_HEADER_BYTES_def)
  have k: "kept (gr_grants s) d"
    using st n field [of 0] field by (intro words_kept) (auto simp: stored_def)
  have plans: "same_plan j (gr_grants s) d" if "holds j st' (gr_grants s)" "j \<noteq> i" for j st'
  proof -
    have "j mod RESTORE_COMPLETION_SLOTS \<noteq> i mod RESTORE_COMPLETION_SLOTS" using holds_slot [OF that(1) h] that(2) by blast
    then have "load (rec_of j + k) d = load (rec_of j + k) (gr_grants s)" if "k \<in> {8, 16, 24}" for k
      using rec_apart [of j i] rec_inside(1) [of j] that unfolding load_def by (intro w) auto
    then show ?thesis using st that(2) by (auto simp: same_plan_def stored_def)
  qed
  have hd: "holds i st' d \<longleftrightarrow> st' = Preparing" for st' using stored_holds [OF st] h holds_inject by blast
  show ?thesis
  proof (rule kept_run [OF inv])
    show "same_plan j (gr_grants s) (gr_grants ?t)"
      if "holds j Granted (gr_grants s) \<or> holds j GrantedMore (gr_grants s) \<or> gr_reading ?t j \<noteq> None" for j
    proof -
      have "\<exists>st. holds j st (gr_grants s) \<and> st \<noteq> Preparing"
        using that inv by (auto simp: run_inv_def reading_inv_def)
      then have "same_plan j (gr_grants s) d" using plans h holds_inject by blast
      then show ?thesis by simp
    qed
    have "i < next_id (gr_grants s)" using inv h by (auto simp: run_inv_def ids_inv_def)
    then show "storing_inv ?t" using st hd n by (simp add: storing_inv_def stored_def)
  qed (use inv k in \<open>auto simp: run_inv_def reading_inv_def\<close>)
qed

lemma div_ceil_le:
  assumes "n \<le> k * 8"
  shows "div_ceil n 8 \<le> k"
proof (cases "n mod 8 = 0")
  case True
  then show ?thesis using div_le_mono [OF assms, of 8] by (simp add: div_ceil_def)
next
  case False
  then have "n div 8 * 8 < k * 8" using div_mult_mod_eq [of n 8] assms by linarith
  then show ?thesis using False by (simp add: div_ceil_def)
qed

lemma copied_whole:
  assumes "placed i plan c" and "copied i c plan (CopyingPlan off len out)" and "len \<le> length out"
  shows "take len out = plan"
proof -
  obtain k where k: "k \<le> div_ceil len 8" "len = length plan" "load (rec_of i + 8) c = off"
      "out = concat (map (\<lambda>k. le_bytes 8 (co_words c (PLAN_OFFSET + off + k * 8))) [0..<k])"
    using assms(2) by (auto simp: copied_def)
  have "length out = k * 8" using k(4) by (simp add: length_concat o_def sum_list_triv)
  then have "k = div_ceil len 8" using assms(3) k(1) div_ceil_le [of len k] by simp
  then have "take len out = load_chunks (PLAN_OFFSET + off) (length plan) (co_words c)" using k(2,4) by (simp only: load_chunks_def)
  then show ?thesis using assms(1) k(3) by (auto simp: placed_def)
qed

lemma finished_run:
  assumes inv: "run_inv s" and r: "gr_reading s i = Some (CopyingPlan off len out)" "len \<le> length out" and d: "claim_finish i (gr_grants s) = (Inr (), d)"
  shows "run_inv (s\<lparr>gr_grants := d, gr_reading := (gr_reading s)(i := None), gr_executing := (gr_executing s)(i \<mapsto> take len out)\<rparr>)"
proof -
  let ?c = "gr_grants s"
  let ?t = "s\<lparr>gr_grants := d, gr_reading := (gr_reading s)(i := None), gr_executing := (gr_executing s)(i \<mapsto> take len out)\<rparr>"
  obtain st plan where h: "st \<in> {Active, ActiveMore}" "holds i st ?c" and plan: "gr_published s i = Some plan" "placed i plan ?c"
      and cp: "copied i ?c plan (CopyingPlan off len out)"
    using inv r(1) unfolding run_inv_def reading_inv_def by blast
  have out: "take len out = plan" using plan(2) cp r(2) by (rule copied_whole)
  have de: "d = mark_dirty i (store (rec_of i + 24) 1 ?c)"
    using d h(2) by (simp add: claim_finish_def grant_offset_eq holds_def)
  have high: "co_words d x = co_words ?c x" if "4096 \<le> x" "x \<noteq> rec_of i + 24" for x
    using that by (simp add: de dirty_words store_def)
  have n: "next_id d = next_id ?c"
    using quiet_same_plan(2) [OF quiet_mark_dirty, of i "store (rec_of i + 24) 1 ?c"] rec_inside(2) [of i]
    by (simp add: de next_id_def load_def store_def NEXT_OPERATION_OFFSET_def)
  have pl: "co_plans d = co_plans ?c" by (simp add: de store_def)
  have k: "kept ?c d"
  proof (rule words_kept)
    show "co_words d (rec_of j) = co_words ?c (rec_of j)" for j using rec_inside(2) [of j] rec_field(1) [of 24 i j] by (intro high) auto
    show "co_words d (rec_of j + k) = co_words ?c (rec_of j + k)" if "32 \<le> k" "k < 192" for j k
      using that rec_inside(2) [of j] rec_field(2) [of k 24 j i] by (intro high) auto
  qed (use inv n pl in \<open>simp_all add: run_inv_def\<close>)
  have plans: "same_plan j ?c d" if "holds j st' ?c" "j \<noteq> i" for j st'
  proof -
    have "j mod RESTORE_COMPLETION_SLOTS \<noteq> i mod RESTORE_COMPLETION_SLOTS" using holds_slot [OF that(1) h(2)] that(2) by blast
    then have "load (rec_of j + k) d = load (rec_of j + k) ?c" if "k \<in> {8, 16, 24}" for k
      using rec_apart [of j i] rec_inside(2) [of j] that unfolding load_def by (intro high) auto
    moreover have "co_words d x = co_words ?c x" if "PLAN_OFFSET \<le> x" for x
      using that rec_inside(1) [of i] by (intro high) (auto simp: PLAN_OFFSET_def GRANT_HEADER_BYTES_def)
    ultimately show ?thesis using pl by (auto simp: same_plan_def)
  qed
  show ?thesis
  proof (rule kept_run [OF inv])
    show "same_plan j ?c (gr_grants ?t)"
      if "holds j Granted ?c \<or> holds j GrantedMore ?c \<or> gr_reading ?t j \<noteq> None" for j
    proof -
      have "j \<noteq> i" using that h holds_inject by fastforce
      moreover have "\<exists>st. holds j st ?c" using that inv by (auto simp: run_inv_def reading_inv_def split: if_splits)
      ultimately have "same_plan j ?c d" using plans by blast
      then show ?thesis by simp
    qed
    have "same_plan j ?c d" if "holds j Preparing ?c" for j using that plans h holds_inject by (metis grant_state.distinct insertE singletonD)
    then have "storing_inv (s\<lparr>gr_grants := d\<rparr>)" using inv by (intro kept_storing [OF k]) (auto simp: run_inv_def)
    then show "storing_inv ?t" by (simp add: storing_inv_def)
    show "gr_executing ?t j = Some plan' \<Longrightarrow> gr_executing s j = Some plan' \<or>
        gr_published s j = Some plan' \<and> (\<exists>st \<in> {Active, ActiveMore}. holds j st ?c)" for j plan'
      using out plan(1) h by (auto split: if_splits)
    show "gr_reading ?t j = Some phase \<Longrightarrow> gr_reading s j = Some phase \<and> gr_executing ?t j = None" for j phase
      using inv by (auto simp: run_inv_def reading_inv_def split: if_splits)
  qed (use k in simp_all)
qed

lemma claim_place_placed:
  assumes "plans_ok (co_plans c)" and "placed i plan c" and "holds i st c"
  shows "claim_place i c = Inr (load (rec_of i + 8) c, length plan)"
proof -
  have p: "map_of (co_plans c) i = Some (load (rec_of i + 8) c, load (rec_of i + 8) c + plan_size plan)" "load (rec_of i + 16) c = length plan"
      "plan \<noteq> []"
    using assms(2) by (auto simp: placed_def)
  have "load (rec_of i + 8) c mod 8 = 0" "load (rec_of i + 8) c + plan_size plan \<le> RESTORE_PLAN_BYTES"
    using assms(1) p(1) unfolding plans_ok_def by blast+
  moreover have "length plan \<le> plan_size plan" by (simp add: plan_size_def div_ceil_mult_ge)
  ultimately show ?thesis
    using p assms(3) by (simp add: claim_place_def grant_offset_eq holds_def Let_def)
qed

lemma copying_run:
  assumes "run_inv s" and "gr_reading s i = Some old" and "\<And>plan. placed i plan (gr_grants s) \<Longrightarrow> copied i (gr_grants s) plan old \<Longrightarrow> copied i (gr_grants s) plan new"
  shows "run_inv (s\<lparr>gr_reading := (gr_reading s)(i \<mapsto> new)\<rparr>)"
proof -
  have "reading_inv (s\<lparr>gr_reading := (gr_reading s)(i \<mapsto> new)\<rparr>)"
    unfolding reading_inv_def
  proof (intro allI impI)
    fix j phase assume "gr_reading (s\<lparr>gr_reading := (gr_reading s)(i \<mapsto> new)\<rparr>) j = Some phase"
    then show "(\<exists>st \<in> {Active, ActiveMore}. holds j st (gr_grants (s\<lparr>gr_reading := (gr_reading s)(i \<mapsto> new)\<rparr>))) \<and>
        gr_executing (s\<lparr>gr_reading := (gr_reading s)(i \<mapsto> new)\<rparr>) j = None \<and>
        (\<exists>plan. gr_published (s\<lparr>gr_reading := (gr_reading s)(i \<mapsto> new)\<rparr>) j = Some plan \<and>
          placed j plan (gr_grants (s\<lparr>gr_reading := (gr_reading s)(i \<mapsto> new)\<rparr>)) \<and>
          copied j (gr_grants (s\<lparr>gr_reading := (gr_reading s)(i \<mapsto> new)\<rparr>)) plan phase)"
      using assms unfolding run_inv_def reading_inv_def by (cases "j = i") fastforce+
  qed
  then show ?thesis
    using assms(1) by (simp add: run_inv_def granted_inv_def executing_inv_def storing_inv_def ids_inv_def result_inv_def)
qed

lemma copied_word:
  assumes "copied i c plan (CopyingPlan off len out)" and "length out < len"
  shows "copied i c plan (CopyingPlan off len (out @ le_bytes 8 (load (PLAN_OFFSET + off + length out) c)))"
proof -
  obtain k where k: "k \<le> div_ceil len 8" "len = length plan" "load (rec_of i + 8) c = off"
      "out = concat (map (\<lambda>k. le_bytes 8 (co_words c (PLAN_OFFSET + off + k * 8))) [0..<k])"
    using assms(1) by (auto simp: copied_def)
  have l: "length out = k * 8" using k(4) by (simp add: length_concat o_def sum_list_triv)
  then have "k < div_ceil len 8" using assms(2) k(1) div_ceil_mult_ge [of 8 len] by (cases "k = div_ceil len 8") auto
  moreover have "out @ le_bytes 8 (load (PLAN_OFFSET + off + length out) c) =
      concat (map (\<lambda>k. le_bytes 8 (co_words c (PLAN_OFFSET + off + k * 8))) [0..<Suc k])"
    unfolding l using k(4) by (simp add: load_def)
  ultimately show ?thesis unfolding copied_def claim_phase.case using k(2,3) by (metis Suc_leI)
qed

lemma reaped_run:
  assumes inv: "run_inv s" and none: "gr_storing s = None" and e: "reap_grant i (gr_grants s) = (r, d)"
  shows "run_inv (s\<lparr>gr_grants := d, gr_result :=
    (if r = Inr () \<and> grant_state_of i (gr_grants s) = Inr Revoked then (gr_result s)(i \<mapsto> Inl (ascii ''restore grant revoked'')) else gr_result s)\<rparr>)"
proof -
  let ?c = "(gr_grants s)\<lparr>co_plans := bt_remove i (co_plans (gr_grants s))\<rparr>"
  consider "d = gr_grants s" "isl r"
    | a where "a \<in> {Drained, Revoked}" "moves i a Reaped ?c d" "r = Inr ()"
        "if a = Revoked then result_stored i (Inl (ascii ''restore grant revoked'')) d
         else \<forall>res. result_stored i res (gr_grants s) \<longrightarrow> result_stored i res d"
    using reap_grant_spec [OF e] by blast
  then show ?thesis
  proof cases
    case 1
    then show ?thesis using inv by auto
  next
    case 2
    let ?s = "s\<lparr>gr_grants := ?c, gr_storing := None\<rparr>"
    have h: "holds i a (gr_grants s)" using 2(2) by (simp add: moves_def holds_def load_def)
    have idle: "gr_reading s i = None" "gr_executing s i = None" using idle_claim [OF inv h] 2(1) by auto
    have "\<not> holds i st (gr_grants s)" if "st \<in> {Granted, GrantedMore}" for st using h 2(1) holds_inject that by blast
    then have inv': "run_inv ?s" using idle by (intro removed_run [OF inv]) auto
    have res: "\<exists>res. result_stored i res d \<and> utf8_valid (clipped res) \<and>
        (if a = Revoked then (gr_result s)(i \<mapsto> Inl (ascii ''restore grant revoked'')) else gr_result s) = (gr_result s)(i \<mapsto> res)"
    proof (cases "a = Revoked")
      case True
      have "utf8_valid (ascii ''restore grant revoked'')" by code_simp
      then show ?thesis using True 2(4) utf8_clipped by auto
    next
      case False
      then have "holds i Drained (gr_grants s)" using h 2(1) by simp
      then obtain res where "gr_result s i = Some res" "result_stored i res (gr_grants s)" "utf8_valid (clipped res)"
        using inv unfolding run_inv_def result_inv_def by blast
      then show ?thesis using False 2(4) by (auto intro!: exI [of _ res] simp: fun_upd_idem)
    qed
    then obtain res where res: "result_stored i res d" "utf8_valid (clipped res)"
        "(if a = Revoked then (gr_result s)(i \<mapsto> Inl (ascii ''restore grant revoked'')) else gr_result s) = (gr_result s)(i \<mapsto> res)"
      by blast
    have "run_inv (?s\<lparr>gr_grants := d, gr_executing := (gr_executing ?s)(i := None), gr_result := (gr_result ?s)(i \<mapsto> res)\<rparr>)"
      using 2 idle res by (intro result_run [OF inv', of i a Reaped]) auto
    moreover have "grant_state_of i (gr_grants s) = Inr Revoked \<longleftrightarrow> a = Revoked"
      using h holds_inject by (auto simp: grant_state_of_iff)
    ultimately show ?thesis using res(3) 2(3) idle(2) none by (cases s) (simp add: fun_upd_idem)
  qed
qed

lemma granting_run:
  assumes inv: "run_inv s" and st: "gr_storing s = Some (i, again, plan)" and e: "publish_grant i again (gr_grants s) = (r, d)"
  shows "run_inv (s\<lparr>gr_grants := d, gr_storing := None, gr_published := (if r = Inr True then (gr_published s)(i \<mapsto> plan) else gr_published s)\<rparr>)"
proof (cases "holds i Preparing (gr_grants s)")
  case True
  let ?b = "if again then GrantedMore else Granted"
  have "r = Inr True" "d = set_state i ?b (gr_grants s)" using e True by (auto simp: publish_grant_def transition_eq)
  then show ?thesis using published_run [OF inv moves_set_state [OF True], of ?b again plan] st by simp
next
  case False
  have "\<not> holds i st (gr_grants s)" if "st \<in> {Granted, GrantedMore, Active, ActiveMore}" for st
    using inv st that unfolding run_inv_def storing_inv_def by fastforce
  then have quiet: "\<not> holds i Granted (gr_grants s)" "\<not> holds i GrantedMore (gr_grants s)" "gr_reading s i = None"
    using inv unfolding run_inv_def reading_inv_def by (blast, blast, meson insertCI not_Some_eq)
  have r: "r \<noteq> Inr True" and d: "d = gr_grants s \<or> d = (gr_grants s)\<lparr>co_plans := bt_remove i (co_plans (gr_grants s))\<rparr>"
    using e False by (auto simp: publish_grant_def transition_eq split: sum.splits if_splits)
  have "run_inv (s\<lparr>gr_storing := None\<rparr>)"
    using inv by (simp add: run_inv_def granted_inv_def reading_inv_def executing_inv_def storing_inv_def ids_inv_def result_inv_def)
  moreover have "run_inv (s\<lparr>gr_grants := (gr_grants s)\<lparr>co_plans := bt_remove i (co_plans (gr_grants s))\<rparr>, gr_storing := None\<rparr>)"
    using quiet by (intro removed_run [OF inv]) auto
  ultimately show ?thesis using d r by (cases s) auto
qed

lemma release_run:
  assumes inv: "run_inv s" and st: "gr_storing s = None" and e: "release_plan i (gr_grants s) = (r, d)"
  shows "run_inv (s\<lparr>gr_grants := d\<rparr>)"
proof (cases "d = gr_grants s")
  case False
  then obtain a where h: "holds i a (gr_grants s)" and d: "d = (gr_grants s)\<lparr>co_plans := bt_remove i (co_plans (gr_grants s))\<rparr>"
      and a: "a \<in> {Revoked, Drained, PartDrained} \<or> a \<in> {Active, ActiveMore} \<and> load (rec_of i + 24) (gr_grants s) = 1"
    using e by (auto simp: release_plan_def grant_offset_eq grant_state_of_iff split: sum.splits if_splits)
  have "gr_reading s i = None"
  proof (cases "a \<in> {Active, ActiveMore}")
    case True
    then have "load (rec_of i + 24) (gr_grants s) = 1" using a by auto
    then have "\<not> placed i plan (gr_grants s)" for plan by (simp add: placed_def)
    then show ?thesis using inv unfolding run_inv_def reading_inv_def by (meson not_Some_eq)
  qed (use idle_claim(1) [OF inv h] in auto)
  moreover have "\<not> holds i g (gr_grants s)" if "g \<in> {Granted, GrantedMore}" for g using h a that holds_inject by blast
  ultimately have "run_inv (s\<lparr>gr_grants := d, gr_storing := None\<rparr>)" using d by (intro removed_run [OF inv]) auto
  then show ?thesis using st by (cases s) simp
qed (use inv in simp)

lemma grant_step_inv:
  assumes "grant_step s t" and "run_inv s"
  shows "run_inv t"
  using assms
proof (induction rule: grant_step.induct)
  case (engine_reserve s r d)
  then have "plans_ok (co_plans (gr_grants s))" by (simp add: run_inv_def)
  note k = reserve_kept [OF this engine_reserve(1)]
  show ?case
    by (rule kept_run [OF engine_reserve(2)])
      (use engine_reserve k kept_storing [OF k(1)] in \<open>auto simp: run_inv_def reading_inv_def\<close>)
next
  case (engine_cancel i s r d)
  then have "d = gr_grants s \<or> moves i Reserved Acknowledged (gr_grants s) d \<or> moves i Preparing CancelRequested (gr_grants s) d"
    by (auto simp: cancel_grant_eq grant_state_of_iff moves_set_state split: sum.splits if_splits)
  then show ?case using engine_cancel(2) plain_run by (auto simp: plain_move_def)
next
  case (engine_claim i s d)
  then show ?case using claim_begin_spec [OF engine_claim(1)] claimed_run by auto
next
  case (engine_place s i off len)
  have "copied i (gr_grants s) plan (CopyingPlan off len [])" if "placed i plan (gr_grants s)" for plan
    using that engine_place claim_place_placed [of "gr_grants s" i plan]
    by (auto simp: run_inv_def reading_inv_def copied_def)
  then show ?case using engine_place by (intro copying_run) auto
next
  case (engine_bad_place s i e r d)
  then show ?case using claim_place_placed by (fastforce simp: run_inv_def reading_inv_def)
next
  case (engine_word s i off len out)
  then show ?case by (intro copying_run copied_word)
next
  case (engine_return s i off len out d)
  then show ?case by (intro finished_run)
next
  case (engine_drained s i result timing terminal d)
  then have "gr_reading s i = None" unfolding run_inv_def reading_inv_def by (meson not_Some_eq)
  then show ?case
    using drained_grant_spec [OF engine_drained(3)] text_clipped [OF engine_drained(2)] result_run [OF engine_drained(4), of i _ _ d result]
    by (auto split: if_splits)
next
  case (engine_poll i s r d)
  show ?case
  proof (cases "moves i Reaped Acknowledged (gr_grants s) d")
    case True
    then have "holds i Reaped (gr_grants s)" by (simp add: moves_def)
    then obtain res where res: "gr_result s i = Some res" "result_stored i res (gr_grants s)" "utf8_valid (clipped res)"
      using engine_poll(2) unfolding run_inv_def result_inv_def by blast
    have "d \<noteq> gr_grants s" using True holds_inject by (auto simp: moves_def)
    then have "r = Inr (delivery i res)" using poll_grant_spec [OF engine_poll(1)] res by (auto simp: delivery_def)
    moreover have "rr_state (delivery i res) \<noteq> RestorePending" by (simp add: delivery_def)
    ultimately show ?thesis using delivered_run [OF engine_poll(2) True res(1)] by simp
  next
    case False
    then show ?thesis using poll_grant_spec [OF engine_poll(1)] engine_poll(2) by (auto split: sum.split)
  qed
next
  case (manager_claim i s d)
  then show ?case using claim_admitted by (auto simp: claim_grant_def transition_eq moves_set_state split: if_splits)
next
  case (manager_start i s r d)
  then have "d = gr_grants s \<or> (\<exists>a \<in> {Preparing, CancelRequested}. moves i a Managed (gr_grants s) d)"
    by (auto simp: start_managed_eq grant_state_of_iff moves_set_state split: sum.splits if_splits)
  then show ?case using manager_start(2) plain_run by (auto simp: plain_move_def)
next
  case (manager_store s i plan d again)
  then have "holds i Preparing (gr_grants s) \<and> stored i plan (gr_grants s) d"
    using publish_store_spec [of "gr_grants s" i plan] by (auto simp: run_inv_def)
  then show ?case using manager_store(3) stored_run by blast
next
  case (manager_grant s i again plan r d)
  then show ?case using granting_run by blast
next
  case (manager_release s i r d)
  then show ?case using release_run by blast
next
  case (manager_continue i s r d)
  then have "d = gr_grants s \<or> moves i PartDrained Preparing (gr_grants s) d"
    by (auto simp: continue_local_def transition_eq moves_set_state split: if_splits)
  then show ?case using manager_continue(2) plain_run by (auto simp: plain_move_def)
next
  case (manager_revoke i s r d)
  then have "d = gr_grants s \<or> (\<exists>a \<in> {Granted, GrantedMore, PartDrained}. moves i a Revoked (gr_grants s) d)"
    by (auto simp: revoke_grant_eq grant_state_of_iff moves_set_state moves_dirty split: sum.splits if_splits)
  then show ?case using manager_revoke(2) plain_run by (auto simp: plain_move_def)
next
  case (manager_reap s i r d)
  then show ?case using reaped_run by blast
next
  case (manager_reject message i s r d)
  show ?case
  proof (cases "r = Inr ()")
    case True
    then obtain a where a: "a \<in> {Preparing, CancelRequested}" "moves i a Reaped (gr_grants s) d" "result_stored i (Inl message) d"
      using reject_grant_spec [OF manager_reject(2)] by auto
    then show ?thesis using True ended_run [OF manager_reject(3) a(2)] utf8_clipped [OF manager_reject(1)] by auto
  next
    case False
    then show ?thesis using reject_grant_spec [OF manager_reject(2)] manager_reject(3) by auto
  qed
next
  case (manager_complete result i s r d)
  show ?case
  proof (cases "r = Inr ()")
    case True
    then have a: "moves i Managed Reaped (gr_grants s) d" "result_stored i result d"
      using complete_grant_spec [OF manager_complete(2)] by auto
    then show ?thesis using True ended_run [OF manager_complete(3) a(1)] text_clipped [OF manager_complete(1)] by auto
  next
    case False
    then show ?thesis using complete_grant_spec [OF manager_complete(2)] manager_complete(3) by auto
  qed
next
  case (manager_inspect s r d)
  let ?c = "(gr_grants s)\<lparr>co_manager_notified := False\<rparr>"
  have w: "co_plans d = co_plans (gr_grants s)" "\<And>x. x < 64 \<or> 192 \<le> x \<Longrightarrow> co_words d x = co_words (gr_grants s) x"
    using dirty_updates_words [of "[0..<DIRTY_WORDS]" ?c r d] manager_inspect(1) by (auto simp: manager_updates_def DIRTY_WORDS_def)
  have "plans_ok (co_plans (gr_grants s))" using manager_inspect(2) by (simp add: run_inv_def)
  note k = low_kept [OF this w]
  show ?case
    by (rule kept_run [OF manager_inspect(2)])
      (use manager_inspect k kept_storing [OF k(1)] in \<open>auto simp: run_inv_def reading_inv_def\<close>)
qed

lemma grant_start_inv:
  assumes "grant_start s"
  shows "run_inv s"
proof -
  have "\<not> holds i st (completions_create epoch token)" for i st epoch token
    using rec_inside(2) [of i] by (auto simp: holds_def load_def completions_create_def NEXT_OPERATION_OFFSET_def)
  then show ?thesis using assms
    by (auto simp: grant_start_def run_inv_def granted_inv_def reading_inv_def executing_inv_def storing_inv_def ids_inv_def result_inv_def
        completions_create_def)
qed

interpretation gp: invariant_system grant_start grant_step run_inv
  by unfold_locales (auto intro: grant_start_inv grant_step_inv)

text \<open>C3. Whatever the two processes do, a plan that an engine has been given and executes is the plan that was last
  published for its operation: it was neither overwritten nor released while it was copied.\<close>

theorem claimed_plan_exact:
  assumes "reach grant_start grant_step s" and "gr_executing s i = Some plan"
  shows "gr_published s i = Some plan"
  using gp.reach_inv [OF assms(1)] assms(2) by (simp add: run_inv_def executing_inv_def)

text \<open>C4. An operation is admitted at most once and its result is delivered at most once. What is delivered is the result
  that was recorded for it, its message cut at a character to 88 bytes, and an operation that was reaped is delivered by
  the next poll.\<close>

theorem restore_delivered_once:
  assumes "reach grant_start grant_step s"
  shows "distinct (gr_admitted s) \<and> distinct (map fst (gr_delivered s)) \<and>
    (\<forall>(i, resp) \<in> set (gr_delivered s). \<exists>res. gr_result s i = Some res \<and> resp = delivery i res) \<and>
    (\<forall>i. grant_state_of i (gr_grants s) = Inr Reaped \<longrightarrow>
       (\<exists>res. gr_result s i = Some res \<and> fst (poll_grant i (gr_grants s)) = Inr (delivery i res)))"
proof -
  have inv: "ids_inv s" "result_inv s" using gp.reach_inv [OF assms] by (simp_all add: run_inv_def)
  have "\<exists>res. gr_result s i = Some res \<and> fst (poll_grant i (gr_grants s)) = Inr (delivery i res)"
    if "grant_state_of i (gr_grants s) = Inr Reaped" for i
  proof -
    have h: "holds i Reaped (gr_grants s)" using that by (simp add: grant_state_of_iff)
    then obtain res where res: "gr_result s i = Some res" "result_stored i res (gr_grants s)" "utf8_valid (clipped res)"
      using inv(2) unfolding result_inv_def by blast
    have o: "grant_offset i = Inr (rec_of i)" using h by (simp add: grant_offset_eq holds_def)
    have w: "load (rec_of i + 32) (gr_grants s) div 2 = length (clipped res)"
        "load (rec_of i + 32) (gr_grants s) mod 2 = 0 \<longleftrightarrow> \<not> isl res"
        "load_chunks (rec_of i + 40) (length (clipped res)) (co_words (gr_grants s)) = clipped res"
      using res(2) by (auto simp: result_stored_def)
    have "fst (poll_grant i (gr_grants s)) = Inr (delivery i res)"
      using h that o w res(3) length_clipped [of res] by (simp add: poll_grant_def transition_eq delivery_def Let_def RESTORE_ERROR_BYTES_def)
    then show ?thesis using res(1) by blast
  qed
  moreover have "\<forall>(i, resp) \<in> set (gr_delivered s). \<exists>res. gr_result s i = Some res \<and> resp = delivery i res"
    using inv(2) unfolding result_inv_def by fast
  ultimately show ?thesis using inv(1) by (simp add: ids_inv_def)
qed

text \<open>A run of one operation: it is reserved and admitted; its plan of one byte is published, claimed and copied, or the
  operation is rejected and polled.\<close>

definition sample_grants :: "nat \<Rightarrow> completions" where
  "sample_grants tag = store 4288 tag (store NEXT_OPERATION_OFFSET 2 (completions_create 1 1))"

definition sample_run :: "grant_run" where
  "sample_run = \<lparr>gr_grants = sample_grants 17, gr_storing = None, gr_reading = Map.empty, gr_executing = Map.empty,
     gr_published = Map.empty, gr_result = Map.empty, gr_admitted = [1], gr_delivered = []\<rparr>"

lemma rec_of_1 [simp]: "rec_of (Suc 0) = 4288" "grant_offset (Suc 0) = Inr 4288"
  by (simp_all add: rec_of_def grant_layout grant_offset_eq MAX_OPERATION_ID_def)

lemma sample_steps:
  "reserve_grant (completions_create 1 1) = (Inr 1, sample_grants 16)" "claim_grant 1 (sample_grants 16) = (Inr (), sample_grants 17)"
proof -
  have n: "RESTORE_COMPLETION_SLOTS = Suc 1023" by (simp add: RESTORE_COMPLETION_SLOTS_def)
  show "reserve_grant (completions_create 1 1) = (Inr 1, sample_grants 16)"
    unfolding reserve_grant_def n reserve_loop.simps
    by (simp add: completions_create_def load_def store_def sample_grants_def NEXT_OPERATION_OFFSET_def MAX_OPERATION_ID_def) (simp add: numeral_2_eq_2)
  show "claim_grant 1 (sample_grants 16) = (Inr (), sample_grants 17)"
    by (simp add: claim_grant_def transition_def sample_grants_def load_def store_def)
qed

lemma sample_reach: "reach grant_start grant_step sample_run"
proof -
  let ?s = "\<lambda>c as. \<lparr>gr_grants = c, gr_storing = None, gr_reading = Map.empty, gr_executing = Map.empty,
     gr_published = Map.empty, gr_result = Map.empty, gr_admitted = as, gr_delivered = []\<rparr>"
  have 0: "reach grant_start grant_step (?s (completions_create 1 1) [])"
    by (rule reach_start) (auto simp: grant_start_def)
  have 1: "reach grant_start grant_step (?s (sample_grants 16) [])"
    using reach_step [OF 0 engine_reserve [of "?s (completions_create 1 1) []" "Inr 1" "sample_grants 16"]] sample_steps(1) by simp
  show ?thesis
    using reach_step [OF 1 manager_claim [of 1 "?s (sample_grants 16) []" "sample_grants 17"]] sample_steps(2) by (simp add: sample_run_def)
qed

lemma sample_holds: "holds 1 Preparing (sample_grants 17)" "co_plans (sample_grants 17) = []"
  by (simp_all add: holds_def load_def store_def sample_grants_def completions_create_def MAX_OPERATION_ID_def)

theorem claimed_plan_exact_witness:
  "\<exists>s. reach grant_start grant_step s \<and> gr_executing s 1 = Some [7] \<and> gr_published s 1 = Some [7]"
proof -
  let ?R = "reach grant_start grant_step"
  have st: "grant_state_of 1 (sample_grants 17) = Inr Preparing" using sample_holds(1) by (simp only: grant_state_of_iff)
  have "\<exists>d. publish_store 1 [7] (sample_grants 17) = Some (Inr True, d)"
    unfolding publish_store_def st sample_holds(2) by (simp add: bt_keys_def bt_values_def plan_size_def div_ceil_def RESTORE_PLAN_BYTES_def)
  then obtain d where d: "publish_store 1 [7] (sample_grants 17) = Some (Inr True, d)" ..
  let ?s1 = "sample_run\<lparr>gr_grants := d, gr_storing := Some (1, False, [7])\<rparr>"
  have 1: "?R ?s1"
    using reach_step [OF sample_reach manager_store [of sample_run 1 "[7]" d False]] d by (simp add: sample_run_def)
  have "stored 1 [7] (sample_grants 17) d" using publish_store_spec [of "sample_grants 17" 1 "[7]"] d sample_holds by auto
  then have "holds 1 Preparing d" using sample_holds(1) stored_holds by blast
  then have g: "publish_grant 1 False d = (Inr True, set_state 1 Granted d)" "holds 1 Granted (set_state 1 Granted d)"
    by (simp_all add: publish_grant_def transition_eq)
  let ?s2 = "?s1\<lparr>gr_grants := set_state 1 Granted d, gr_storing := None, gr_published := [1 \<mapsto> [7]]\<rparr>"
  have 2: "?R ?s2" using reach_step [OF 1 manager_grant [of ?s1 1 False "[7]" "Inr True" "set_state 1 Granted d"]] g(1) by (simp add: sample_run_def)
  let ?a = "set_state 1 Active (set_state 1 Granted d)"
  have gs: "grant_state_of 1 (set_state 1 Granted d) = Inr Granted" using g(2) by (simp only: grant_state_of_iff)
  have c: "claim_begin 1 (set_state 1 Granted d) = (Inr True, ?a)" "holds 1 Active ?a"
    unfolding claim_begin_def gs using g(2) by (simp_all add: transition_eq)
  let ?s3 = "?s2\<lparr>gr_grants := ?a, gr_reading := [1 \<mapsto> ClaimWon]\<rparr>"
  have "grant_step ?s2 (?s2\<lparr>gr_grants := ?a, gr_reading := (gr_reading ?s2)(1 \<mapsto> ClaimWon)\<rparr>)"
    using c(1) by (intro engine_claim) (simp del: One_nat_def)
  then have 3: "?R ?s3" using reach_step [OF 2] by (simp add: sample_run_def del: One_nat_def)
  have inv: "reading_inv ?s3" "plans_ok (co_plans ?a)" using gp.reach_inv [OF 3] by (simp_all add: run_inv_def)
  have "placed 1 [7] ?a" using inv(1) [unfolded reading_inv_def, rule_format, of 1 ClaimWon] by simp
  from claim_place_placed [OF inv(2) this c(2)] obtain off where p: "claim_place 1 ?a = Inr (off, 1)" by simp
  let ?s4 = "?s3\<lparr>gr_reading := [1 \<mapsto> CopyingPlan off 1 []]\<rparr>"
  have "grant_step ?s3 (?s3\<lparr>gr_reading := (gr_reading ?s3)(1 \<mapsto> CopyingPlan off 1 [])\<rparr>)"
    using p by (intro engine_place) (simp_all del: One_nat_def)
  then have 4: "?R ?s4" using reach_step [OF 3] by (simp del: One_nat_def)
  obtain out where out: "length out = 8" "out = le_bytes 8 (load (PLAN_OFFSET + off) ?a)" by simp
  let ?s5 = "?s4\<lparr>gr_reading := [1 \<mapsto> CopyingPlan off 1 out]\<rparr>"
  have "grant_step ?s4 (?s4\<lparr>gr_reading := (gr_reading ?s4)
      (1 \<mapsto> CopyingPlan off 1 ([] @ le_bytes 8 (load (PLAN_OFFSET + off + length ([] :: bytes)) (gr_grants ?s4))))\<rparr>)"
    by (intro engine_word) simp_all
  then have 5: "?R ?s5" using reach_step [OF 4] out(2) by (simp del: One_nat_def)
  have f: "claim_finish 1 ?a = (Inr (), mark_dirty 1 (store 4312 1 ?a))" by (simp add: claim_finish_def)
  let ?s6 = "?s5\<lparr>gr_grants := mark_dirty 1 (store 4312 1 ?a), gr_reading := Map.empty, gr_executing := [1 \<mapsto> take 1 out]\<rparr>"
  have "grant_step ?s5 (?s5\<lparr>gr_grants := mark_dirty 1 (store 4312 1 ?a), gr_reading := (gr_reading ?s5)(1 := None),
      gr_executing := (gr_executing ?s5)(1 \<mapsto> take 1 out)\<rparr>)"
    using f out(1) by (intro engine_return [where off = off]) (simp_all del: One_nat_def)
  then have 6: "?R ?s6" using reach_step [OF 5] by (simp add: sample_run_def del: One_nat_def)
  have "gr_published ?s6 1 = Some (take 1 out)" by (rule claimed_plan_exact [OF 6]) simp
  then show ?thesis using 6 by (intro exI [of _ ?s6]) simp
qed

theorem restore_delivered_once_witness:
  "\<exists>s. reach grant_start grant_step s \<and> gr_admitted s = [1] \<and>
    gr_delivered s = [(1, \<lparr>rr_operation_id = 1, rr_state = RestoreFailed, rr_message = [66]\<rparr>)] \<and> distinct (map fst (gr_delivered s))"
proof -
  let ?R = "reach grant_start grant_step"
  have u: "utf8_valid [66]" "clipped (Inl [66]) = [66]"
    by (simp_all add: utf8_valid_def clipped_def RESTORE_ERROR_BYTES_def char_boundary_def)
  obtain d where r: "reject_grant 1 [66] (sample_grants 17) = Some (Inr (), d)" using reject_grant_accepts sample_holds(1) by blast
  have ok: "holds 1 Reaped d" using reject_grant_spec [OF r] by (auto simp: moves_def)
  let ?s = "sample_run\<lparr>gr_grants := d, gr_result := [1 \<mapsto> Inl [66]]\<rparr>"
  have 1: "?R ?s"
    using reach_step [OF sample_reach manager_reject [of "[66]" 1 sample_run "Inr ()" d]] u(1) r by (simp add: sample_run_def)
  have "grant_state_of 1 d = Inr Reaped" using ok by (simp only: grant_state_of_iff)
  then have "fst (poll_grant 1 d) = Inr (delivery 1 (Inl [66]))"
    using restore_delivered_once [OF 1] by (auto simp: sample_run_def)
  then obtain e where e: "poll_grant 1 d = (Inr (delivery 1 (Inl [66])), e)" by (cases "poll_grant 1 d") auto
  let ?t = "?s\<lparr>gr_grants := e, gr_delivered := [(1, delivery 1 (Inl [66]))]\<rparr>"
  have "?R ?t"
    using reach_step [OF 1 engine_poll [of 1 ?s "Inr (delivery 1 (Inl [66]))" e]] e by (simp add: sample_run_def delivery_def)
  moreover have "distinct (map fst (gr_delivered ?t))" using restore_delivered_once [OF calculation] by blast
  ultimately show ?thesis using u(2) by (intro exI [of _ ?t]) (simp add: sample_run_def delivery_def)
qed

end
