(* ===== verification/Restore_Reaper.thy ===== *)
theory Restore_Reaper
  imports Grant_Protocol
begin

text \<open>
  The Manager's owner of the restore sources of one session (\<open>LocalGrants\<close>, \<open>SourceGrant\<close> and \<open>reap_sources\<close> in
  \<open>orbitkv-server/src/endpoint/restore.rs\<close>, \<open>RawRestoreGrant\<close> in \<open>orbitkv-core/src/engine/restore.rs\<close>). It runs beside the
  engine and the other tasks of the Manager on the restore grants of \<open>Grant_Protocol\<close>. A step is the handling of one
  message, of one observed update or of one pending plan; the updates are observed first and handled later, when the
  record may have moved on. The reported metrics and timelines are left out.
\<close>

section \<open>Source owners\<close>

text \<open>\<open>RawRestoreGrant\<close>: the parts of the plan that are left; the payload sources and their reservations are owned as long
  as the record exists.\<close>

record source_owner =
  ow_plans :: "bytes list"
  ow_permit :: nat

definition encoded_plan :: "source_owner \<Rightarrow> (bytes \<times> bool) option" where
  "encoded_plan ow = (case ow_plans ow of [] \<Rightarrow> None | plan # _ \<Rightarrow> Some (plan, length (ow_plans ow) > 1))"

definition plan_bytes :: "bytes list \<Rightarrow> nat" where
  "plan_bytes plans = sum_list (map length plans)"

definition advance_plan :: "source_owner \<Rightarrow> source_owner \<times> bool" where
  "advance_plan ow = (if length (ow_plans ow) \<le> 1 then (ow, False) else (ow\<lparr>ow_plans := tl (ow_plans ow)\<rparr>, True))"

definition LOCAL_PLAN_METADATA_BYTES :: nat where "LOCAL_PLAN_METADATA_BYTES = 64 * 1024 * 1024"

text \<open>\<open>rp_quarantine\<close> are the operations whose source is kept for good.\<close>

record reaper =
  rp_run :: grant_run
  rp_incoming :: "(nat \<times> source_owner) list"
  rp_sources :: "(nat, source_owner) btree"
  rp_pending :: "nat list"
  rp_updates :: "(nat \<times> grant_state) list"
  rp_connected :: bool
  rp_budget :: nat
  rp_quarantine :: "nat set"

section \<open>Operations on the records\<close>

text \<open>The operations of the grants, with the history of \<open>Grant_Protocol\<close> kept up to date.\<close>

definition run_reject :: "nat \<Rightarrow> bytes \<Rightarrow> grant_run \<Rightarrow> grant_run" where
  "run_reject i message g =
     (case reject_grant i message (gr_grants g) of
        None \<Rightarrow> g
      | Some (r, d) \<Rightarrow> g\<lparr>gr_grants := d,
          gr_result := (if r = Inr () then (gr_result g)(i \<mapsto> Inl message) else gr_result g)\<rparr>)"

definition run_revoke :: "nat \<Rightarrow> grant_run \<Rightarrow> grant_run" where
  "run_revoke i g = (case revoke_grant i (gr_grants g) of None \<Rightarrow> g | Some (r, d) \<Rightarrow> g\<lparr>gr_grants := d\<rparr>)"

definition run_release :: "nat \<Rightarrow> grant_run \<Rightarrow> grant_run" where
  "run_release i g = g\<lparr>gr_grants := snd (release_plan i (gr_grants g))\<rparr>"

definition run_continue :: "nat \<Rightarrow> grant_run \<Rightarrow> (completion_error + unit) \<times> grant_run" where
  "run_continue i g = (case continue_local i (gr_grants g) of (r, d) \<Rightarrow> (r, g\<lparr>gr_grants := d\<rparr>))"

definition run_reap :: "nat \<Rightarrow> grant_run \<Rightarrow> grant_run" where
  "run_reap i g =
     (case reap_grant i (gr_grants g) of
        (r, d) \<Rightarrow> g\<lparr>gr_grants := d, gr_result :=
          (if r = Inr () \<and> grant_state_of i (gr_grants g) = Inr Revoked
           then (gr_result g)(i \<mapsto> Inl (ascii ''restore grant revoked'')) else gr_result g)\<rparr>)"

definition run_publish :: "nat \<Rightarrow> bytes \<Rightarrow> bool \<Rightarrow> grant_run \<Rightarrow> ((completion_error + bool) \<times> grant_run) option" where
  "run_publish i plan again g =
     (case publish_local i plan again (gr_grants g) of
        None \<Rightarrow> None
      | Some (r, d) \<Rightarrow> Some (r, g\<lparr>gr_grants := d,
          gr_published := (if r = Inr True then (gr_published g)(i \<mapsto> plan) else gr_published g)\<rparr>))"

text \<open>\<open>drop\<close> of a source owner: whether its source may be released.\<close>

definition source_safe :: "nat \<Rightarrow> completions \<Rightarrow> bool \<times> completions" where
  "source_safe i c =
     (case grant_state_of i c of
        Inl _ \<Rightarrow> (False, c)
      | Inr st \<Rightarrow>
          if st \<in> {Granted, GrantedMore} then
            (case revoke_grant i c of
               None \<Rightarrow> (False, c)
             | Some (r, d) \<Rightarrow>
                 (r = Inr True \<or>
                  grant_state_of i d \<in> {Inr PartDrained, Inr Drained, Inr Reaped, Inr Acknowledged}, d))
          else (st \<notin> {Active, ActiveMore}, c))"

definition drop_owner :: "nat \<Rightarrow> source_owner \<Rightarrow> reaper \<Rightarrow> reaper" where
  "drop_owner i ow s =
     (case source_safe i (gr_grants (rp_run s)) of
        (safe, d) \<Rightarrow> s\<lparr>rp_run := (rp_run s)\<lparr>gr_grants := d\<rparr>,
          rp_budget := (if safe then rp_budget s + ow_permit ow else rp_budget s),
          rp_quarantine := (if safe then rp_quarantine s else insert i (rp_quarantine s))\<rparr>)"

definition remove_owner :: "nat \<Rightarrow> reaper \<Rightarrow> reaper" where
  "remove_owner i s =
     (case map_of (rp_sources s) i of
        None \<Rightarrow> s
      | Some ow \<Rightarrow> drop_owner i ow (s\<lparr>rp_sources := bt_remove i (rp_sources s)\<rparr>))"

text \<open>\<open>finish\<close> releases the source that was taken out of its owner.\<close>

definition finish_owner :: "nat \<Rightarrow> reaper \<Rightarrow> reaper" where
  "finish_owner i s =
     (case map_of (rp_sources s) i of
        None \<Rightarrow> s
      | Some ow \<Rightarrow> s\<lparr>rp_sources := bt_remove i (rp_sources s), rp_budget := rp_budget s + ow_permit ow\<rparr>)"

definition reject_record :: "nat \<Rightarrow> bytes \<Rightarrow> reaper \<Rightarrow> reaper" where
  "reject_record i message s = s\<lparr>rp_run := run_reject i message (rp_run s)\<rparr>"

section \<open>Messages\<close>

definition install_source :: "nat \<Rightarrow> bytes list \<Rightarrow> reaper \<Rightarrow> reaper" where
  "install_source i plans s =
     (if plan_bytes plans > u32_max then reject_record i (ascii ''restore plan metadata size overflow'') s
      else if plan_bytes plans > rp_budget s then reject_record i (ascii ''restore session plan metadata budget exhausted'') s
      else
        let ow = \<lparr>ow_plans = plans, ow_permit = plan_bytes plans\<rparr>; s1 = s\<lparr>rp_budget := rp_budget s - plan_bytes plans\<rparr> in
        if \<not> rp_connected s \<or> length (rp_incoming s) \<ge> RESTORE_COMPLETION_SLOTS
        then reject_record i (ascii ''restore grant admission is full or closed'') (drop_owner i ow s1)
        else s1\<lparr>rp_incoming := rp_incoming s @ [(i, ow)]\<rparr>)"

definition receive_source :: "reaper \<Rightarrow> reaper" where
  "receive_source s =
     (case rp_incoming s of
        [] \<Rightarrow> s
      | (i, ow) # rest \<Rightarrow>
          let s1 = (remove_owner i s)\<lparr>rp_incoming := rest\<rparr> in
          s1\<lparr>rp_sources := bt_insert i ow (rp_sources s1), rp_pending := rp_pending s @ [i]\<rparr>)"

definition disconnect :: "reaper \<Rightarrow> reaper" where
  "disconnect s =
     (let s1 = fold (\<lambda>i t. reject_record i (ascii ''restore session closed during preparation'') (remove_owner i t)) (rp_pending s)
                 (s\<lparr>rp_connected := False, rp_pending := []\<rparr>)
      in s1\<lparr>rp_run := fold run_revoke (bt_keys (rp_sources s1)) (rp_run s1)\<rparr>)"

definition observe_updates :: "reaper \<Rightarrow> (completion_error + unit) \<times> reaper" where
  "observe_updates s =
     (case manager_updates (gr_grants (rp_run s)) of
        (Inl e, d) \<Rightarrow> (Inl e, s\<lparr>rp_run := (rp_run s)\<lparr>gr_grants := d\<rparr>\<rparr>)
      | (Inr us, d) \<Rightarrow> (Inr (), s\<lparr>rp_run := (rp_run s)\<lparr>gr_grants := d\<rparr>, rp_updates := rp_updates s @ us\<rparr>))"

definition stop_reaper :: "reaper \<Rightarrow> reaper" where
  "stop_reaper s = fold (\<lambda>(i, ow). drop_owner i ow) (rp_incoming s)
     (fold (\<lambda>(i, ow). drop_owner i ow) (rp_sources s)
       (s\<lparr>rp_sources := [], rp_incoming := [], rp_pending := [], rp_updates := [], rp_connected := False\<rparr>))"

text \<open>The body of the loop over the updates.\<close>

definition part_drained :: "nat \<Rightarrow> reaper \<Rightarrow> reaper" where
  "part_drained i s =
     (if \<not> rp_connected s then s\<lparr>rp_run := run_revoke i (rp_run s)\<rparr>
      else
        (case run_continue i (rp_run s) of
           (Inl _, g) \<Rightarrow> s\<lparr>rp_run := g\<rparr>
         | (Inr _, g) \<Rightarrow>
             let s1 = s\<lparr>rp_run := g\<rparr> in
             (case map_option advance_plan (map_of (rp_sources s1) i) of
                Some (ow, True) \<Rightarrow> s1\<lparr>rp_sources := bt_insert i ow (rp_sources s1), rp_pending := rp_pending s1 @ [i]\<rparr>
              | _ \<Rightarrow> reject_record i (ascii ''missing next Restore plan part'') (finish_owner i s1))))"

definition handle_update :: "nat \<Rightarrow> grant_state \<Rightarrow> reaper \<Rightarrow> reaper" where
  "handle_update i st s =
     (let s1 = (if st \<in> {Active, ActiveMore, PartDrained, Drained, Revoked} then s\<lparr>rp_run := run_release i (rp_run s)\<rparr> else s) in
      if st = PartDrained then part_drained i s1
      else if st \<in> {Drained, Revoked} then
        (case map_of (rp_sources s1) i of
           None \<Rightarrow> s1
         | Some _ \<Rightarrow> let s2 = finish_owner i s1 in s2\<lparr>rp_run := run_reap i (rp_run s2)\<rparr>)
      else s1)"

text \<open>One pass of the loop over the pending plans; None when the source has no plan, or the plan bank would panic. The second component is whether the loop goes on.\<close>

definition publish_pending :: "reaper \<Rightarrow> (reaper \<times> bool) option" where
  "publish_pending s =
     (case rp_pending s of
        [] \<Rightarrow> Some (s, False)
      | i # rest \<Rightarrow>
          (case map_of (rp_sources s) i of
             None \<Rightarrow> Some (s\<lparr>rp_pending := rest\<rparr>, True)
           | Some ow \<Rightarrow>
               (case encoded_plan ow of
                  None \<Rightarrow> None
                | Some (plan, again) \<Rightarrow>
                    (case run_publish i plan again (rp_run s) of
                       None \<Rightarrow> None
                     | Some (r, g) \<Rightarrow>
                         let s1 = s\<lparr>rp_run := g\<rparr> in
                         (case r of
                            Inr True \<Rightarrow> Some (s1\<lparr>rp_run := g\<lparr>gr_grants := notify_engine (gr_grants g)\<rparr>, rp_pending := rest\<rparr>, True)
                          | Inr False \<Rightarrow>
                              Some ((reject_record i (ascii ''restore preparation cancelled'') (remove_owner i s1))\<lparr>rp_pending := rest\<rparr>, True)
                          | Inl e \<Rightarrow>
                              if e = PlanFull then Some (s1, False)
                              else Some ((reject_record i (completion_text e) (remove_owner i s1))\<lparr>rp_pending := rest\<rparr>, True))))))"

section \<open>Steps\<close>

text \<open>A step of the engine or of another task of the Manager is any step of \<open>Grant_Protocol\<close> that does not publish a plan.\<close>

inductive reaper_step :: "reaper \<Rightarrow> reaper \<Rightarrow> bool" where
  other_task:
    "grant_step (rp_run s) g \<Longrightarrow> gr_storing g = None \<Longrightarrow> reaper_step s (s\<lparr>rp_run := g\<rparr>)"
| install: "reaper_step s (install_source i plans s)"
| receive: "rp_connected s \<Longrightarrow> reaper_step s (receive_source s)"
| hang_up: "rp_connected s \<Longrightarrow> rp_incoming s = [] \<Longrightarrow> reaper_step s (disconnect s)"
| observe: "observe_updates s = (Inr (), t) \<Longrightarrow> reaper_step s t"
| observe_failed: "observe_updates s = (Inl e, t) \<Longrightarrow> reaper_step s (stop_reaper t)"
| ended: "reaper_step s (stop_reaper s)"
| update: "rp_updates s = (i, st) # rest \<Longrightarrow> reaper_step s (handle_update i st (s\<lparr>rp_updates := rest\<rparr>))"
| publish: "publish_pending s = Some (t, again) \<Longrightarrow> reaper_step s t"

definition reaper_start :: "reaper \<Rightarrow> bool" where
  "reaper_start s \<longleftrightarrow> grant_start (rp_run s) \<and> rp_incoming s = [] \<and> rp_sources s = [] \<and> rp_pending s = [] \<and> rp_updates s = [] \<and>
     rp_connected s \<and> rp_budget s = LOCAL_PLAN_METADATA_BYTES \<and> rp_quarantine s = {}"

section \<open>The state machine of an operation\<close>

definition grant_edge :: "bool \<Rightarrow> grant_state \<Rightarrow> grant_state \<Rightarrow> bool" where
  "grant_edge granting a b \<longleftrightarrow> (a, b) \<in> {(Reserved, Preparing), (Reserved, Acknowledged), (Preparing, CancelRequested), (Preparing, Managed),
     (CancelRequested, Managed), (Preparing, Reaped), (CancelRequested, Reaped),
     (Managed, Reaped), (Granted, Active), (GrantedMore, ActiveMore), (Active, Drained), (ActiveMore, Drained),
     (ActiveMore, PartDrained), (PartDrained, Preparing), (Granted, Revoked), (GrantedMore, Revoked), (PartDrained, Revoked),
     (Drained, Reaped), (Revoked, Reaped), (Reaped, Acknowledged)} \<or>
     granting \<and> (a, b) \<in> {(Preparing, Granted), (Preparing, GrantedMore)}"

lemma grant_edges:
  "grant_edge g Reserved Preparing" "grant_edge g Reserved Acknowledged" "grant_edge g Preparing CancelRequested" "grant_edge g Preparing Managed"
  "grant_edge g CancelRequested Managed" "grant_edge True Preparing Granted" "grant_edge True Preparing GrantedMore" "grant_edge g Preparing Reaped"
  "grant_edge g CancelRequested Reaped" "grant_edge g Managed Reaped" "grant_edge g Granted Active" "grant_edge g GrantedMore ActiveMore"
  "grant_edge g Active Drained" "grant_edge g ActiveMore Drained" "grant_edge g ActiveMore PartDrained" "grant_edge g PartDrained Preparing"
  "grant_edge g Granted Revoked" "grant_edge g GrantedMore Revoked" "grant_edge g PartDrained Revoked" "grant_edge g Drained Reaped"
  "grant_edge g Revoked Reaped" "grant_edge g Reaped Acknowledged"
  by (simp_all add: grant_edge_def)

definition follows :: "bool \<Rightarrow> completions \<Rightarrow> completions \<Rightarrow> bool" where
  "follows g c d \<longleftrightarrow> next_id c \<le> next_id d \<and>
     (\<forall>i b. holds i b d \<longrightarrow> (\<exists>a. holds i a c \<and> (a = b \<or> grant_edge g a b)) \<or> b = Reserved \<and> next_id c \<le> i) \<and>
     (\<forall>j. load (rec_of j) d = load (rec_of j) c \<or> (\<exists>i b. holds i b d \<and> rec_of i = rec_of j))"

lemma follows_refl [simp]: "follows g c c"
  by (auto simp: follows_def)

lemma follows_kept:
  assumes "kept c d" and "\<And>j. load (rec_of j) d = load (rec_of j) c \<or> (\<exists>i b. holds i b d \<and> rec_of i = rec_of j)"
  shows "follows g c d"
  using assms unfolding kept_def follows_def by blast

lemma follows_moves:
  assumes "moves i a b c d" and "grant_edge g a b"
  shows "follows g c d"
  unfolding follows_def
proof (intro conjI allI impI)
  show "next_id c \<le> next_id d" using moves_frame(2) [OF assms(1)] by simp
  show "load (rec_of j) d = load (rec_of j) c \<or> (\<exists>i b. holds i b d \<and> rec_of i = rec_of j)" for j
  proof (cases "rec_of j = rec_of i")
    case False
    then have "j mod RESTORE_COMPLETION_SLOTS \<noteq> i mod RESTORE_COMPLETION_SLOTS" by (auto simp: rec_of_def)
    then have "co_words d (rec_of j) = co_words c (rec_of j)"
      using rec_apart [of j i] rec_inside(2) [of j] assms(1) False by (intro quiet_words [of i]) (auto simp: moves_def)
    then show ?thesis by (simp add: load_def)
  qed (use assms(1) in \<open>auto simp: moves_def\<close>)
  fix j e assume h: "holds j e d"
  show "(\<exists>a. holds j a c \<and> (a = e \<or> grant_edge g a e)) \<or> e = Reserved \<and> next_id c \<le> j"
  proof (cases "j = i")
    case True
    then have "e = b" "holds j a c" using h moves_same(2) [OF assms(1)] assms(1) by (auto simp: moves_def)
    then show ?thesis using assms(2) by blast
  next
    case False
    then show ?thesis using h moves_other(1) [OF assms(1) False] by blast
  qed
qed

lemma follows_set: "holds i a c \<Longrightarrow> grant_edge g a b \<Longrightarrow> follows g c (set_state i b c)"
  by (rule follows_moves [OF moves_set_state])

lemma follows_words:
  assumes "\<And>x. co_words d x = co_words c x"
  shows "follows g c d"
proof -
  have "holds i st d = holds i st c" "next_id d = next_id c" for i st using assms by (simp_all add: holds_def load_def next_id_def)
  then show ?thesis using assms by (auto simp: follows_def load_def)
qed

lemma follows_removed:
  assumes "follows g (c\<lparr>co_plans := ps\<rparr>) d"
  shows "follows g c d"
proof -
  have "holds i st (c\<lparr>co_plans := ps\<rparr>) = holds i st c" "next_id (c\<lparr>co_plans := ps\<rparr>) = next_id c" for i st
    by (simp_all add: holds_def load_def next_id_def)
  then show ?thesis using assms by (simp add: follows_def load_def)
qed

lemma finish_follows:
  assumes "claim_finish i c = (r, d)"
  shows "follows g c d"
proof (cases "grant_offset i")
  case (Inr rec)
  then have rec: "rec = rec_of i" by (simp add: grant_offset_eq split: if_splits)
  let ?e = "store (rec + 24) 1 c"
  have d: "d = mark_dirty i ?e" using assms Inr by (simp add: claim_finish_def)
  have "holds j st d = holds j st c" for j st
  proof -
    have "holds j st ?e = holds j st c" using rec_field(1) [of 24 i j] by (simp add: rec holds_def load_def store_def)
    then show ?thesis by (simp add: d)
  qed
  moreover have "load (rec_of j) d = load (rec_of j) c" for j
    using rec_field(1) [of 24 i j] by (simp add: d rec) (simp add: load_def store_def)
  moreover have "next_id d = next_id c"
    using quiet_same_plan(2) [OF quiet_mark_dirty, of i ?e] rec_inside(2) [of i]
    by (simp add: d rec next_id_def load_def store_def NEXT_OPERATION_OFFSET_def)
  ultimately show ?thesis by (auto simp: follows_def)
qed (use assms in \<open>simp add: claim_finish_def\<close>)

text \<open>Every step of either process takes an operation along an edge of its state machine, or reserves a new one.\<close>

lemma grant_step_follows:
  assumes "grant_step s t" and "run_inv s"
  shows "follows (gr_storing s \<noteq> None) (gr_grants s) (gr_grants t)"
  using assms
proof (induction rule: grant_step.induct)
  case (engine_reserve s r d)
  then have "load (rec_of j) d = load (rec_of j) (gr_grants s) \<or> (\<exists>i b. holds i b d \<and> rec_of i = rec_of j)" for j
    using reserve_loop_spec [of _ "gr_grants s" r d] rec_inside(2) [of j]
    by (fastforce simp: reserve_grant_def load_def NEXT_OPERATION_OFFSET_def split: sum.splits)
  then show ?case using reserve_kept(1) engine_reserve follows_kept by (simp add: run_inv_def)
next
  case (engine_cancel i s r d)
  then show ?case
    by (auto simp: cancel_grant_eq grant_state_of_iff intro: follows_set grant_edges split: sum.splits if_splits)
next
  case (engine_claim i s d)
  then show ?case using claim_begin_spec [OF engine_claim(1)] by (auto intro: follows_moves grant_edges split: if_splits)
next
  case (engine_bad_place s i e r d)
  then show ?case using drained_grant_spec [OF engine_bad_place(3)] by (auto intro: follows_moves grant_edges split: if_splits)
next
  case (engine_return s i off len out d)
  then show ?case using finish_follows by simp
next
  case (engine_drained s i result timing terminal d)
  then show ?case using drained_grant_spec [OF engine_drained(3)] by (auto intro: follows_moves grant_edges split: if_splits)
next
  case (engine_poll i s r d)
  then show ?case using poll_grant_spec [OF engine_poll(1)] by (auto intro: follows_moves grant_edges split: if_splits)
next
  case (manager_claim i s d)
  then show ?case by (auto simp: claim_grant_def transition_eq intro: follows_set grant_edges split: if_splits)
next
  case (manager_start i s r d)
  then show ?case
    by (auto simp: start_managed_eq grant_state_of_iff intro: follows_set grant_edges split: sum.splits if_splits)
next
  case (manager_store s i plan d again)
  then have st: "stored i plan (gr_grants s) d"
    using publish_store_spec [of "gr_grants s" i plan] by (auto simp: run_inv_def)
  have "next_id d = next_id (gr_grants s)"
    using st rec_inside(2) [of i] by (simp add: stored_def next_id_def load_def NEXT_OPERATION_OFFSET_def PLAN_OFFSET_def GRANT_HEADER_BYTES_def)
  moreover have "load (rec_of j) d = load (rec_of j) (gr_grants s)" for j
    using st rec_inside(1) [of j] rec_field(1) [of 8 i j] rec_field(1) [of 16 i j] rec_field(1) [of 24 i j] by (simp add: stored_def load_def)
  ultimately show ?case using stored_holds [OF st] by (auto simp: follows_def)
next
  case (manager_grant s i again plan r d)
  show ?case
  proof (cases "holds i Preparing (gr_grants s)")
    case True
    then have "d = set_state i (if again then GrantedMore else Granted) (gr_grants s)"
      using manager_grant(2) by (simp add: publish_grant_def transition_eq)
    then show ?thesis using follows_set [OF True] grant_edges manager_grant(1) by simp
  next
    case False
    then have "\<And>x. co_words d x = co_words (gr_grants s) x"
      using manager_grant(2) by (auto simp: publish_grant_def transition_eq split: sum.splits if_splits)
    then show ?thesis using follows_words by simp
  qed
next
  case (manager_release s i r d)
  then have "\<And>x. co_words d x = co_words (gr_grants s) x" by (auto simp: release_plan_def split: sum.splits if_splits)
  then show ?case using follows_words by simp
next
  case (manager_continue i s r d)
  then show ?case by (auto simp: continue_local_def transition_eq intro: follows_set grant_edges split: if_splits)
next
  case (manager_revoke i s r d)
  then have "d = gr_grants s \<or> (\<exists>a \<in> {Granted, GrantedMore, PartDrained}. moves i a Revoked (gr_grants s) d)"
    by (auto simp: revoke_grant_eq grant_state_of_iff moves_set_state moves_dirty split: sum.splits if_splits)
  then show ?case by (auto intro: follows_moves grant_edges split: if_splits)
next
  case (manager_reap s i r d)
  let ?c = "(gr_grants s)\<lparr>co_plans := bt_remove i (co_plans (gr_grants s))\<rparr>"
  have "d = gr_grants s \<or> follows (gr_storing s \<noteq> None) ?c d"
    using reap_grant_spec [OF manager_reap(2)] by (auto intro: follows_moves grant_edges)
  then show ?case using follows_removed by auto
next
  case (manager_reject message i s r d)
  then show ?case using reject_grant_spec [OF manager_reject(2)] by (auto intro: follows_moves grant_edges split: if_splits)
next
  case (manager_complete result i s r d)
  then show ?case using complete_grant_spec [OF manager_complete(2)] by (auto intro: follows_moves grant_edges split: if_splits)
next
  case (manager_inspect s r d)
  let ?c = "(gr_grants s)\<lparr>co_manager_notified := False\<rparr>"
  have "plans_ok (co_plans (gr_grants s))" using manager_inspect(2) by (simp add: run_inv_def)
  moreover have "co_plans d = co_plans (gr_grants s)" "\<And>x. x < 64 \<or> 192 \<le> x \<Longrightarrow> co_words d x = co_words (gr_grants s) x"
    using dirty_updates_words [of "[0..<DIRTY_WORDS]" ?c r d] manager_inspect(1) by (auto simp: manager_updates_def DIRTY_WORDS_def)
  moreover from this have "load (rec_of j) d = load (rec_of j) (gr_grants s)" for j using rec_inside(2) [of j] by (simp add: load_def)
  ultimately show ?case using low_kept(1) follows_kept by simp
qed simp_all

section \<open>Sources outlive the transfers\<close>

definition live :: "grant_state \<Rightarrow> bool" where
  "live st \<longleftrightarrow> st \<in> {Granted, GrantedMore, Active, ActiveMore}"

definition owned :: "nat \<Rightarrow> reaper \<Rightarrow> bool" where
  "owned i s \<longleftrightarrow> map_of (rp_sources s) i \<noteq> None \<or> i \<in> rp_quarantine s"

definition settled :: "nat \<Rightarrow> grant_state \<Rightarrow> completions \<Rightarrow> bool" where
  "settled i st c \<longleftrightarrow> i < next_id c \<and> (\<forall>b. holds i b c \<longrightarrow> b \<in> {st, Reaped, Acknowledged})"

definition tags_ok :: "completions \<Rightarrow> bool" where
  "tags_ok c \<longleftrightarrow> (\<forall>j. load (rec_of j) c = 0 \<or> (\<exists>i b. holds i b c \<and> rec_of i = rec_of j))"

text \<open>The invariant, but for the operations of a set.\<close>

definition reaper_inv :: "nat set \<Rightarrow> reaper \<Rightarrow> bool" where
  "reaper_inv X s \<longleftrightarrow> run_inv (rp_run s) \<and> gr_storing (rp_run s) = None \<and> tags_ok (gr_grants (rp_run s)) \<and>
     (\<forall>i st. live st \<longrightarrow> holds i st (gr_grants (rp_run s)) \<longrightarrow> owned i s \<or> i \<in> X) \<and>
     (\<forall>(i, st) \<in> set (rp_updates s). st \<in> {Drained, Revoked} \<longrightarrow> settled i st (gr_grants (rp_run s)))"

lemma follows_settled:
  assumes "follows g c d" and "settled i st c" and "st \<in> {Drained, Revoked}"
  shows "settled i st d"
  unfolding settled_def
proof (intro conjI allI impI)
  show "i < next_id d" using assms(1,2) by (simp add: follows_def settled_def)
  fix b assume "holds i b d"
  then obtain a where a: "holds i a c" "a = b \<or> grant_edge g a b"
    using assms(1,2) unfolding follows_def settled_def by (metis not_le)
  then have "a \<in> {st, Reaped, Acknowledged}" using assms(2) by (simp add: settled_def)
  then show "b \<in> {st, Reaped, Acknowledged}" using a(2) assms(3) by (auto simp: grant_edge_def)
qed

lemma follows_live:
  assumes "follows False c d" and "live b" and "holds i b d"
  shows "\<exists>a. live a \<and> holds i a c"
proof -
  obtain a where a: "holds i a c" "a = b \<or> grant_edge False a b"
    using assms unfolding follows_def live_def by blast
  then have "live a" using assms(2) by (auto simp: grant_edge_def live_def)
  then show ?thesis using a(1) by blast
qed

lemma follows_tags: "follows g c d \<Longrightarrow> tags_ok c \<Longrightarrow> tags_ok d"
  unfolding follows_def tags_ok_def holds_def by metis

text \<open>A step of the protocol that publishes no plan keeps the invariant.\<close>

lemma step_keeps:
  assumes "reaper_inv X s" and "grant_step (rp_run s) g" and "gr_storing g = None"
  shows "reaper_inv X (s\<lparr>rp_run := g\<rparr>)"
proof -
  have inv: "run_inv (rp_run s)" "gr_storing (rp_run s) = None" using assms(1) by (simp_all add: reaper_inv_def)
  then have f: "follows False (gr_grants (rp_run s)) (gr_grants g)" using grant_step_follows [OF assms(2)] by simp
  have "run_inv g" using assms(2) inv(1) by (rule grant_step_inv)
  moreover have "owned i (s\<lparr>rp_run := g\<rparr>) \<or> i \<in> X" if "live st" "holds i st (gr_grants g)" for i st
    using follows_live [OF f that] assms(1) by (auto simp: reaper_inv_def owned_def)
  moreover have "settled i st (gr_grants g)" if "(i, st) \<in> set (rp_updates s)" "st \<in> {Drained, Revoked}" for i st
    using follows_settled [OF f _ that(2)] assms(1) that by (auto simp: reaper_inv_def)
  moreover have "tags_ok (gr_grants g)" using follows_tags [OF f] assms(1) by (simp add: reaper_inv_def)
  ultimately show ?thesis using assms(3) by (auto simp: reaper_inv_def)
qed

lemma reject_keeps:
  assumes "reaper_inv X s" and "utf8_valid message"
  shows "reaper_inv X (reject_record i message s)"
proof -
  obtain r d where e: "reject_grant i message (gr_grants (rp_run s)) = Some (r, d)" using reject_grant_returns by blast
  then have g: "run_reject i message (rp_run s) = (rp_run s)\<lparr>gr_grants := d,
      gr_result := (if r = Inr () then (gr_result (rp_run s))(i \<mapsto> Inl message) else gr_result (rp_run s))\<rparr>"
    by (simp add: run_reject_def)
  then have step: "grant_step (rp_run s) (run_reject i message (rp_run s))" using manager_reject [OF assms(2) e] by (simp only: g)
  have "gr_storing (run_reject i message (rp_run s)) = None" using assms(1) by (simp add: g reaper_inv_def)
  then show ?thesis using step_keeps [OF assms(1) step] by (simp add: reject_record_def)
qed

lemma revoke_keeps:
  assumes "reaper_inv X s"
  shows "reaper_inv X (s\<lparr>rp_run := run_revoke i (rp_run s)\<rparr>)"
proof -
  obtain p where "revoke_grant i (gr_grants (rp_run s)) = Some p" using revoke_grant_eq by blast
  then obtain r d where e: "revoke_grant i (gr_grants (rp_run s)) = Some (r, d)" by (cases p) simp
  then have step: "grant_step (rp_run s) (run_revoke i (rp_run s))" using manager_revoke [OF e] by (simp add: run_revoke_def)
  have "gr_storing (run_revoke i (rp_run s)) = None" using assms e by (simp add: run_revoke_def reaper_inv_def)
  then show ?thesis by (rule step_keeps [OF assms step])
qed

lemma release_keeps:
  assumes "reaper_inv X s"
  shows "reaper_inv X (s\<lparr>rp_run := run_release i (rp_run s)\<rparr>)"
proof -
  obtain r d where e: "release_plan i (gr_grants (rp_run s)) = (r, d)" by fastforce
  moreover have "gr_storing (rp_run s) = None" using assms by (simp add: reaper_inv_def)
  ultimately show ?thesis using step_keeps [OF assms manager_release [of "rp_run s" i r d]] by (simp add: run_release_def)
qed

lemma reap_keeps:
  assumes "reaper_inv X s"
  shows "reaper_inv X (s\<lparr>rp_run := run_reap i (rp_run s)\<rparr>)"
proof -
  obtain r d where e: "reap_grant i (gr_grants (rp_run s)) = (r, d)" by fastforce
  moreover have "gr_storing (rp_run s) = None" using assms by (simp add: reaper_inv_def)
  ultimately show ?thesis using step_keeps [OF assms manager_reap [of "rp_run s" i r d]] by (simp add: run_reap_def)
qed

text \<open>An owner that is dropped is released only when no transfer of its operation can be under way.\<close>

lemma source_safe_spec:
  assumes "source_safe i c = (safe, d)"
  shows "(d = c \<or> (\<exists>r. revoke_grant i c = Some (r, d))) \<and> (safe \<longrightarrow> (\<forall>st. holds i st d \<longrightarrow> \<not> live st))"
proof (cases "grant_state_of i c")
  case (Inl e)
  then show ?thesis using assms by (simp add: source_safe_def)
next
  case (Inr st)
  then have h: "holds i st c" by (simp add: grant_state_of_iff)
  show ?thesis
  proof (cases "st \<in> {Granted, GrantedMore}")
    case True
    let ?d = "mark_dirty i (set_state i Revoked c)"
    have r: "revoke_grant i c = Some (Inr True, ?d)" unfolding revoke_grant_eq Inr using True by auto
    have d: "d = ?d" using assms True unfolding source_safe_def Inr r by simp
    have "holds i Revoked ?d" using h by simp
    then have "st' = Revoked" if "holds i st' ?d" for st' using that holds_inject by blast
    then show ?thesis using r d by (auto simp: live_def)
  next
    case False
    have e: "d = c" "safe \<longleftrightarrow> st \<notin> {Active, ActiveMore}" using assms False unfolding source_safe_def Inr by auto
    have "st' = st" if "holds i st' c" for st' using that h holds_inject by blast
    then show ?thesis using e False by (auto simp: live_def)
  qed
qed

lemma reaper_inv_mono: "reaper_inv X s \<Longrightarrow> X \<subseteq> Y \<Longrightarrow> reaper_inv Y s"
  by (auto simp: reaper_inv_def)

lemma drop_keeps:
  assumes "reaper_inv X s"
  shows "reaper_inv (X - {i}) (drop_owner i ow s)"
proof -
  obtain safe d where e: "source_safe i (gr_grants (rp_run s)) = (safe, d)" by fastforce
  note spec = source_safe_spec [OF e]
  have "reaper_inv X (s\<lparr>rp_run := (rp_run s)\<lparr>gr_grants := d\<rparr>\<rparr>)"
    using spec assms revoke_keeps [OF assms, of i] by (auto simp: run_revoke_def)
  then show ?thesis using spec by (auto simp: drop_owner_def e reaper_inv_def owned_def)
qed

lemma remove_keeps:
  assumes "reaper_inv X s"
  shows "reaper_inv X (remove_owner i s)"
proof (cases "map_of (rp_sources s) i")
  case (Some ow)
  have "reaper_inv (insert i X) (s\<lparr>rp_sources := bt_remove i (rp_sources s)\<rparr>)"
    using assms by (auto simp: reaper_inv_def owned_def)
  from drop_keeps [OF this, of i ow] show ?thesis using Some by (auto simp: remove_owner_def intro: reaper_inv_mono)
qed (use assms in \<open>simp add: remove_owner_def\<close>)

lemma finish_keeps:
  assumes "reaper_inv X s" and "\<And>st. holds i st (gr_grants (rp_run s)) \<Longrightarrow> \<not> live st"
  shows "reaper_inv X (finish_owner i s)"
  using assms by (auto simp: finish_owner_def reaper_inv_def owned_def split: option.split)

lemma fold_keeps:
  assumes "reaper_inv X s" and "\<And>x t. reaper_inv X t \<Longrightarrow> reaper_inv X (f x t)"
  shows "reaper_inv X (fold f xs s)"
  using assms by (induction xs arbitrary: s) auto

lemma install_keeps:
  assumes "reaper_inv X s"
  shows "reaper_inv X (install_source i plans s)"
proof -
  have t: "utf8_valid (ascii ''restore plan metadata size overflow'')" "utf8_valid (ascii ''restore session plan metadata budget exhausted'')"
      "utf8_valid (ascii ''restore grant admission is full or closed'')"
    by code_simp+
  have b: "reaper_inv X (s\<lparr>rp_budget := n\<rparr>)" "reaper_inv X (s\<lparr>rp_budget := n, rp_incoming := inc\<rparr>)" for n inc
    using assms by (simp_all add: reaper_inv_def owned_def)
  have "reaper_inv X (drop_owner i ow (s\<lparr>rp_budget := n\<rparr>))" for ow n
    using drop_keeps [OF b(1)] by (rule reaper_inv_mono) blast
  then show ?thesis using reject_keeps t assms b(2) by (auto simp: install_source_def Let_def)
qed

lemma receive_keeps:
  assumes "reaper_inv X s"
  shows "reaper_inv X (receive_source s)"
proof (cases "rp_incoming s")
  case (Cons x rest)
  obtain i ow where x: "x = (i, ow)" by fastforce
  have "reaper_inv X (remove_owner i s)" using assms by (rule remove_keeps)
  then show ?thesis using Cons x by (auto simp: receive_source_def Let_def reaper_inv_def owned_def)
qed (use assms in \<open>simp add: receive_source_def\<close>)

lemma disconnect_keeps:
  assumes "reaper_inv X s"
  shows "reaper_inv X (disconnect s)"
proof -
  have u: "utf8_valid (ascii ''restore session closed during preparation'')" by code_simp
  let ?f = "\<lambda>i t. reject_record i (ascii ''restore session closed during preparation'') (remove_owner i t)"
  have "reaper_inv X (s\<lparr>rp_connected := False, rp_pending := []\<rparr>)" using assms by (simp add: reaper_inv_def owned_def)
  then have inv: "reaper_inv X (fold ?f (rp_pending s) (s\<lparr>rp_connected := False, rp_pending := []\<rparr>))"
    using u by (intro fold_keeps) (auto intro: reject_keeps remove_keeps)
  have "reaper_inv X (t\<lparr>rp_run := fold run_revoke ids (rp_run t)\<rparr>)" if "reaper_inv X t" for t ids
    using that
  proof (induction ids arbitrary: t)
    case (Cons i ids)
    then show ?case using Cons.IH [OF revoke_keeps [OF Cons.prems, of i]] by simp
  qed simp
  then show ?thesis using inv by (simp add: disconnect_def Let_def)
qed

lemma stop_keeps:
  assumes "reaper_inv X s"
  shows "reaper_inv X (stop_reaper s)"
proof -
  let ?f = "\<lambda>(i, ow). drop_owner i ow"
  let ?s = "s\<lparr>rp_sources := [], rp_incoming := [], rp_pending := [], rp_updates := [], rp_connected := False\<rparr>"
  have "reaper_inv (X \<union> fst ` set (rp_sources s)) ?s"
    using assms by (auto simp: reaper_inv_def owned_def dom_map_of_conv_image_fst [symmetric])
  moreover have "reaper_inv (Y - fst ` set xs) (fold ?f xs t)" if "reaper_inv Y t" for xs Y t
    using that
  proof (induction xs arbitrary: t Y)
    case (Cons x xs)
    have "reaper_inv (Y - {fst x}) (?f x t)" using drop_keeps [OF Cons.prems] by (auto simp: case_prod_beta)
    from Cons.IH [OF this] show ?case by (simp add: Diff_insert2 [symmetric])
  qed simp
  ultimately have "reaper_inv (X \<union> fst ` set (rp_sources s) - fst ` set (rp_sources s) - fst ` set (rp_incoming s)) (stop_reaper s)"
    unfolding stop_reaper_def by blast
  then show ?thesis by (rule reaper_inv_mono) auto
qed

lemma slot_updates_hold:
  assumes "slot_updates c slots = Inr us" and "(i, st) \<in> set us" and "\<And>slot. slot \<in> set slots \<Longrightarrow> slot < RESTORE_COMPLETION_SLOTS"
  shows "\<exists>slot \<in> set slots. load (GRANT_HEADER_BYTES + slot * RECORD_BYTES) c = i * 16 + grant_tag st \<and> 0 < i * 16 + grant_tag st"
  using assms
proof (induction c slots arbitrary: us rule: slot_updates.induct)
  case (2 c slot slots)
  let ?t = "load (GRANT_HEADER_BYTES + slot * RECORD_BYTES) c"
  show ?case
  proof (cases "?t = 0")
    case False
    then obtain b rest where r: "grant_decode ?t = Inr b" "slot_updates c slots = Inr rest" "us = (?t div 16, b) # rest"
      using "2.prems"(1) by (auto simp: Let_def rbind_eq_Inr_iff)
    show ?thesis
    proof (cases "(i, st) = (?t div 16, b)")
      case True
      then have "?t = i * 16 + grant_tag st" using r(1) div_mult_mod_eq [of ?t 16] by (simp add: grant_decode_iff)
      then show ?thesis using False by auto
    next
      case other: False
      then show ?thesis using "2.IH" [OF refl] False r "2.prems" by auto
    qed
  next
    case True
    then show ?thesis using 2 by (auto simp: Let_def)
  qed
qed simp

lemma slot_record: "slot < RESTORE_COMPLETION_SLOTS \<Longrightarrow> GRANT_HEADER_BYTES + slot * RECORD_BYTES = rec_of slot"
  by (simp add: rec_of_def)

lemma updates_settled:
  assumes "slot_updates c (dirty_slots index bits) = Inr us" and "(i, st) \<in> set us" and "index < 16" and "tags_ok c"
  shows "holds i st c"
proof -
  have slots: "slot < RESTORE_COMPLETION_SLOTS" if "slot \<in> set (dirty_slots index bits)" for slot
    using that assms(3) by (auto simp: dirty_slots_def RESTORE_COMPLETION_SLOTS_def)
  obtain slot where slot: "slot \<in> set (dirty_slots index bits)" "load (rec_of slot) c = i * 16 + grant_tag st" "0 < i * 16 + grant_tag st"
    using slot_updates_hold [OF assms(1,2) slots] slots slot_record by metis
  moreover have "load (rec_of slot) c = 0 \<or> (\<exists>j b. holds j b c \<and> rec_of j = rec_of slot)" using assms(4) by (simp add: tags_ok_def)
  ultimately obtain j b where j: "holds j b c" "rec_of j = rec_of slot" by auto
  then have "j * 16 + grant_tag b = i * 16 + grant_tag st" using slot(2) by (simp add: holds_def)
  moreover from this have "j = i" using grant_tag_less [of b] grant_tag_less [of st] by linarith
  ultimately show ?thesis using j(1) by simp
qed

lemma dirty_updates_hold:
  assumes "dirty_updates indices c = (Inr us, d)" and "(i, st) \<in> set us" and "\<forall>k \<in> set indices. k < 16" and "tags_ok c"
  shows "holds i st c"
  using assms
proof (induction indices arbitrary: c us d)
  case (Cons index indices)
  let ?c = "store (DIRTY_OFFSET + index * 8) 0 c"
  have same: "load (rec_of j) ?c = load (rec_of j) c" for j
    using rec_inside(2) [of j] Cons.prems(3) by (auto simp: load_def store_def DIRTY_OFFSET_def)
  then have h: "holds j b ?c = holds j b c" for j b by (simp add: holds_def)
  then have t: "tags_ok ?c" using Cons.prems(4) same by (simp add: tags_ok_def)
  obtain us1 us2 where u: "slot_updates ?c (dirty_slots index (load (DIRTY_OFFSET + index * 8) c)) = Inr us1"
      "dirty_updates indices ?c = (Inr us2, d)" "us = us1 @ us2"
    using Cons.prems(1) by (auto simp: Let_def split: sum.splits prod.splits)
  show ?case
  proof (cases "(i, st) \<in> set us1")
    case True
    then show ?thesis using updates_settled [OF u(1) True _ t] Cons.prems(3) h by simp
  next
    case False
    then show ?thesis using Cons.IH [OF u(2)] Cons.prems(2,3) u(3) t h by auto
  qed
qed simp

lemma more_updates:
  assumes "reaper_inv X s" and "\<And>i st. (i, st) \<in> set us \<Longrightarrow> st \<in> {Drained, Revoked} \<Longrightarrow> settled i st (gr_grants (rp_run s))"
  shows "reaper_inv X (s\<lparr>rp_updates := rp_updates s @ us\<rparr>)"
proof -
  have "owned i (s\<lparr>rp_updates := rp_updates s @ us\<rparr>) = owned i s" for i by (simp add: owned_def)
  then show ?thesis using assms by (auto simp: reaper_inv_def)
qed

lemma observe_keeps:
  assumes "reaper_inv X s" and "observe_updates s = (r, t)"
  shows "reaper_inv X t"
proof -
  let ?c = "gr_grants (rp_run s)"
  obtain r' d where e: "manager_updates ?c = (r', d)" by fastforce
  let ?u = "s\<lparr>rp_run := (rp_run s)\<lparr>gr_grants := d\<rparr>\<rparr>"
  have step: "grant_step (rp_run s) ((rp_run s)\<lparr>gr_grants := d\<rparr>)" using e by (rule manager_inspect)
  have keep: "reaper_inv X ?u" using step_keeps [OF assms(1) step] assms(1) by (simp add: reaper_inv_def)
  have run: "run_inv (rp_run s)" "tags_ok ?c" using assms(1) by (simp_all add: reaper_inv_def)
  have f: "follows (gr_storing (rp_run s) \<noteq> None) ?c d" using grant_step_follows [OF step run(1)] by simp
  have new: "settled i st d" if "r' = Inr us" "(i, st) \<in> set us" "st \<in> {Drained, Revoked}" for us i st
  proof -
    have "tags_ok (?c\<lparr>co_manager_notified := False\<rparr>)" using run(2) by (simp add: tags_ok_def holds_def load_def)
    then have "holds i st (?c\<lparr>co_manager_notified := False\<rparr>)"
      using e that dirty_updates_hold [of "[0..<DIRTY_WORDS]" _ us d i st] by (simp add: manager_updates_def DIRTY_WORDS_def)
    then have "holds i st ?c" by (simp add: holds_def load_def)
    then have "settled i st ?c" using run(1) holds_inject by (auto simp: settled_def run_inv_def ids_inv_def)
    then show ?thesis using follows_settled [OF f] that(3) by simp
  qed
  show ?thesis
  proof (cases r')
    case (Inl x)
    then show ?thesis using assms(2) e keep by (simp add: observe_updates_def)
  next
    case (Inr us)
    then have "t = ?u\<lparr>rp_updates := rp_updates ?u @ us\<rparr>" using assms(2) e by (auto simp: observe_updates_def)
    then show ?thesis using more_updates [OF keep] new Inr by simp
  qed
qed

lemma continue_keeps:
  assumes "reaper_inv X s" and "run_continue i (rp_run s) = (r, g)"
  shows "reaper_inv X (s\<lparr>rp_run := g\<rparr>)" and "r = Inr () \<Longrightarrow> holds i Preparing (gr_grants g)"
proof -
  obtain d where d: "continue_local i (gr_grants (rp_run s)) = (r, d)" "g = (rp_run s)\<lparr>gr_grants := d\<rparr>"
    using assms(2) by (auto simp: run_continue_def split: prod.splits)
  show "reaper_inv X (s\<lparr>rp_run := g\<rparr>)"
    using step_keeps [OF assms(1), of g] manager_continue [OF d(1)] assms(1) by (simp add: d(2) reaper_inv_def)
  show "r = Inr () \<Longrightarrow> holds i Preparing (gr_grants g)"
    using d by (auto simp: continue_local_def transition_eq split: if_splits)
qed

lemma source_keeps:
  assumes "reaper_inv X s"
  shows "reaper_inv X (s\<lparr>rp_sources := bt_insert i ow (rp_sources s), rp_pending := ids\<rparr>)"
  using assms by (auto simp: reaper_inv_def owned_def)

lemma part_drained_keeps:
  assumes "reaper_inv X s"
  shows "reaper_inv X (part_drained i s)"
proof (cases "rp_connected s")
  case True
  obtain r g where e: "run_continue i (rp_run s) = (r, g)" by fastforce
  note keep = continue_keeps(1) [OF assms e]
  have u: "utf8_valid (ascii ''missing next Restore plan part'')" by code_simp
  show ?thesis
  proof (cases r)
    case (Inl x)
    then show ?thesis using True e keep by (simp add: part_drained_def)
  next
    case (Inr x)
    then have h: "holds i Preparing (gr_grants g)" using continue_keeps(2) [OF assms e] by simp
    have "\<not> live st" if "holds i st (gr_grants g)" for st using holds_inject [OF h that] by (auto simp: live_def)
    then have "reaper_inv X (reject_record i (ascii ''missing next Restore plan part'') (finish_owner i (s\<lparr>rp_run := g\<rparr>)))"
      using u by (intro reject_keeps finish_keeps [OF keep]) simp_all
    then show ?thesis
      using True e Inr source_keeps [OF keep] by (auto simp: part_drained_def Let_def split: option.split prod.split bool.split)
  qed
qed (use revoke_keeps [OF assms] in \<open>simp add: part_drained_def\<close>)

lemma handle_update_keeps:
  assumes "reaper_inv X s" and "st \<in> {Drained, Revoked} \<Longrightarrow> settled i st (gr_grants (rp_run s))"
  shows "reaper_inv X (handle_update i st s)"
proof -
  let ?g = "run_release i (rp_run s)"
  let ?s = "s\<lparr>rp_run := ?g\<rparr>"
  have keep: "reaper_inv X ?s" using assms(1) by (rule release_keeps)
  have "holds i b (gr_grants ?g) = holds i b (gr_grants (rp_run s))" for b
    by (auto simp: run_release_def release_plan_def holds_def load_def split: sum.split)
  then have dead: "\<not> live b" if "st \<in> {Drained, Revoked}" "holds i b (gr_grants ?g)" for b
    using assms(2) that by (auto simp: settled_def live_def)
  then have "reaper_inv X (finish_owner i ?s)" if "st \<in> {Drained, Revoked}" using that by (intro finish_keeps [OF keep]) simp
  then have "reaper_inv X ((finish_owner i ?s)\<lparr>rp_run := run_reap i (rp_run (finish_owner i ?s))\<rparr>)" if "st \<in> {Drained, Revoked}"
    using that reap_keeps by blast
  then show ?thesis
    using assms(1) keep part_drained_keeps [OF keep] by (auto simp: handle_update_def Let_def split: option.split)
qed

text \<open>Publishing a plan makes its operation live, and no other.\<close>

lemma publish_grant_live:
  assumes "publish_grant i again c = (r, d)" and "holds j b d" and "live b"
  shows "holds j b c \<or> r = Inr True \<and> j = i"
proof (cases "holds i Preparing c")
  case True
  then have "r = Inr True" and "d = set_state i (if again then GrantedMore else Granted) c"
    using assms(1) by (auto simp: publish_grant_def transition_eq)
  then show ?thesis using moves_other(1) [OF moves_set_state [OF True]] assms(2) by metis
next
  case False
  then have "\<And>x. co_words d x = co_words c x"
    using assms(1) by (auto simp: publish_grant_def transition_eq split: sum.splits if_splits)
  then show ?thesis using assms(2) by (simp add: holds_def load_def)
qed

lemma run_publish_keeps:
  assumes "reaper_inv X s" and "run_publish i plan again (rp_run s) = Some (r, g)"
  shows "reaper_inv (if r = Inr True then insert i X else X) (s\<lparr>rp_run := g\<rparr>)"
proof -
  let ?g = "rp_run s"
  have inv: "run_inv ?g" "gr_storing ?g = None" "tags_ok (gr_grants ?g)" using assms(1) by (simp_all add: reaper_inv_def)
  obtain r1 d1 where p: "publish_store i plan (gr_grants ?g) = Some (r1, d1)" "d1 = gr_grants ?g \<or> r1 = Inr True"
    using publish_store_spec [of "gr_grants ?g" i plan] inv(1) by (auto simp: run_inv_def)
  show ?thesis
  proof (cases "r1 = Inr True")
    case False
    then have "g = ?g" "r \<noteq> Inr True"
      using assms(2) p by (auto simp: run_publish_def publish_local_def split: sum.splits if_splits)
    then show ?thesis using assms(1) by simp
  next
    case True
    obtain r2 d2 where q: "publish_grant i again d1 = (r2, d2)" by fastforce
    let ?a = "?g\<lparr>gr_grants := d1, gr_storing := Some (i, again, plan)\<rparr>"
    have step1: "grant_step ?g ?a" using manager_store [OF inv(2)] p(1) True by simp
    have g: "r = r2" "g = ?a\<lparr>gr_grants := d2, gr_storing := None,
        gr_published := (if r2 = Inr True then (gr_published ?a)(i \<mapsto> plan) else gr_published ?a)\<rparr>"
      using assms(2) p True q inv(2) by (auto simp: run_publish_def publish_local_def)
    have step2: "grant_step ?a g" using manager_grant [of ?a i again plan r2 d2] q unfolding g by simp
    have run: "run_inv ?a" "run_inv g" using grant_step_inv step1 step2 inv(1) by blast+
    have f: "follows False (gr_grants ?g) d1" "follows True d1 d2"
      using grant_step_follows [OF step1 inv(1)] grant_step_follows [OF step2 run(1)] inv(2) g(2) by simp_all
    have "owned j (s\<lparr>rp_run := g\<rparr>) \<or> j \<in> (if r = Inr True then insert i X else X)" if "live b" "holds j b d2" for j b
      using publish_grant_live [OF q that(2,1)] follows_live [OF f(1) that(1), of j] assms(1) g(1)
      by (auto simp: reaper_inv_def owned_def)
    moreover have "settled j b d2" if "(j, b) \<in> set (rp_updates s)" "b \<in> {Drained, Revoked}" for j b
      using follows_settled [OF f(2) follows_settled [OF f(1)]] assms(1) that by (auto simp: reaper_inv_def)
    ultimately show ?thesis
      using run(2) follows_tags [OF f(2) follows_tags [OF f(1) inv(3)]] g(2) by (auto simp: reaper_inv_def)
  qed
qed

lemma notify_run:
  assumes "run_inv g"
  shows "run_inv (g\<lparr>gr_grants := notify_engine (gr_grants g)\<rparr>)"
proof -
  have "plans_ok (co_plans (gr_grants g))" using assms by (simp add: run_inv_def)
  then have k: "kept (gr_grants g) (notify_engine (gr_grants g))" "same_plan j (gr_grants g) (notify_engine (gr_grants g))" for j
    by (auto intro!: low_kept simp: notify_engine_def)
  show ?thesis
    by (rule kept_run [OF assms]) (use assms k kept_storing [OF k(1)] in \<open>auto simp: run_inv_def reading_inv_def\<close>)
qed

lemma notify_keeps:
  assumes "reaper_inv X s"
  shows "reaper_inv X (s\<lparr>rp_run := (rp_run s)\<lparr>gr_grants := notify_engine (gr_grants (rp_run s))\<rparr>\<rparr>)"
proof -
  have "holds i st (notify_engine c) = holds i st c" "load x (notify_engine c) = load x c" "next_id (notify_engine c) = next_id c" for i st c x
    by (simp_all add: holds_def load_def next_id_def notify_engine_def)
  then show ?thesis using assms notify_run by (simp add: reaper_inv_def owned_def tags_ok_def settled_def)
qed

lemma pending_keeps: "reaper_inv X s \<Longrightarrow> reaper_inv X (s\<lparr>rp_pending := ids\<rparr>)"
  by (simp add: reaper_inv_def owned_def)

lemma publish_keeps:
  assumes "reaper_inv X s" and "publish_pending s = Some (t, again)"
  shows "reaper_inv X t"
proof (cases "rp_pending s")
  case Nil
  then show ?thesis using assms by (simp add: publish_pending_def)
next
  case (Cons i rest)
  show ?thesis
  proof (cases "map_of (rp_sources s) i")
    case None
    then show ?thesis using assms Cons pending_keeps by (auto simp: publish_pending_def)
  next
    case (Some ow)
    obtain plan more where e: "encoded_plan ow = Some (plan, more)"
      using assms(2) Cons Some by (auto simp: publish_pending_def split: option.splits)
    obtain r g where p: "run_publish i plan more (rp_run s) = Some (r, g)"
      using assms(2) Cons Some e by (auto simp: publish_pending_def split: option.splits)
    let ?s = "s\<lparr>rp_run := g\<rparr>"
    have keep: "reaper_inv X ?s"
      using run_publish_keeps [OF assms(1) p] Some by (auto simp: reaper_inv_def owned_def split: if_splits)
    have u: "utf8_valid (ascii ''restore preparation cancelled'')" by code_simp
    have rej: "reaper_inv X ((reject_record i m (remove_owner i ?s))\<lparr>rp_pending := rest\<rparr>)" if "utf8_valid m" for m
      using that keep by (intro pending_keeps reject_keeps remove_keeps)
    show ?thesis
      using assms(2) Cons Some e p keep pending_keeps [OF notify_keeps [OF keep]] rej [OF u] rej [OF completion_text_valid]
      by (auto simp: publish_pending_def Let_def split: sum.splits bool.splits if_splits)
  qed
qed

lemma reaper_step_inv:
  assumes "reaper_step s t" and "reaper_inv {} s"
  shows "reaper_inv {} t"
  using assms
proof (induction rule: reaper_step.induct)
  case (update s i st rest)
  then have "reaper_inv {} (s\<lparr>rp_updates := rest\<rparr>)" by (auto simp: reaper_inv_def owned_def)
  then show ?case by (rule handle_update_keeps) (use update in \<open>auto simp: reaper_inv_def\<close>)
qed (auto intro: step_keeps install_keeps receive_keeps disconnect_keeps observe_keeps stop_keeps publish_keeps)

lemma reaper_start_inv:
  assumes "reaper_start s"
  shows "reaper_inv {} s"
proof -
  have "load (rec_of i) (completions_create epoch token) = 0" for i epoch token
    using rec_inside(2) [of i] by (auto simp: load_def completions_create_def NEXT_OPERATION_OFFSET_def)
  moreover from this have "\<not> holds i st (completions_create epoch token)" for i st epoch token
    by (auto simp: holds_def)
  ultimately show ?thesis
    using assms grant_start_inv by (auto simp: reaper_start_def reaper_inv_def grant_start_def tags_ok_def)
qed

interpretation rr: invariant_system reaper_start reaper_step "reaper_inv {}"
  by unfold_locales (auto intro: reaper_start_inv reaper_step_inv)

text \<open>C2. As long as an engine copies or executes a plan it has claimed, whatever happens to the session, to the task that
  owns the sources or to the other operations, the source of that plan is still owned: by its entry, or for good by the
  quarantine. No source is freed under a transfer.\<close>

theorem source_outlives_dma:
  assumes "reach reaper_start reaper_step s" and "gr_reading (rp_run s) i \<noteq> None \<or> gr_executing (rp_run s) i \<noteq> None"
  shows "i \<in> set (bt_keys (rp_sources s)) \<or> i \<in> rp_quarantine s"
proof -
  have inv: "reaper_inv {} s" using assms(1) by (rule rr.reach_inv)
  then have "reading_inv (rp_run s)" "executing_inv (rp_run s)" by (simp_all add: reaper_inv_def run_inv_def)
  then have "\<exists>st. live st \<and> holds i st (gr_grants (rp_run s))"
    using assms(2) unfolding reading_inv_def executing_inv_def live_def by blast
  then have "owned i s" using inv by (auto simp: reaper_inv_def)
  then show ?thesis by (auto simp: owned_def bt_keys_def map_of_eq_None_iff)
qed

theorem source_outlives_dma_witness:
  "\<exists>s. reach reaper_start reaper_step s \<and> gr_reading (rp_run s) 1 \<noteq> None \<and> (1 \<in> set (bt_keys (rp_sources s)) \<or> 1 \<in> rp_quarantine s)"
proof -
  let ?R = "reach reaper_start reaper_step"
  let ?g = "\<lambda>c as. \<lparr>gr_grants = c, gr_storing = None, gr_reading = Map.empty, gr_executing = Map.empty,
     gr_published = Map.empty, gr_result = Map.empty, gr_admitted = as, gr_delivered = []\<rparr>"
  let ?s = "\<lambda>g. \<lparr>rp_run = g, rp_incoming = [], rp_sources = [], rp_pending = [], rp_updates = [], rp_connected = True,
     rp_budget = LOCAL_PLAN_METADATA_BYTES, rp_quarantine = {}\<rparr>"
  have 0: "?R (?s (?g (completions_create 1 1) []))" by (rule reach_start) (auto simp: reaper_start_def grant_start_def)
  have "grant_step (?g (completions_create 1 1) []) (?g (sample_grants 16) [])"
    using engine_reserve [of "?g (completions_create 1 1) []" "Inr 1" "sample_grants 16"] sample_steps(1) by simp
  then have 1: "?R (?s (?g (sample_grants 16) []))"
    using reach_step [OF 0 other_task [of "?s (?g (completions_create 1 1) [])" "?g (sample_grants 16) []"]] by simp
  have "grant_step (?g (sample_grants 16) []) sample_run"
    using manager_claim [of 1 "?g (sample_grants 16) []" "sample_grants 17"] sample_steps(2) by (simp add: sample_run_def)
  then have 2: "?R (?s sample_run)"
    using reach_step [OF 1 other_task [of "?s (?g (sample_grants 16) [])" sample_run]] by (simp add: sample_run_def)
  let ?ow = "\<lparr>ow_plans = [[7]], ow_permit = 1\<rparr>" and ?b = "LOCAL_PLAN_METADATA_BYTES - 1"
  have "install_source 1 [[7]] (?s sample_run) = (?s sample_run)\<lparr>rp_budget := ?b, rp_incoming := [(1, ?ow)]\<rparr>"
    by (simp add: install_source_def plan_bytes_def machine_defs LOCAL_PLAN_METADATA_BYTES_def RESTORE_COMPLETION_SLOTS_def)
  then have 3: "?R ((?s sample_run)\<lparr>rp_budget := ?b, rp_incoming := [(1, ?ow)]\<rparr>)"
    using reach_step [OF 2 install [of "?s sample_run" 1 "[[7]]"]] by simp
  let ?t = "(?s sample_run)\<lparr>rp_budget := ?b, rp_sources := [(1, ?ow)], rp_pending := [1]\<rparr>"
  have 4: "?R ?t" using reach_step [OF 3 receive] by (simp add: receive_source_def remove_owner_def)
  have st: "grant_state_of 1 (sample_grants 17) = Inr Preparing" using sample_holds(1) by (simp only: grant_state_of_iff)
  have "\<exists>d. publish_store 1 [7] (sample_grants 17) = Some (Inr True, d)"
    unfolding publish_store_def st sample_holds(2) by (simp add: bt_keys_def bt_values_def plan_size_def div_ceil_def RESTORE_PLAN_BYTES_def)
  then obtain d where d: "publish_store 1 [7] (sample_grants 17) = Some (Inr True, d)" ..
  have "stored 1 [7] (sample_grants 17) d" using publish_store_spec [of "sample_grants 17" 1 "[7]"] d sample_holds by auto
  then have h: "holds 1 Preparing d" using sample_holds(1) stored_holds by blast
  let ?d = "notify_engine (set_state 1 Granted d)"
  let ?h = "sample_run\<lparr>gr_grants := ?d, gr_published := [1 \<mapsto> [7]]\<rparr>"
  have "publish_local 1 [7] False (sample_grants 17) = Some (Inr True, set_state 1 Granted d)"
    using h d by (simp add: publish_local_def publish_grant_def transition_eq)
  then have "publish_pending ?t = Some (?t\<lparr>rp_run := ?h, rp_pending := []\<rparr>, True)"
    by (simp add: publish_pending_def encoded_plan_def run_publish_def sample_run_def)
  then have 5: "?R (?t\<lparr>rp_run := ?h, rp_pending := []\<rparr>)" using reach_step [OF 4 publish] by blast
  have g: "holds 1 Granted ?d" using h by (simp add: notify_engine_def holds_def load_def set_state_def store_def)
  then have gs: "grant_state_of 1 ?d = Inr Granted" by (simp only: grant_state_of_iff)
  have "claim_begin 1 ?d = (Inr True, set_state 1 Active ?d)" unfolding claim_begin_def gs using g by (simp add: transition_eq)
  then have "grant_step ?h (?h\<lparr>gr_grants := set_state 1 Active ?d, gr_reading := (gr_reading ?h)(1 \<mapsto> ClaimWon)\<rparr>)"
    by (intro engine_claim) (simp del: One_nat_def)
  from reach_step [OF 5 other_task, of "?h\<lparr>gr_grants := set_state 1 Active ?d, gr_reading := (gr_reading ?h)(1 \<mapsto> ClaimWon)\<rparr>"] this
  have 6: "?R (?t\<lparr>rp_run := ?h\<lparr>gr_grants := set_state 1 Active ?d, gr_reading := (gr_reading ?h)(1 \<mapsto> ClaimWon)\<rparr>, rp_pending := []\<rparr>)"
    by (simp add: sample_run_def)
  then show ?thesis using source_outlives_dma [OF 6, of 1] by (intro exI conjI) (rule 6, simp_all)
qed

end
