(* ===== verification/Query_Budget.thy ===== *)
theory Query_Budget
  imports Orbit_Prelude
begin

text \<open>
  The byte budget of queries and the leases on their results (\<open>orbitkv-core/src/query/mod.rs\<close> and \<open>query/lease.rs\<close>).

  \<^item> A \<open>Reservation\<close> is shared by the clones of its \<open>QueryReservation\<close> and dropped with the last of them. Reservations are
    cells of an explicit store; a handle carries the address of its cell. \<open>drop_handles\<close> drops handles one after the other
    and the cell with the last handle.
  \<^item> An outer \<open>None\<close> is a panic: an unsigned subtraction or addition that overflows, or a missing cell.
  \<^item> The tables of the usage are never iterated: partial functions. The table of leases is an association list, newest first.
  \<^item> The blocks of a lease are values of a type \<open>'b\<close>; the leases only carry them.
  \<^item> The readings of the clock, and the fresh random tokens, are arguments. Metrics, the gauges and the task that sweeps
    in intervals are left out.
\<close>

section \<open>The budget\<close>

record query_owner =
  qo_session :: nat
  qo_operation :: nat
  qo_revision :: nat

datatype query_mode = Demand | WaitForFullPrefix | Warmup | Prepare

datatype query_phase = Warming | Preloading | Prepared | Preparing | Ready | Restoring

definition speculative :: "query_phase \<Rightarrow> bool" where
  "speculative p \<longleftrightarrow> p \<in> {Warming, Preloading, Prepared}"

record usage =
  us_total :: nat
  us_instances :: "bytes \<rightharpoonup> nat"
  us_warming :: nat
  us_warming_instances :: "bytes \<rightharpoonup> nat"

record reservation =
  rv_instance :: bytes
  rv_namespace :: bytes
  rv_bytes :: nat
  rv_phase :: query_phase

record query_budget =
  qb_global :: nat
  qb_per_instance :: nat
  qb_usage :: usage
  qb_total_peak :: nat
  qb_instance_peak :: nat
  qb_cells :: "nat \<rightharpoonup> reservation"
  qb_next_cell :: nat

record query_reservation =
  qr_cell :: nat
  qr_generation :: "bytes option"

datatype query_admission = Admitted query_reservation | Busy | TooLarge

definition i64_max :: nat where "i64_max = 2 ^ 63 - 1"

definition budget_new :: "nat \<Rightarrow> nat \<Rightarrow> string + query_budget" where
  "budget_new global per_instance =
     (if global = 0 \<or> per_instance = 0 \<or> per_instance > global \<or> global > i64_max
      then Inl ''query byte limits must satisfy 0 < instance <= global <= i64::MAX''
      else Inr \<lparr>qb_global = global, qb_per_instance = per_instance,
        qb_usage = \<lparr>us_total = 0, us_instances = Map.empty, us_warming = 0, us_warming_instances = Map.empty\<rparr>,
        qb_total_peak = 0, qb_instance_peak = 0, qb_cells = Map.empty, qb_next_cell = 0\<rparr>)"

text \<open>\<open>get(..).copied().unwrap_or(0)\<close>, and \<open>entry(..).or_default() += bytes\<close>.\<close>

definition used :: "(bytes \<rightharpoonup> nat) \<Rightarrow> bytes \<Rightarrow> nat" where
  "used m i = (case m i of None \<Rightarrow> 0 | Some n \<Rightarrow> n)"

definition add_used :: "(bytes \<rightharpoonup> nat) \<Rightarrow> bytes \<Rightarrow> nat \<Rightarrow> (bytes \<rightharpoonup> nat) option" where
  "add_used m i n = do { t \<leftarrow> checked_add (used m i) n; Some (m(i \<mapsto> t)) }"

text \<open>Subtract from an entry and remove it when it reaches zero.\<close>

definition sub_used :: "(bytes \<rightharpoonup> nat) \<Rightarrow> bytes \<Rightarrow> nat \<Rightarrow> (bytes \<rightharpoonup> nat) option" where
  "sub_used m i n =
     (case m i of
        None \<Rightarrow> Some m
      | Some t \<Rightarrow> do { d \<leftarrow> usub t n; Some (if d = 0 then m(i := None) else m(i \<mapsto> d)) })"

text \<open>\<open>bytes > limit - used\<close>, which panics when the limit is exceeded already.\<close>

definition over :: "nat \<Rightarrow> nat \<Rightarrow> nat \<Rightarrow> bool option" where
  "over bytes limit u = map_option (\<lambda>room. bytes > room) (usub limit u)"

definition does_not_fit :: "query_budget \<Rightarrow> bytes \<Rightarrow> nat \<Rightarrow> bool \<Rightarrow> bool option" where
  "does_not_fit b i bytes warm =
     (let u = qb_usage b in do {
        a \<leftarrow> over bytes (qb_global b) (us_total u);
        if a then Some True
        else do {
          c \<leftarrow> over bytes (qb_per_instance b) (used (us_instances u) i);
          if c then Some True
          else if \<not> warm then Some False
          else do {
            d \<leftarrow> over bytes (qb_global b div 4) (us_warming u);
            if d then Some True else over bytes (qb_per_instance b div 4) (used (us_warming_instances u) i) } } })"

definition warm_mode :: "query_mode \<Rightarrow> bool" where
  "warm_mode mode \<longleftrightarrow> mode \<in> {Warmup, Prepare}"

definition admit_phase :: "query_mode \<Rightarrow> query_phase" where
  "admit_phase mode = (if \<not> warm_mode mode then Preparing else if mode = Prepare then Preloading else Warming)"

definition reserve_query ::
  "query_budget \<Rightarrow> bytes \<Rightarrow> bytes \<Rightarrow> nat \<Rightarrow> query_mode \<Rightarrow> (query_budget \<times> query_admission) option" where
  "reserve_query b i namespace bytes mode =
     (let warm = warm_mode mode; u = qb_usage b in
      if bytes > (if warm then qb_per_instance b div 4 else qb_per_instance b) then Some (b, TooLarge)
      else if mode = Warmup \<and> us_total u > us_warming u then Some (b, Busy)
      else do {
        full \<leftarrow> does_not_fit b i bytes warm;
        if full then Some (b, Busy)
        else do {
          total \<leftarrow> checked_add (us_total u) bytes;
          instance_total \<leftarrow> checked_add (used (us_instances u) i) bytes;
          instances \<leftarrow> add_used (us_instances u) i bytes;
          warming \<leftarrow> (if warm then checked_add (us_warming u) bytes else Some (us_warming u));
          warming_instances \<leftarrow> (if warm then add_used (us_warming_instances u) i bytes else Some (us_warming_instances u));
          let cell = qb_next_cell b;
          Some (b\<lparr>qb_usage := \<lparr>us_total = total, us_instances = instances, us_warming = warming,
                    us_warming_instances = warming_instances\<rparr>,
                  qb_total_peak := max (qb_total_peak b) total,
                  qb_instance_peak := max (qb_instance_peak b) instance_total,
                  qb_cells := (qb_cells b)(cell \<mapsto> \<lparr>rv_instance = i, rv_namespace = namespace, rv_bytes = bytes,
                    rv_phase = admit_phase mode\<rparr>),
                  qb_next_cell := cell + 1\<rparr>,
                Admitted \<lparr>qr_cell = cell, qr_generation = None\<rparr>) } })"

definition bind_registration :: "bytes \<Rightarrow> query_reservation \<Rightarrow> query_reservation" where
  "bind_registration generation r = r\<lparr>qr_generation := Some generation\<rparr>"

definition release_speculative :: "usage \<Rightarrow> bytes \<Rightarrow> nat \<Rightarrow> usage option" where
  "release_speculative u i n = do {
     w \<leftarrow> usub (us_warming u) n;
     ws \<leftarrow> sub_used (us_warming_instances u) i n;
     Some (u\<lparr>us_warming := w, us_warming_instances := ws\<rparr>) }"

definition release_bytes :: "usage \<Rightarrow> bytes \<Rightarrow> nat \<Rightarrow> query_phase \<Rightarrow> usage option" where
  "release_bytes u i n phase = do {
     t \<leftarrow> usub (us_total u) n;
     u1 \<leftarrow> (if speculative phase then release_speculative (u\<lparr>us_total := t\<rparr>) i n else Some (u\<lparr>us_total := t\<rparr>));
     ins \<leftarrow> sub_used (us_instances u1) i n;
     Some (u1\<lparr>us_instances := ins\<rparr>) }"

definition ready_query :: "query_budget \<Rightarrow> query_reservation \<Rightarrow> nat \<Rightarrow> (query_budget \<times> (string + unit)) option" where
  "ready_query b r bytes = do {
     v \<leftarrow> qb_cells b (qr_cell r);
     if rv_phase v \<notin> {Preparing, Preloading} \<or> bytes > rv_bytes v
     then Some (b, Inl ''query result exceeds its registered layout byte reservation'')
     else do {
       released \<leftarrow> usub (rv_bytes v) bytes;
       u \<leftarrow> release_bytes (qb_usage b) (rv_instance v) released (rv_phase v);
       Some (b\<lparr>qb_usage := u, qb_cells := (qb_cells b)(qr_cell r \<mapsto>
         v\<lparr>rv_bytes := bytes, rv_phase := (if rv_phase v = Preloading then Prepared else Ready)\<rparr>)\<rparr>, Inr ()) } }"

definition batch_blocks :: "reservation \<Rightarrow> nat \<Rightarrow> nat \<Rightarrow> nat" where
  "batch_blocks v requested byte_limit =
     (if requested = 0 \<or> byte_limit = 0 \<or> rv_bytes v = 0 then max requested 1
      else max (byte_limit div max (rv_bytes v div requested) 1) 1)"

definition claim_query :: "query_budget \<Rightarrow> query_reservation \<Rightarrow> query_budget option" where
  "claim_query b r = do {
     v \<leftarrow> qb_cells b (qr_cell r);
     if rv_phase v = Prepared then do {
       u \<leftarrow> release_speculative (qb_usage b) (rv_instance v) (rv_bytes v);
       Some (b\<lparr>qb_usage := u, qb_cells := (qb_cells b)(qr_cell r \<mapsto> v\<lparr>rv_phase := Ready\<rparr>)\<rparr>) }
     else Some b }"

definition restoring_query :: "query_budget \<Rightarrow> query_reservation \<Rightarrow> query_budget option" where
  "restoring_query b r = do {
     v \<leftarrow> qb_cells b (qr_cell r);
     Some (if rv_phase v = Ready then b\<lparr>qb_cells := (qb_cells b)(qr_cell r \<mapsto> v\<lparr>rv_phase := Restoring\<rparr>)\<rparr> else b) }"

definition drop_reservation :: "query_budget \<Rightarrow> nat \<Rightarrow> query_budget option" where
  "drop_reservation b cell = do {
     v \<leftarrow> qb_cells b cell;
     u \<leftarrow> release_bytes (qb_usage b) (rv_instance v) (rv_bytes v) (rv_phase v);
     Some (b\<lparr>qb_usage := u, qb_cells := (qb_cells b)(cell := None)\<rparr>) }"

text \<open>Drop the first handles while the others stay.\<close>

fun drop_handles :: "query_reservation list \<Rightarrow> query_reservation list \<Rightarrow> query_budget \<Rightarrow> query_budget option" where
  "drop_handles [] others b = Some b"
| "drop_handles (r # rs) others b =
     (if qr_cell r \<in> set (map qr_cell (rs @ others)) then drop_handles rs others b
      else do { b' \<leftarrow> drop_reservation b (qr_cell r); drop_handles rs others b' })"

section \<open>The bytes of the live reservations\<close>

definition share :: "(reservation \<Rightarrow> bool) \<Rightarrow> (nat \<rightharpoonup> reservation) \<Rightarrow> nat" where
  "share P cells = (\<Sum>c\<in>dom cells. if P (the (cells c)) then rv_bytes (the (cells c)) else 0)"

definition is_speculative :: "reservation \<Rightarrow> bool" where
  "is_speculative v \<longleftrightarrow> speculative (rv_phase v)"

definition accounts :: "usage \<Rightarrow> (nat \<rightharpoonup> reservation) \<Rightarrow> bool" where
  "accounts u cells \<longleftrightarrow> us_total u = share (\<lambda>_. True) cells \<and> us_warming u = share is_speculative cells \<and>
     (\<forall>i. used (us_instances u) i = share (\<lambda>v. rv_instance v = i) cells) \<and>
     (\<forall>i. used (us_warming_instances u) i = share (\<lambda>v. is_speculative v \<and> rv_instance v = i) cells)"

text \<open>The reservations add up to the usage, and the usage is within its limits.\<close>

definition budget_inv :: "query_budget \<Rightarrow> bool" where
  "budget_inv b \<longleftrightarrow> qb_global b \<le> i64_max \<and> finite (dom (qb_cells b)) \<and> (\<forall>c \<in> dom (qb_cells b). c < qb_next_cell b) \<and>
     accounts (qb_usage b) (qb_cells b) \<and>
     us_total (qb_usage b) \<le> qb_global b \<and> (\<forall>i. used (us_instances (qb_usage b)) i \<le> qb_per_instance b) \<and>
     us_warming (qb_usage b) \<le> qb_global b div 4 \<and> (\<forall>i. used (us_warming_instances (qb_usage b)) i \<le> qb_per_instance b div 4) \<and>
     qb_per_instance b \<le> qb_global b"

lemma share_upd:
  assumes "finite (dom cells)"
  shows "share P (cells(c \<mapsto> v)) = (if P v then rv_bytes v else 0) + share P (cells(c := None))"
proof -
  have "share P (cells(c \<mapsto> v)) = (if P v then rv_bytes v else 0) +
      (\<Sum>x\<in>dom cells - {c}. if P (the ((cells(c \<mapsto> v)) x)) then rv_bytes (the ((cells(c \<mapsto> v)) x)) else 0)"
    using assms by (simp add: share_def sum.insert_remove)
  also have "(\<Sum>x\<in>dom cells - {c}. if P (the ((cells(c \<mapsto> v)) x)) then rv_bytes (the ((cells(c \<mapsto> v)) x)) else 0) =
      share P (cells(c := None))"
    unfolding share_def by (intro sum.cong) auto
  finally show ?thesis .
qed

lemma share_at:
  assumes "finite (dom cells)" and "cells c = Some v"
  shows "share P cells = (if P v then rv_bytes v else 0) + share P (cells(c := None))"
  using share_upd [OF assms(1), of P c v] assms(2) by (simp add: fun_upd_idem)

lemma share_new: "cells c = None \<Longrightarrow> cells(c := None) = cells"
  by auto

lemma sub_used_works:
  assumes "n \<le> used m i"
  obtains m' where "sub_used m i n = Some m'" and "\<And>j. used m' j = (if j = i then used m i - n else used m j)"
proof (cases "m i")
  case None
  then show ?thesis using assms that [of m] by (simp add: sub_used_def used_def)
next
  case (Some t)
  let ?m = "if t - n = 0 then m(i := None) else m(i \<mapsto> t - n)"
  have "sub_used m i n = Some ?m" using assms Some by (simp add: sub_used_def used_def)
  moreover have "used ?m j = (if j = i then used m i - n else used m j)" for j using Some by (simp add: used_def)
  ultimately show ?thesis using that by blast
qed

lemma add_used_works:
  assumes "used m i + n \<le> u64_max"
  obtains m' where "add_used m i n = Some m'" and "\<And>j. used m' j = (if j = i then used m i + n else used m j)"
proof (rule that [of "m(i \<mapsto> used m i + n)"])
  show "add_used m i n = Some (m(i \<mapsto> used m i + n))" using assms by (simp add: add_used_def checked_add_def)
qed (simp add: used_def)

text \<open>Releasing bytes of a reservation, all or a part of them, never underflows.\<close>

lemma release_speculative_accounts:
  assumes "n \<le> us_warming u" and "n \<le> used (us_warming_instances u) i"
  obtains u' where "release_speculative u i n = Some u'" and "us_warming u' = us_warming u - n"
    and "\<And>j. used (us_warming_instances u') j = (if j = i then used (us_warming_instances u) i - n else used (us_warming_instances u) j)"
    and "us_total u' = us_total u" and "us_instances u' = us_instances u"
proof -
  obtain ws where ws: "sub_used (us_warming_instances u) i n = Some ws"
    "\<And>j. used ws j = (if j = i then used (us_warming_instances u) i - n else used (us_warming_instances u) j)"
    using sub_used_works [OF assms(2)] by blast
  show ?thesis
    by (rule that [of "u\<lparr>us_warming := us_warming u - n, us_warming_instances := ws\<rparr>"])
      (use assms(1) ws in \<open>simp_all add: release_speculative_def\<close>)
qed

lemma release_bytes_accounts:
  assumes acc: "accounts u cells" and fin: "finite (dom cells)" and v: "cells c = Some v" and n: "n \<le> rv_bytes v"
  obtains u' where "release_bytes u (rv_instance v) n (rv_phase v) = Some u'"
    and "accounts u' (cells(c \<mapsto> v\<lparr>rv_bytes := rv_bytes v - n\<rparr>))"
    and "us_total u' \<le> us_total u" and "\<And>i. used (us_instances u') i \<le> used (us_instances u) i"
    and "us_warming u' \<le> us_warming u" and "\<And>i. used (us_warming_instances u') i \<le> used (us_warming_instances u) i"
proof -
  let ?i = "rv_instance v" and ?w = "v\<lparr>rv_bytes := rv_bytes v - n\<rparr>"
  note at = share_at [OF fin v] and upd = share_upd [OF fin, of _ c ?w]
  have le: "n \<le> us_total u" "n \<le> used (us_instances u) ?i"
    using acc n by (auto simp: accounts_def at)
  let ?u = "u\<lparr>us_total := us_total u - n\<rparr>"
  obtain u1 where u1: "(if speculative (rv_phase v) then release_speculative ?u ?i n else Some ?u) = Some u1"
    "us_warming u1 = (if speculative (rv_phase v) then us_warming u - n else us_warming u)" "us_total u1 = us_total u - n"
    "us_instances u1 = us_instances u"
    "\<And>j. used (us_warming_instances u1) j =
      (if speculative (rv_phase v) \<and> j = ?i then used (us_warming_instances u) ?i - n else used (us_warming_instances u) j)"
  proof (cases "speculative (rv_phase v)")
    case True
    then have "n \<le> us_warming ?u" "n \<le> used (us_warming_instances ?u) ?i"
      using acc n by (auto simp: accounts_def at is_speculative_def)
    then obtain u2 where u2: "release_speculative ?u ?i n = Some u2" "us_warming u2 = us_warming ?u - n"
      "\<And>j. used (us_warming_instances u2) j =
        (if j = ?i then used (us_warming_instances ?u) ?i - n else used (us_warming_instances ?u) j)"
      "us_total u2 = us_total ?u" "us_instances u2 = us_instances ?u"
      using release_speculative_accounts by blast
    show ?thesis by (rule that [of u2]) (use True u2 in simp_all)
  next
    case False
    then show ?thesis by (intro that [of ?u]) simp_all
  qed
  obtain ins where ins: "sub_used (us_instances u) ?i n = Some ins"
    "\<And>j. used ins j = (if j = ?i then used (us_instances u) ?i - n else used (us_instances u) j)"
    using sub_used_works [OF le(2)] by blast
  show ?thesis
  proof (rule that [of "u1\<lparr>us_instances := ins\<rparr>"])
    show "release_bytes u ?i n (rv_phase v) = Some (u1\<lparr>us_instances := ins\<rparr>)"
      using le(1) u1(1,4) ins(1) by (simp add: release_bytes_def)
    show "accounts (u1\<lparr>us_instances := ins\<rparr>) (cells(c \<mapsto> ?w))"
      using acc n by (auto simp: accounts_def at upd ins(2) u1(2,3,5) is_speculative_def)
  qed (use u1 ins(2) in auto)
qed

lemma accounts_zero:
  assumes "accounts u (cells(c \<mapsto> v))" and "rv_bytes v = 0" and "finite (dom cells)"
  shows "accounts u (cells(c := None))"
  using assms by (simp add: accounts_def share_upd)

lemma accounts_phase:
  assumes "accounts u (cells(c \<mapsto> v))" and "finite (dom cells)" and "speculative p = speculative (rv_phase v)"
  shows "accounts u (cells(c \<mapsto> v\<lparr>rv_phase := p\<rparr>))"
  using assms by (simp add: accounts_def share_upd is_speculative_def)

section \<open>Operations keep the accounts\<close>

lemma budget_shrinks:
  assumes "budget_inv b" and "accounts u cells" and "dom cells \<subseteq> dom (qb_cells b)"
    and "us_total u \<le> us_total (qb_usage b)" and "\<And>i. used (us_instances u) i \<le> used (us_instances (qb_usage b)) i"
    and "us_warming u \<le> us_warming (qb_usage b)"
    and "\<And>i. used (us_warming_instances u) i \<le> used (us_warming_instances (qb_usage b)) i"
  shows "budget_inv (b\<lparr>qb_usage := u, qb_cells := cells\<rparr>)"
proof -
  have "finite (dom cells)" using assms(1,3) finite_subset by (auto simp: budget_inv_def)
  moreover have "c < qb_next_cell b" if "c \<in> dom cells" for c using assms(1,3) that by (auto simp: budget_inv_def)
  ultimately show ?thesis
    using assms(1,2,4-7) unfolding budget_inv_def by simp (meson le_trans)
qed

lemma drop_reservation_inv:
  assumes "budget_inv b" and "cell \<in> dom (qb_cells b)"
  obtains b' where "drop_reservation b cell = Some b'" and "budget_inv b'" and "qb_cells b' = (qb_cells b)(cell := None)"
proof -
  obtain v where v: "qb_cells b cell = Some v" using assms(2) by auto
  have fin: "finite (dom (qb_cells b))" and acc: "accounts (qb_usage b) (qb_cells b)" using assms(1) by (simp_all add: budget_inv_def)
  obtain u where u: "release_bytes (qb_usage b) (rv_instance v) (rv_bytes v) (rv_phase v) = Some u"
    "accounts u ((qb_cells b)(cell \<mapsto> v\<lparr>rv_bytes := rv_bytes v - rv_bytes v\<rparr>))"
    "us_total u \<le> us_total (qb_usage b)" "\<And>i. used (us_instances u) i \<le> used (us_instances (qb_usage b)) i"
    "us_warming u \<le> us_warming (qb_usage b)" "\<And>i. used (us_warming_instances u) i \<le> used (us_warming_instances (qb_usage b)) i"
    using release_bytes_accounts [OF acc fin v order_refl] by blast
  have "accounts u ((qb_cells b)(cell := None))" using accounts_zero [OF u(2) _ fin] by simp
  then have "budget_inv (b\<lparr>qb_usage := u, qb_cells := (qb_cells b)(cell := None)\<rparr>)"
    using u(3-6) by (intro budget_shrinks [OF assms(1)]) auto
  then show ?thesis using that u(1) v by (simp add: drop_reservation_def)
qed

lemma ready_query_inv:
  assumes "budget_inv b" and "qr_cell r \<in> dom (qb_cells b)"
  obtains b' res where "ready_query b r bytes = Some (b', res)" and "budget_inv b'" and "dom (qb_cells b') = dom (qb_cells b)"
proof -
  obtain v where v: "qb_cells b (qr_cell r) = Some v" using assms(2) by auto
  have fin: "finite (dom (qb_cells b))" and acc: "accounts (qb_usage b) (qb_cells b)" using assms(1) by (simp_all add: budget_inv_def)
  show ?thesis
  proof (cases "rv_phase v \<notin> {Preparing, Preloading} \<or> bytes > rv_bytes v")
    case True
    then show ?thesis using that assms(1) v by (simp add: ready_query_def)
  next
    case False
    let ?n = "rv_bytes v - bytes" and ?p = "if rv_phase v = Preloading then Prepared else Ready"
    obtain u where u: "release_bytes (qb_usage b) (rv_instance v) ?n (rv_phase v) = Some u"
      "accounts u ((qb_cells b)(qr_cell r \<mapsto> v\<lparr>rv_bytes := rv_bytes v - ?n\<rparr>))"
      "us_total u \<le> us_total (qb_usage b)" "\<And>i. used (us_instances u) i \<le> used (us_instances (qb_usage b)) i"
      "us_warming u \<le> us_warming (qb_usage b)" "\<And>i. used (us_warming_instances u) i \<le> used (us_warming_instances (qb_usage b)) i"
      using release_bytes_accounts [OF acc fin v, of ?n] diff_le_self by blast
    let ?b = "b\<lparr>qb_usage := u, qb_cells := (qb_cells b)(qr_cell r \<mapsto> v\<lparr>rv_bytes := bytes, rv_phase := ?p\<rparr>)\<rparr>"
    have "speculative ?p = speculative (rv_phase (v\<lparr>rv_bytes := bytes\<rparr>))" using False by (auto simp: speculative_def)
    then have "accounts u ((qb_cells b)(qr_cell r \<mapsto> v\<lparr>rv_bytes := bytes, rv_phase := ?p\<rparr>))"
      using accounts_phase [of u "qb_cells b" "qr_cell r" "v\<lparr>rv_bytes := bytes\<rparr>" ?p] u(2) fin False by simp
    then have "budget_inv ?b" using u(3-6) v by (intro budget_shrinks [OF assms(1)]) auto
    moreover have "ready_query b r bytes = Some (?b, Inr ())" using False u(1) v by (simp add: ready_query_def)
    ultimately show ?thesis using that v by auto
  qed
qed

lemma claim_query_inv:
  assumes "budget_inv b" and "qr_cell r \<in> dom (qb_cells b)"
  obtains b' where "claim_query b r = Some b'" and "budget_inv b'" and "dom (qb_cells b') = dom (qb_cells b)"
proof -
  obtain v where v: "qb_cells b (qr_cell r) = Some v" using assms(2) by auto
  have fin: "finite (dom (qb_cells b))" and acc: "accounts (qb_usage b) (qb_cells b)" using assms(1) by (simp_all add: budget_inv_def)
  show ?thesis
  proof (cases "rv_phase v = Prepared")
    case False
    then show ?thesis using that assms(1) v by (simp add: claim_query_def)
  next
    case True
    let ?i = "rv_instance v" and ?w = "v\<lparr>rv_phase := Ready\<rparr>"
    note at = share_at [OF fin v] and upd = share_upd [OF fin, of _ "qr_cell r" ?w]
    have "rv_bytes v \<le> us_warming (qb_usage b)" "rv_bytes v \<le> used (us_warming_instances (qb_usage b)) ?i"
      using acc True by (simp_all add: accounts_def at is_speculative_def speculative_def)
    then obtain u where u: "release_speculative (qb_usage b) ?i (rv_bytes v) = Some u"
      "us_warming u = us_warming (qb_usage b) - rv_bytes v"
      "\<And>j. used (us_warming_instances u) j = (if j = ?i then used (us_warming_instances (qb_usage b)) ?i - rv_bytes v
        else used (us_warming_instances (qb_usage b)) j)"
      "us_total u = us_total (qb_usage b)" "us_instances u = us_instances (qb_usage b)"
      using release_speculative_accounts by blast
    let ?b = "b\<lparr>qb_usage := u, qb_cells := (qb_cells b)(qr_cell r \<mapsto> ?w)\<rparr>"
    have "accounts u ((qb_cells b)(qr_cell r \<mapsto> ?w))"
      using acc True by (auto simp: accounts_def at upd u(2-5) is_speculative_def speculative_def)
    then have "budget_inv ?b" using u(2-5) v by (intro budget_shrinks [OF assms(1)]) auto
    moreover have "claim_query b r = Some ?b" using True u(1) v by (simp add: claim_query_def)
    ultimately show ?thesis using that v by auto
  qed
qed

lemma restoring_query_inv:
  assumes "budget_inv b" and "qr_cell r \<in> dom (qb_cells b)"
  obtains b' where "restoring_query b r = Some b'" and "budget_inv b'" and "dom (qb_cells b') = dom (qb_cells b)"
proof -
  obtain v where v: "qb_cells b (qr_cell r) = Some v" using assms(2) by auto
  show ?thesis
  proof (cases "rv_phase v = Ready")
    case False
    then show ?thesis using that assms(1) v by (simp add: restoring_query_def)
  next
    case True
    let ?cells = "(qb_cells b)(qr_cell r \<mapsto> v\<lparr>rv_phase := Restoring\<rparr>)"
    have "accounts (qb_usage b) ((qb_cells b)(qr_cell r \<mapsto> v))" using assms(1) v by (simp add: budget_inv_def fun_upd_idem)
    then have "accounts (qb_usage b) ?cells"
      using accounts_phase [of "qb_usage b" "qb_cells b" "qr_cell r" v Restoring] assms(1) True
      by (simp add: budget_inv_def speculative_def)
    then have "budget_inv (b\<lparr>qb_usage := qb_usage b, qb_cells := ?cells\<rparr>)"
      using v by (intro budget_shrinks [OF assms(1)]) auto
    then have "budget_inv (b\<lparr>qb_cells := ?cells\<rparr>)" by simp
    moreover have "restoring_query b r = Some (b\<lparr>qb_cells := ?cells\<rparr>)" using True v by (simp add: restoring_query_def)
    ultimately show ?thesis using that v by auto
  qed
qed

lemma over_works: "u \<le> limit \<Longrightarrow> over bytes limit u = Some (bytes > limit - u)"
  by (simp add: over_def)

lemma does_not_fit_works:
  assumes "budget_inv b"
  shows "does_not_fit b i bytes warm = Some (\<not> (us_total (qb_usage b) + bytes \<le> qb_global b \<and>
    used (us_instances (qb_usage b)) i + bytes \<le> qb_per_instance b \<and>
    (warm \<longrightarrow> us_warming (qb_usage b) + bytes \<le> qb_global b div 4 \<and>
      used (us_warming_instances (qb_usage b)) i + bytes \<le> qb_per_instance b div 4)))"
proof -
  have le: "us_total (qb_usage b) \<le> qb_global b" "used (us_instances (qb_usage b)) i \<le> qb_per_instance b"
    "us_warming (qb_usage b) \<le> qb_global b div 4" "used (us_warming_instances (qb_usage b)) i \<le> qb_per_instance b div 4"
    using assms by (simp_all add: budget_inv_def)
  show ?thesis using le by (auto simp: does_not_fit_def Let_def over_works)
qed

lemma reserve_query_inv:
  assumes "budget_inv b"
  obtains b' adm where "reserve_query b i ns bytes mode = Some (b', adm)" and "budget_inv b'"
    and "\<And>r. adm = Admitted r \<Longrightarrow> dom (qb_cells b') = insert (qr_cell r) (dom (qb_cells b))"
    and "adm \<notin> range Admitted \<Longrightarrow> b' = b"
proof -
  let ?u = "qb_usage b" and ?warm = "warm_mode mode"
  let ?limit = "if ?warm then qb_per_instance b div 4 else qb_per_instance b"
  let ?fits = "us_total ?u + bytes \<le> qb_global b \<and> used (us_instances ?u) i + bytes \<le> qb_per_instance b \<and>
    (?warm \<longrightarrow> us_warming ?u + bytes \<le> qb_global b div 4 \<and> used (us_warming_instances ?u) i + bytes \<le> qb_per_instance b div 4)"
  have inv: "qb_global b \<le> i64_max" "qb_per_instance b \<le> qb_global b" "finite (dom (qb_cells b))" "accounts ?u (qb_cells b)"
    "qb_cells b (qb_next_cell b) = None"
    using assms by (auto simp: budget_inv_def domIff)
  show ?thesis
  proof (cases "bytes > ?limit \<or> mode = Warmup \<and> us_total ?u > us_warming ?u \<or> \<not> ?fits")
    case True
    then have "reserve_query b i ns bytes mode = Some (b, if bytes > ?limit then TooLarge else Busy)"
      using does_not_fit_works [OF assms, of i bytes ?warm] by (auto simp: reserve_query_def Let_def)
    then show ?thesis using assms by (intro that) (auto split: if_splits)
  next
    case False
    then have fits: ?fits by simp
    have max: "i64_max \<le> u64_max" by (simp add: i64_max_def machine_defs)
    have le: "us_total ?u + bytes \<le> u64_max" "used (us_instances ?u) i + bytes \<le> u64_max"
      "?warm \<Longrightarrow> us_warming ?u + bytes \<le> u64_max" "?warm \<Longrightarrow> used (us_warming_instances ?u) i + bytes \<le> u64_max"
      using fits inv(1,2) max by linarith+
    obtain ins where ins: "add_used (us_instances ?u) i bytes = Some ins"
      "\<And>j. used ins j = (if j = i then used (us_instances ?u) i + bytes else used (us_instances ?u) j)"
      using add_used_works [OF le(2)] by blast
    obtain ws where ws: "(if ?warm then add_used (us_warming_instances ?u) i bytes else Some (us_warming_instances ?u)) = Some ws"
      "\<And>j. used ws j = used (us_warming_instances ?u) j + (if ?warm \<and> j = i then bytes else 0)"
    proof (cases ?warm)
      case True
      then obtain m where m: "add_used (us_warming_instances ?u) i bytes = Some m"
        "\<And>j. used m j = (if j = i then used (us_warming_instances ?u) i + bytes else used (us_warming_instances ?u) j)"
        using add_used_works [OF le(4)] by blast
      show ?thesis by (rule that [of m]) (use True m in simp_all)
    next
      case False
      show ?thesis by (rule that [of "us_warming_instances ?u"]) (use False in simp_all)
    qed
    let ?w = "us_warming ?u + (if ?warm then bytes else 0)"
    let ?v = "\<lparr>rv_instance = i, rv_namespace = ns, rv_bytes = bytes, rv_phase = admit_phase mode\<rparr>"
    let ?u' = "\<lparr>us_total = us_total ?u + bytes, us_instances = ins, us_warming = ?w, us_warming_instances = ws\<rparr>"
    let ?b = "b\<lparr>qb_usage := ?u', qb_total_peak := max (qb_total_peak b) (us_total ?u + bytes),
      qb_instance_peak := max (qb_instance_peak b) (used (us_instances ?u) i + bytes),
      qb_cells := (qb_cells b)(qb_next_cell b \<mapsto> ?v), qb_next_cell := qb_next_cell b + 1\<rparr>"
    have e: "reserve_query b i ns bytes mode = Some (?b, Admitted \<lparr>qr_cell = qb_next_cell b, qr_generation = None\<rparr>)"
      using False does_not_fit_works [OF assms, of i bytes ?warm] le ins(1) ws(1)
      by (simp add: reserve_query_def Let_def checked_add_def)
    have "is_speculative ?v \<longleftrightarrow> ?warm" by (simp add: is_speculative_def speculative_def admit_phase_def)
    then have "accounts ?u' ((qb_cells b)(qb_next_cell b \<mapsto> ?v))"
      using inv(3-5) by (auto simp: accounts_def share_upd share_new ins(2) ws(2))
    moreover have "c < Suc (qb_next_cell b)" if "qb_cells b c = Some y" for c y
      using assms domI [of "qb_cells b", OF that] less_SucI unfolding budget_inv_def by blast
    ultimately have "budget_inv ?b"
      using assms fits by (auto simp: budget_inv_def ins(2) ws(2))
    then show ?thesis using that [OF e] by auto
  qed
qed

lemma drop_handles_inv:
  assumes "budget_inv b" and "dom (qb_cells b) = qr_cell ` set (rs @ others)"
  shows "\<exists>b'. drop_handles rs others b = Some b' \<and> budget_inv b' \<and> dom (qb_cells b') = qr_cell ` set others"
  using assms
proof (induction rs arbitrary: b)
  case (Cons r rs)
  show ?case
  proof (cases "qr_cell r \<in> qr_cell ` set (rs @ others)")
    case True
    then have "dom (qb_cells b) = qr_cell ` set (rs @ others)" using Cons.prems(2) by auto
    then show ?thesis using Cons.IH [OF Cons.prems(1)] True by (simp add: image_Un)
  next
    case False
    have "qr_cell r \<in> dom (qb_cells b)" using Cons.prems(2) by simp
    then obtain c where c: "drop_reservation b (qr_cell r) = Some c" "budget_inv c" "qb_cells c = (qb_cells b)(qr_cell r := None)"
      using drop_reservation_inv [OF Cons.prems(1)] by blast
    have "dom (qb_cells c) = qr_cell ` set (rs @ others)" using c(3) Cons.prems(2) False by auto
    then show ?thesis using Cons.IH [OF c(2)] False c(1) by (simp add: image_Un)
  qed
qed simp

end
