(* ===== verification/Query_Leases.thy ===== *)
theory Query_Leases
  imports Query_Budget
begin

text \<open>
  The leases on query results (\<open>orbitkv-core/src/query/lease.rs\<close>): a query leaves its ready blocks in a lease, a restore
  consumes shares of a batch of leases. A lease owns a handle of its query's reservation, which passes to the consumers.
  The last sections run the table of leases together with the budget of \<open>Query_Budget\<close>: \<open>qs_held\<close> are the handles outside
  the table, held by queries that are being answered and by GPU consumers; \<open>qs_issued\<close> and \<open>qs_taken\<close> are the history
  of the shares.
\<close>

section \<open>The table of leases\<close>

definition DEFAULT_LEASE_TTL :: duration where "DEFAULT_LEASE_TTL = 600 * 1000000000"

datatype engine_error =
    InstanceMissing bytes | WorkerMissing bytes int | InvalidArgument bytes | CudaInit bytes | StorageError bytes
  | Poisoned bytes | TopologyMismatch bytes

definition lease_id_from_bytes :: "bytes \<Rightarrow> bytes + bytes" where
  "lease_id_from_bytes bs =
     (if bs = [] then Inl (ascii ''query lease id must be non-empty'')
      else if length bs \<noteq> 16 then Inl (ascii ''query lease id must be 16 bytes, got '' @ decimal (length bs))
      else Inr bs)"

record 'b query_lease =
  ql_instance_id :: bytes
  ql_blocks :: "'b list"
  ql_remaining_consumers :: nat
  ql_expires_at :: instant
  ql_ownership :: "(query_owner \<times> query_reservation) option"

type_synonym 'b leases = "(bytes \<times> 'b query_lease) list"

definition put_lease :: "bytes \<Rightarrow> 'b query_lease \<Rightarrow> 'b leases \<Rightarrow> 'b leases" where
  "put_lease token l ls = (token, l) # filter (\<lambda>(t, _). t \<noteq> token) ls"

definition remove_lease :: "bytes \<Rightarrow> 'b leases \<Rightarrow> 'b leases" where
  "remove_lease token = filter (\<lambda>(t, _). t \<noteq> token)"

text \<open>The handles of reservations that leases own.\<close>

definition lease_handles :: "'b leases \<Rightarrow> query_reservation list" where
  "lease_handles ls = List.map_filter (\<lambda>(_, l). map_option snd (ql_ownership l)) ls"

definition create_lease ::
  "instant \<Rightarrow> bytes \<Rightarrow> bytes \<Rightarrow> 'b list \<Rightarrow> nat \<Rightarrow> (query_owner \<times> query_reservation) option \<Rightarrow> 'b leases \<Rightarrow> 'b leases option" where
  "create_lease now token instance_id blocks consumers ownership ls =
     (if now + DEFAULT_LEASE_TTL > instant_max then None
      else Some (put_lease token \<lparr>ql_instance_id = instance_id, ql_blocks = blocks, ql_remaining_consumers = max consumers 1,
        ql_expires_at = now + DEFAULT_LEASE_TTL, ql_ownership = ownership\<rparr> ls))"

fun validate_registration :: "bytes \<Rightarrow> 'b leases \<Rightarrow> bytes list \<Rightarrow> engine_error + unit" where
  "validate_registration generation ls [] = Inr ()"
| "validate_registration generation ls (token # tokens) =
     (case map_of ls token of
        None \<Rightarrow> Inl (StorageError (ascii ''query lease is unknown or expired''))
      | Some l \<Rightarrow>
          if (case ql_ownership l of None \<Rightarrow> False | Some (_, r) \<Rightarrow> qr_generation r \<noteq> Some generation)
          then Inl (InvalidArgument (ascii ''query lease registration changed''))
          else validate_registration generation ls tokens)"

fun check_batch :: "bytes \<Rightarrow> instant \<Rightarrow> 'b leases \<Rightarrow> bytes list \<Rightarrow> bytes list \<Rightarrow> engine_error + unit" where
  "check_batch instance_id now ls seen [] = Inr ()"
| "check_batch instance_id now ls seen (token # tokens) =
     (if token \<in> set seen then Inl (InvalidArgument (ascii ''restore batch contains duplicate query lease''))
      else
        (case map_of ls token of
           None \<Rightarrow> Inl (StorageError (ascii ''query lease is unknown or expired''))
         | Some l \<Rightarrow>
             if \<not> now < ql_expires_at l then Inl (StorageError (ascii ''query lease is unknown or expired''))
             else if ql_instance_id l \<noteq> instance_id
             then Inl (StorageError (ascii ''query lease belongs to instance '' @ ql_instance_id l @ ascii '', got '' @ instance_id))
             else check_batch instance_id now ls (token # seen) tokens))"

fun take_shares :: "bytes list \<Rightarrow> 'b leases \<Rightarrow> ('b leases \<times> 'b list \<times> query_reservation list) option" where
  "take_shares [] ls = Some (ls, [], [])"
| "take_shares (token # tokens) ls =
     (case map_of ls token of
        None \<Rightarrow> None
      | Some l \<Rightarrow>
          let ls1 = (if ql_remaining_consumers l > 1
                     then put_lease token (l\<lparr>ql_remaining_consumers := ql_remaining_consumers l - 1\<rparr>) ls
                     else remove_lease token ls);
              rs = (case ql_ownership l of None \<Rightarrow> [] | Some (_, r) \<Rightarrow> [r]) in do {
          (ls2, blocks, reservations) \<leftarrow> take_shares tokens ls1;
          Some (ls2, ql_blocks l @ blocks, rs @ reservations) })"

definition consume_batch ::
  "bytes \<Rightarrow> bytes list \<Rightarrow> ('b list list \<Rightarrow> engine_error + 't) \<Rightarrow> instant \<Rightarrow> 'b leases \<Rightarrow>
   ('b leases \<times> (engine_error + 't \<times> 'b list \<times> query_reservation list)) option" where
  "consume_batch instance_id tokens validate now ls =
     (case check_batch instance_id now ls [] tokens of
        Inl e \<Rightarrow> Some (ls, Inl e)
      | Inr _ \<Rightarrow> do {
          sources \<leftarrow> those (map (\<lambda>t. map_option ql_blocks (map_of ls t)) tokens);
          (case validate sources of
             Inl e \<Rightarrow> Some (ls, Inl e)
           | Inr validated \<Rightarrow> do {
               (ls1, blocks, reservations) \<leftarrow> take_shares tokens ls;
               Some (ls1, Inr (validated, blocks, reservations)) }) })"

section \<open>Leases and budget\<close>

record 'b query_run =
  qs_budget :: query_budget
  qs_leases :: "'b leases"
  qs_held :: "query_reservation list"
  qs_issued :: "bytes \<rightharpoonup> nat"
  qs_taken :: "bytes \<Rightarrow> nat"

text \<open>\<open>retain\<close> drops the leases that do not satisfy the test, with their handles.\<close>

definition retain_leases :: "(bytes \<times> 'b query_lease \<Rightarrow> bool) \<Rightarrow> 'b query_run \<Rightarrow> 'b query_run option" where
  "retain_leases P s = do {
     b \<leftarrow> drop_handles (lease_handles (filter (\<lambda>x. \<not> P x) (qs_leases s)))
           (qs_held s @ lease_handles (filter P (qs_leases s))) (qs_budget s);
     Some (s\<lparr>qs_budget := b, qs_leases := filter P (qs_leases s)\<rparr>) }"

definition sweep_expired :: "instant \<Rightarrow> 'b query_run \<Rightarrow> 'b query_run option" where
  "sweep_expired now = retain_leases (\<lambda>(_, l). now < ql_expires_at l)"

definition release_lease :: "instant \<Rightarrow> bytes \<Rightarrow> 'b query_run \<Rightarrow> ('b query_run \<times> bool) option" where
  "release_lease now token s = do {
     s1 \<leftarrow> sweep_expired now s;
     s2 \<leftarrow> retain_leases (\<lambda>(t, _). t \<noteq> token) s1;
     Some (s2, map_of (qs_leases s1) token \<noteq> None) }"

definition release_instance :: "bytes \<Rightarrow> 'b query_run \<Rightarrow> 'b query_run option" where
  "release_instance instance_id = retain_leases (\<lambda>(_, l). ql_instance_id l \<noteq> instance_id)"

definition release_owner :: "(query_owner \<Rightarrow> bool) \<Rightarrow> 'b query_run \<Rightarrow> 'b query_run option" where
  "release_owner matches =
     retain_leases (\<lambda>(_, l). \<not> (case ql_ownership l of None \<Rightarrow> False | Some (owner, _) \<Rightarrow> matches owner))"

definition claim_lease :: "bytes \<Rightarrow> 'b query_run \<Rightarrow> 'b query_run option" where
  "claim_lease token s =
     (case map_of (qs_leases s) token of
        None \<Rightarrow> Some s
      | Some l \<Rightarrow>
          (case ql_ownership l of
             None \<Rightarrow> Some s
           | Some (_, r) \<Rightarrow> do { b \<leftarrow> claim_query (qs_budget s) r; Some (s\<lparr>qs_budget := b\<rparr>) }))"

text \<open>A lease takes over the handle of the query whose blocks it holds. \<open>sweep_now\<close> and \<open>now\<close> are the two readings of the clock.\<close>

definition create_run ::
  "instant \<Rightarrow> instant \<Rightarrow> bytes \<Rightarrow> bytes \<Rightarrow> 'b list \<Rightarrow> nat \<Rightarrow> (query_owner \<times> query_reservation) option \<Rightarrow> 'b query_run \<Rightarrow>
   'b query_run option" where
  "create_run sweep_now now token instance_id blocks consumers ownership s = do {
     s1 \<leftarrow> sweep_expired sweep_now s;
     ls \<leftarrow> create_lease now token instance_id blocks consumers ownership (qs_leases s1);
     Some (s1\<lparr>qs_leases := ls,
       qs_held := (case ownership of None \<Rightarrow> qs_held s1 | Some (_, r) \<Rightarrow> remove1 r (qs_held s1)),
       qs_issued := (qs_issued s1)(token \<mapsto> max consumers 1)\<rparr>) }"

text \<open>The reservations of a consumed batch are held by its consumer.\<close>

definition consume_run ::
  "bytes \<Rightarrow> bytes list \<Rightarrow> ('b list list \<Rightarrow> engine_error + 't) \<Rightarrow> instant \<Rightarrow> 'b query_run \<Rightarrow>
   ('b query_run \<times> (engine_error + 't \<times> 'b list)) option" where
  "consume_run instance_id tokens validate now s = do {
     (ls, res) \<leftarrow> consume_batch instance_id tokens validate now (qs_leases s);
     (case res of
        Inl e \<Rightarrow> Some (s\<lparr>qs_leases := ls\<rparr>, Inl e)
      | Inr (validated, blocks, reservations) \<Rightarrow>
          Some (s\<lparr>qs_leases := ls, qs_held := reservations @ qs_held s,
            qs_taken := (\<lambda>t. qs_taken s t + (if t \<in> set tokens then 1 else 0))\<rparr>, Inr (validated, blocks))) }"

definition finish_query :: "query_reservation \<Rightarrow> 'b query_run \<Rightarrow> 'b query_run option" where
  "finish_query r s = do {
     b \<leftarrow> drop_handles [r] (remove1 r (qs_held s) @ lease_handles (qs_leases s)) (qs_budget s);
     Some (s\<lparr>qs_budget := b, qs_held := remove1 r (qs_held s)\<rparr>) }"

inductive query_step :: "'b query_run \<Rightarrow> 'b query_run \<Rightarrow> bool" where
  admit:
    "reserve_query (qs_budget s) i ns bytes mode = Some (b, adm) \<Longrightarrow>
     query_step s (s\<lparr>qs_budget := b, qs_held := (case adm of Admitted r \<Rightarrow> [r] | _ \<Rightarrow> []) @ qs_held s\<rparr>)"
| bind:
    "r \<in> set (qs_held s) \<Longrightarrow> query_step s (s\<lparr>qs_held := bind_registration generation r # remove1 r (qs_held s)\<rparr>)"
| clone: "r \<in> set (qs_held s) \<Longrightarrow> query_step s (s\<lparr>qs_held := r # qs_held s\<rparr>)"
| make_ready: "r \<in> set (qs_held s) \<Longrightarrow> ready_query (qs_budget s) r bytes = Some (b, res) \<Longrightarrow> query_step s (s\<lparr>qs_budget := b\<rparr>)"
| start_restore: "r \<in> set (qs_held s) \<Longrightarrow> restoring_query (qs_budget s) r = Some b \<Longrightarrow> query_step s (s\<lparr>qs_budget := b\<rparr>)"
| finish: "r \<in> set (qs_held s) \<Longrightarrow> finish_query r s = Some t \<Longrightarrow> query_step s t"
| create:
    "(\<And>owner r. ownership = Some (owner, r) \<Longrightarrow> r \<in> set (qs_held s)) \<Longrightarrow> qs_issued s token = None \<Longrightarrow>
     create_run sweep_now now token instance_id blocks consumers ownership s = Some t \<Longrightarrow> query_step s t"
| claim: "claim_lease token s = Some t \<Longrightarrow> query_step s t"
| consume:
    "consume_run instance_id tokens (validate :: 'b list list \<Rightarrow> engine_error + unit) now s = Some (t, res) \<Longrightarrow> query_step s t"
| release: "release_lease now token s = Some (t, found) \<Longrightarrow> query_step s t"
| instance_gone: "release_instance instance_id s = Some t \<Longrightarrow> query_step s t"
| owner_gone: "release_owner matches s = Some t \<Longrightarrow> query_step s t"
| sweep: "sweep_expired now s = Some t \<Longrightarrow> query_step s t"

definition query_start :: "'b query_run \<Rightarrow> bool" where
  "query_start s \<longleftrightarrow> (\<exists>global per_instance b. budget_new global per_instance = Inr b \<and>
     s = \<lparr>qs_budget = b, qs_leases = [], qs_held = [], qs_issued = Map.empty, qs_taken = (\<lambda>_. 0)\<rparr>)"

section \<open>Batches\<close>

definition handle_of :: "'b query_lease \<Rightarrow> query_reservation set" where
  "handle_of l = set_option (map_option snd (ql_ownership l))"

lemma lease_handles_set: "set (lease_handles ls) = (\<Union>x \<in> set ls. handle_of (snd x))"
  by (induction ls) (auto simp: lease_handles_def map_filter_simps handle_of_def split: option.splits)

lemma lease_handles_map: "distinct (map fst ls) \<Longrightarrow> set (lease_handles ls) = \<Union> (handle_of ` ran (map_of ls))"
  by (simp add: lease_handles_set ran_distinct)

lemma lease_handles_parts: "set (lease_handles (filter (\<lambda>x. \<not> P x) ls)) \<union> set (lease_handles (filter P ls)) = set (lease_handles ls)"
  by (auto simp: lease_handles_set)

lemma ran_upd: "ran (m(k \<mapsto> v)) = insert v (ran (m(k := None)))"
  using ran_map_upd [of "m(k := None)" k v] by simp

lemma map_of_filter_keys: "map_of (filter (\<lambda>(t, _). t \<noteq> token) ls) t = (if t = token then None else map_of ls t)"
  by (induction ls) auto

lemma put_lease_simps:
  "map_of (put_lease token l ls) t = (if t = token then Some l else map_of ls t)"
  "distinct (map fst ls) \<Longrightarrow> distinct (map fst (put_lease token l ls))"
  by (auto simp: put_lease_def map_of_filter_keys distinct_map_filter)

lemma remove_lease_simps:
  "map_of (remove_lease token ls) t = (if t = token then None else map_of ls t)"
  "distinct (map fst ls) \<Longrightarrow> distinct (map fst (remove_lease token ls))"
  by (simp_all add: remove_lease_def map_of_filter_keys distinct_map_filter)

lemma check_batch_iff:
  "check_batch i now ls seen tokens = Inr () \<longleftrightarrow> distinct tokens \<and> set tokens \<inter> set seen = {} \<and>
     (\<forall>t \<in> set tokens. \<exists>l. map_of ls t = Some l \<and> now < ql_expires_at l \<and> ql_instance_id l = i)"
  by (induction tokens arbitrary: seen) (auto split: option.split)

text \<open>What is left of a lease after a share was taken.\<close>

definition share_left :: "'b query_lease \<Rightarrow> 'b query_lease option" where
  "share_left l = (if ql_remaining_consumers l > 1 then Some (l\<lparr>ql_remaining_consumers := ql_remaining_consumers l - 1\<rparr>) else None)"

definition handle_of_option :: "'b query_lease option \<Rightarrow> query_reservation set" where
  "handle_of_option x = (case x of None \<Rightarrow> {} | Some l \<Rightarrow> handle_of l)"

lemma take_shares_spec:
  assumes "distinct tokens" and "\<forall>t \<in> set tokens. map_of ls t \<noteq> None" and "distinct (map fst ls)"
  shows "\<exists>ls' rs. take_shares tokens ls = Some (ls', concat (map (\<lambda>t. ql_blocks (the (map_of ls t))) tokens), rs) \<and>
    distinct (map fst ls') \<and> set rs \<union> set (lease_handles ls') = set (lease_handles ls) \<and>
    (\<forall>t. map_of ls' t = (if t \<in> set tokens then share_left (the (map_of ls t)) else map_of ls t))"
  using assms
proof (induction tokens arbitrary: ls)
  case (Cons token tokens)
  obtain l where l: "map_of ls token = Some l" using Cons.prems(2) by auto
  define ls1 where "ls1 = (if ql_remaining_consumers l > 1
    then put_lease token (l\<lparr>ql_remaining_consumers := ql_remaining_consumers l - 1\<rparr>) ls else remove_lease token ls)"
  have m: "map_of ls1 t = (if t = token then share_left l else map_of ls t)" for t
    by (simp add: ls1_def share_left_def put_lease_simps(1) remove_lease_simps(1))
  have d: "distinct (map fst ls1)"
    using Cons.prems(3) by (simp add: ls1_def put_lease_simps(2) remove_lease_simps(2))
  have other: "map_of ls1 t = map_of ls t" if "t \<in> set tokens" for t using Cons.prems(1) that m by auto
  let ?rs = "case ql_ownership l of None \<Rightarrow> [] | Some (_, r) \<Rightarrow> [r]"
  have h: "set ?rs \<union> set (lease_handles ls1) = set (lease_handles ls)"
  proof -
    have "map_of ls1 = (map_of ls)(token := share_left l)" using m by auto
    then have "\<Union> (handle_of ` ran (map_of ls1)) = handle_of_option (share_left l) \<union> \<Union> (handle_of ` ran ((map_of ls)(token := None)))"
      by (cases "share_left l") (simp_all add: ran_upd handle_of_option_def)
    moreover have "\<Union> (handle_of ` ran (map_of ls)) = handle_of l \<union> \<Union> (handle_of ` ran ((map_of ls)(token := None)))"
      using ran_upd [of "map_of ls" token l] l by (simp add: fun_upd_idem)
    moreover have "set ?rs = handle_of l" by (cases "ql_ownership l") (auto simp: handle_of_def)
    moreover have "handle_of_option (share_left l) \<subseteq> handle_of l" by (simp add: handle_of_def handle_of_option_def share_left_def)
    ultimately show ?thesis using lease_handles_map [OF d] lease_handles_map [OF Cons.prems(3)] by auto
  qed
  have "\<forall>t \<in> set tokens. map_of ls1 t \<noteq> None" using Cons.prems(2) other by simp
  from Cons.IH [OF _ this d] Cons.prems(1) obtain ls' rs where r:
    "take_shares tokens ls1 = Some (ls', concat (map (\<lambda>t. ql_blocks (the (map_of ls1 t))) tokens), rs)"
    "distinct (map fst ls')" "set rs \<union> set (lease_handles ls') = set (lease_handles ls1)"
    "\<And>t. map_of ls' t = (if t \<in> set tokens then share_left (the (map_of ls1 t)) else map_of ls1 t)" by auto
  have eq: "map (\<lambda>t. ql_blocks (the (map_of ls1 t))) tokens = map (\<lambda>t. ql_blocks (the (map_of ls t))) tokens"
    using other by simp
  have "take_shares (token # tokens) ls =
      do { (ls2, blocks, reservations) \<leftarrow> take_shares tokens ls1; Some (ls2, ql_blocks l @ blocks, ?rs @ reservations) }"
    using l by (simp add: ls1_def)
  then have "take_shares (token # tokens) ls =
      Some (ls', concat (map (\<lambda>t. ql_blocks (the (map_of ls t))) (token # tokens)), ?rs @ rs)"
    by (simp add: l r(1) eq del: take_shares.simps)
  moreover have "set (?rs @ rs) \<union> set (lease_handles ls') = set (lease_handles ls)" using r(3) h by auto
  moreover have "map_of ls' t = (if t \<in> set (token # tokens) then share_left (the (map_of ls t)) else map_of ls t)" for t
    using r(4) [of t] other [of t] m [of t] l Cons.prems(1) by auto
  ultimately show ?case using r(2) by blast
qed auto

lemma those_some: "(\<And>x. x \<in> set xs \<Longrightarrow> f x \<noteq> None) \<Longrightarrow> those (map f xs) = Some (map (\<lambda>x. the (f x)) xs)"
  by (induction xs) (auto split: option.split)

text \<open>A batch is consumed as a whole or not at all.\<close>

lemma consume_batch_cases:
  assumes "distinct (map fst ls)"
  obtains (failed) e where "consume_batch i tokens validate now ls = Some (ls, Inl e)"
  | (taken) ls' v rs where "consume_batch i tokens validate now ls =
        Some (ls', Inr (v, concat (map (\<lambda>t. ql_blocks (the (map_of ls t))) tokens), rs))"
      and "check_batch i now ls [] tokens = Inr ()" and "distinct (map fst ls')"
      and "set rs \<union> set (lease_handles ls') = set (lease_handles ls)"
      and "\<And>t. map_of ls' t = (if t \<in> set tokens then share_left (the (map_of ls t)) else map_of ls t)"
proof (cases "check_batch i now ls [] tokens")
  case (Inl e)
  then show ?thesis using failed by (simp add: consume_batch_def)
next
  case (Inr x)
  then have c: "check_batch i now ls [] tokens = Inr ()" by simp
  then have t: "distinct tokens" "\<forall>t \<in> set tokens. map_of ls t \<noteq> None" by (auto simp: check_batch_iff)
  have s: "those (map (\<lambda>t. map_option ql_blocks (map_of ls t)) tokens) = Some (map (\<lambda>t. the (map_option ql_blocks (map_of ls t))) tokens)"
    using t(2) by (intro those_some) simp
  show ?thesis
  proof (cases "validate (map (\<lambda>t. the (map_option ql_blocks (map_of ls t))) tokens)")
    case (Inl e)
    then show ?thesis using failed c s by (simp add: consume_batch_def)
  next
    case (Inr v)
    obtain ls' rs where r: "take_shares tokens ls = Some (ls', concat (map (\<lambda>t. ql_blocks (the (map_of ls t))) tokens), rs)"
      "distinct (map fst ls')" "set rs \<union> set (lease_handles ls') = set (lease_handles ls)"
      "\<And>t. map_of ls' t = (if t \<in> set tokens then share_left (the (map_of ls t)) else map_of ls t)"
      using take_shares_spec [OF t assms] by blast
    then show ?thesis using taken [of ls' v rs] c s Inr by (simp add: consume_batch_def)
  qed
qed

section \<open>The invariant\<close>

definition query_inv :: "'b query_run \<Rightarrow> bool" where
  "query_inv s \<longleftrightarrow> budget_inv (qs_budget s) \<and> distinct (map fst (qs_leases s)) \<and>
     dom (qb_cells (qs_budget s)) = qr_cell ` (set (qs_held s) \<union> set (lease_handles (qs_leases s))) \<and>
     (\<forall>t l. map_of (qs_leases s) t = Some l \<longrightarrow>
        0 < ql_remaining_consumers l \<and> qs_issued s t = Some (qs_taken s t + ql_remaining_consumers l)) \<and>
     (\<forall>t. qs_taken s t \<le> (case qs_issued s t of None \<Rightarrow> 0 | Some n \<Rightarrow> n))"

lemma retain_keeps:
  assumes "query_inv s"
  obtains t where "retain_leases P s = Some t" and "query_inv t" and "qs_leases t = filter P (qs_leases s)"
    and "qs_held t = qs_held s" and "qs_issued t = qs_issued s" and "qs_taken t = qs_taken s"
proof -
  let ?out = "lease_handles (filter (\<lambda>x. \<not> P x) (qs_leases s))" and ?in = "lease_handles (filter P (qs_leases s))"
  have inv: "budget_inv (qs_budget s)" "distinct (map fst (qs_leases s))"
    "dom (qb_cells (qs_budget s)) = qr_cell ` (set (qs_held s) \<union> set (lease_handles (qs_leases s)))"
    using assms by (simp_all add: query_inv_def)
  have "dom (qb_cells (qs_budget s)) = qr_cell ` set (?out @ qs_held s @ ?in)"
    using inv(3) lease_handles_parts [of P "qs_leases s"] by auto
  from drop_handles_inv [OF inv(1) this] obtain b where b: "drop_handles ?out (qs_held s @ ?in) (qs_budget s) = Some b"
    "budget_inv b" "dom (qb_cells b) = qr_cell ` set (qs_held s @ ?in)" by blast
  have d: "distinct (map fst (filter P (qs_leases s)))" using inv(2) by (rule distinct_map_filter)
  have "map_of (qs_leases s) t = Some l" if "map_of (filter P (qs_leases s)) t = Some l" for t l
    using map_of_SomeD [OF that] inv(2) by (intro map_of_is_SomeI) auto
  then have c: "0 < ql_remaining_consumers l \<and> qs_issued s t = Some (qs_taken s t + ql_remaining_consumers l)"
    if "map_of (filter P (qs_leases s)) t = Some l" for t l
    using assms that unfolding query_inv_def by blast
  have "query_inv (s\<lparr>qs_budget := b, qs_leases := filter P (qs_leases s)\<rparr>)"
    unfolding query_inv_def using assms b(2,3) c d by (simp add: query_inv_def)
  then show ?thesis using that b(1) by (simp add: retain_leases_def)
qed

lemma budget_keeps:
  assumes "query_inv s" and "budget_inv b" and "dom (qb_cells b) = dom (qb_cells (qs_budget s))"
  shows "query_inv (s\<lparr>qs_budget := b\<rparr>)"
  using assms by (simp add: query_inv_def)

lemma held_cells: "r \<in> set held \<Longrightarrow> insert (qr_cell r) (qr_cell ` (set (remove1 r held) \<union> X)) = qr_cell ` (set held \<union> X)"
  by (induction held) auto

lemma held_live: "query_inv s \<Longrightarrow> r \<in> set (qs_held s) \<Longrightarrow> qr_cell r \<in> dom (qb_cells (qs_budget s))"
  by (simp add: query_inv_def)

lemma admit_works:
  assumes "query_inv s"
  shows "\<exists>b adm. reserve_query (qs_budget s) i ns bytes mode = Some (b, adm) \<and>
    query_inv (s\<lparr>qs_budget := b, qs_held := (case adm of Admitted r \<Rightarrow> [r] | _ \<Rightarrow> []) @ qs_held s\<rparr>)"
proof -
  have "budget_inv (qs_budget s)" using assms by (simp add: query_inv_def)
  then obtain b adm where r: "reserve_query (qs_budget s) i ns bytes mode = Some (b, adm)" "budget_inv b"
    "\<And>r. adm = Admitted r \<Longrightarrow> dom (qb_cells b) = insert (qr_cell r) (dom (qb_cells (qs_budget s)))"
    "adm \<notin> range Admitted \<Longrightarrow> b = qs_budget s"
    by (rule reserve_query_inv) blast
  then show ?thesis using assms by (cases adm) (auto simp: query_inv_def)
qed

lemma finish_works:
  assumes "query_inv s" and "r \<in> set (qs_held s)"
  shows "\<exists>t. finish_query r s = Some t \<and> query_inv t"
proof -
  let ?others = "remove1 r (qs_held s) @ lease_handles (qs_leases s)"
  have "dom (qb_cells (qs_budget s)) = qr_cell ` set ([r] @ ?others)"
    using assms held_cells [OF assms(2)] by (simp add: query_inv_def)
  from drop_handles_inv [OF _ this] obtain b where "drop_handles [r] ?others (qs_budget s) = Some b"
    "budget_inv b" "dom (qb_cells b) = qr_cell ` set ?others"
    using assms(1) by (auto simp: query_inv_def)
  then show ?thesis using assms(1) by (simp add: finish_query_def query_inv_def del: drop_handles.simps)
qed

lemma claim_works:
  assumes "query_inv s"
  shows "\<exists>t. claim_lease token s = Some t \<and> query_inv t"
proof (cases "map_of (qs_leases s) token")
  case (Some l)
  show ?thesis
  proof (cases "ql_ownership l")
    case own: (Some x)
    have "snd x \<in> handle_of l" using own by (simp add: handle_of_def)
    moreover have "distinct (map fst (qs_leases s))" using assms by (simp add: query_inv_def)
    ultimately have "snd x \<in> set (lease_handles (qs_leases s))"
      using ranI [of "map_of (qs_leases s)", OF Some] by (auto simp: lease_handles_map)
    then have live: "qr_cell (snd x) \<in> dom (qb_cells (qs_budget s))" using assms by (simp add: query_inv_def)
    have "budget_inv (qs_budget s)" using assms by (simp add: query_inv_def)
    from claim_query_inv [OF this live] obtain b where "claim_query (qs_budget s) (snd x) = Some b" "budget_inv b"
      "dom (qb_cells b) = dom (qb_cells (qs_budget s))" by blast
    then show ?thesis using Some own budget_keeps [OF assms, of b] by (simp add: claim_lease_def case_prod_beta)
  qed (use Some assms in \<open>simp add: claim_lease_def\<close>)
qed (use assms in \<open>simp add: claim_lease_def\<close>)

lemma release_works:
  assumes "query_inv s"
  shows "\<exists>t found. release_lease now token s = Some (t, found) \<and> query_inv t"
proof -
  obtain s1 where s1: "sweep_expired now s = Some s1" "query_inv s1" using retain_keeps [OF assms] unfolding sweep_expired_def by blast
  then obtain s2 where "retain_leases (\<lambda>(t, _). t \<noteq> token) s1 = Some s2" "query_inv s2" using retain_keeps by blast
  then show ?thesis using s1 by (simp add: release_lease_def)
qed

lemma create_works:
  assumes "query_inv s" and "\<And>owner r. ownership = Some (owner, r) \<Longrightarrow> r \<in> set (qs_held s)" and "qs_issued s token = None"
    and "create_run sweep_now now token i blocks consumers ownership s = Some t"
  shows "query_inv t"
proof -
  obtain s1 where s1: "sweep_expired sweep_now s = Some s1" "query_inv s1" "qs_held s1 = qs_held s" "qs_issued s1 = qs_issued s"
    "qs_taken s1 = qs_taken s"
    using retain_keeps [OF assms(1)] unfolding sweep_expired_def by metis
  let ?l = "\<lparr>ql_instance_id = i, ql_blocks = blocks, ql_remaining_consumers = max consumers 1,
    ql_expires_at = now + DEFAULT_LEASE_TTL, ql_ownership = ownership\<rparr>"
  let ?held = "case ownership of None \<Rightarrow> qs_held s1 | Some (_, r) \<Rightarrow> remove1 r (qs_held s1)"
  have t: "t = s1\<lparr>qs_leases := put_lease token ?l (qs_leases s1), qs_held := ?held, qs_issued := (qs_issued s1)(token \<mapsto> max consumers 1)\<rparr>"
    using assms(4) s1(1) by (auto simp: create_run_def create_lease_def split: if_splits)
  have d: "distinct (map fst (qs_leases s1))" using s1(2) by (simp add: query_inv_def)
  have new: "map_of (qs_leases s1) token = None" "qs_taken s1 token = 0"
    using s1(2,4) assms(3) unfolding query_inv_def by (metis not_None_eq, metis le_zero_eq option.simps(4))
  have "map_of (put_lease token ?l (qs_leases s1)) = (map_of (qs_leases s1))(token \<mapsto> ?l)" by (auto simp: put_lease_simps(1))
  then have h: "set (lease_handles (put_lease token ?l (qs_leases s1))) = handle_of ?l \<union> set (lease_handles (qs_leases s1))"
    using lease_handles_map [OF put_lease_simps(2) [OF d]] lease_handles_map [OF d] new(1) by (simp add: ran_map_upd)
  have "qr_cell ` (set ?held \<union> set (lease_handles (put_lease token ?l (qs_leases s1)))) =
      qr_cell ` (set (qs_held s1) \<union> set (lease_handles (qs_leases s1)))"
  proof (cases ownership)
    case (Some x)
    then have "snd x \<in> set (qs_held s1)" using assms(2) [of "fst x" "snd x"] s1(3) by simp
    from held_cells [OF this, of "set (lease_handles (qs_leases s1))"] show ?thesis
      using h Some by (simp add: handle_of_def case_prod_beta)
  qed (use h in \<open>simp add: handle_of_def\<close>)
  then show ?thesis using s1(2) d new unfolding t query_inv_def by (simp add: put_lease_simps)
qed

lemma consume_works:
  assumes "query_inv s"
  obtains (failed) e where "consume_run i tokens validate now s = Some (s, Inl e)"
  | (taken) t v where "consume_run i tokens validate now s =
        Some (t, Inr (v, concat (map (\<lambda>x. ql_blocks (the (map_of (qs_leases s) x))) tokens)))"
      and "check_batch i now (qs_leases s) [] tokens = Inr ()" and "query_inv t"
      and "qs_taken t = (\<lambda>x. qs_taken s x + (if x \<in> set tokens then 1 else 0))"
proof -
  have d: "distinct (map fst (qs_leases s))" using assms by (simp add: query_inv_def)
  show ?thesis
  proof (rule consume_batch_cases [OF d, of i tokens validate now], goal_cases)
    case (1 e)
    then show ?case using failed by (simp add: consume_run_def)
  next
    case (2 ls v rs)
    let ?taken = "\<lambda>x. qs_taken s x + (if x \<in> set tokens then 1 else 0)"
    let ?t = "s\<lparr>qs_leases := ls, qs_held := rs @ qs_held s, qs_taken := ?taken\<rparr>"
    have ok: "\<exists>l. map_of (qs_leases s) x = Some l" if "x \<in> set tokens" for x using 2(2) that by (auto simp: check_batch_iff)
    have live: "0 < ql_remaining_consumers l \<and> qs_issued s x = Some (qs_taken s x + ql_remaining_consumers l)"
      if "map_of (qs_leases s) x = Some l" for x l
      using assms that by (simp add: query_inv_def)
    have left: "0 < ql_remaining_consumers l \<and> qs_issued s x = Some (?taken x + ql_remaining_consumers l)" if "map_of ls x = Some l" for x l
    proof (cases "x \<in> set tokens")
      case True
      then obtain k where k: "map_of (qs_leases s) x = Some k" using ok by blast
      then have "share_left k = Some l" using 2(5) [of x] that True by simp
      then show ?thesis using live [OF k] True by (auto simp: share_left_def split: if_splits)
    qed (use 2(5) [of x] that live in simp)
    have some: "?taken x \<le> (case qs_issued s x of None \<Rightarrow> 0 | Some n \<Rightarrow> n)" for x
    proof (cases "x \<in> set tokens")
      case True
      then obtain k where "map_of (qs_leases s) x = Some k" using ok by blast
      then show ?thesis using live True by fastforce
    qed (use assms in \<open>simp add: query_inv_def\<close>)
    have "dom (qb_cells (qs_budget s)) = qr_cell ` (set (rs @ qs_held s) \<union> set (lease_handles ls))"
      using assms 2(4) [symmetric] unfolding query_inv_def by (simp add: Un_ac)
    then have "query_inv ?t" unfolding query_inv_def using assms 2(3) left some by (simp add: query_inv_def)
    moreover have "consume_run i tokens validate now s =
        Some (?t, Inr (v, concat (map (\<lambda>x. ql_blocks (the (map_of (qs_leases s) x))) tokens)))"
      using 2(1) by (simp add: consume_run_def)
    ultimately show ?case using taken 2(2) by simp
  qed
qed

lemma query_step_inv:
  assumes "query_step s t" and "query_inv s"
  shows "query_inv t"
  using assms
proof (induction rule: query_step.induct)
  case (admit s i ns bytes mode b adm)
  then show ?case using admit_works [of s i ns bytes mode] by simp
next
  case (bind r s generation)
  then show ?case using held_cells [OF bind(1)] by (simp add: query_inv_def bind_registration_def)
next
  case (clone r s)
  then show ?case by (auto simp: query_inv_def)
next
  case (make_ready r s bytes b res)
  have "budget_inv (qs_budget s)" using make_ready(3) by (simp add: query_inv_def)
  from ready_query_inv [OF this held_live [OF make_ready(3,1)], of bytes]
  obtain c res' where "ready_query (qs_budget s) r bytes = Some (c, res')" "budget_inv c" "dom (qb_cells c) = dom (qb_cells (qs_budget s))"
    by blast
  then show ?case using make_ready(2) budget_keeps [OF make_ready(3)] by simp
next
  case (start_restore r s b)
  have "budget_inv (qs_budget s)" using start_restore(3) by (simp add: query_inv_def)
  from restoring_query_inv [OF this held_live [OF start_restore(3,1)]]
  obtain c where "restoring_query (qs_budget s) r = Some c" "budget_inv c" "dom (qb_cells c) = dom (qb_cells (qs_budget s))"
    by blast
  then show ?case using start_restore(2) budget_keeps [OF start_restore(3)] by simp
next
  case (finish r s t)
  then show ?case using finish_works [of s r] by auto
next
  case (create ownership s token sweep_now now instance_id blocks consumers t)
  then show ?case using create_works [of s ownership token sweep_now now instance_id blocks consumers t] by blast
next
  case (claim token s t)
  then show ?case using claim_works [of s token] by auto
next
  case (consume instance_id tokens validate now s t res)
  show ?case using consume(1,2) by (cases rule: consume_works [OF consume(2), of instance_id tokens validate now]) auto
next
  case (release now token s t found)
  then show ?case using release_works [of s now token] by auto
next
  case (instance_gone instance_id s t)
  then show ?case using retain_keeps [OF instance_gone(2)] unfolding release_instance_def by (metis option.inject)
next
  case (owner_gone matches s t)
  then show ?case using retain_keeps [OF owner_gone(2)] unfolding release_owner_def by (metis option.inject)
next
  case (sweep now s t)
  then show ?case using retain_keeps [OF sweep(2)] unfolding sweep_expired_def by (metis option.inject)
qed

lemma query_start_inv: "query_start s \<Longrightarrow> query_inv s"
  by (auto simp: query_start_def query_inv_def budget_inv_def budget_new_def accounts_def share_def used_def lease_handles_def
      map_filter_simps split: if_splits)

interpretation ql: invariant_system query_start query_step query_inv
  by unfold_locales (auto intro: query_start_inv query_step_inv)

section \<open>Properties\<close>

text \<open>C13. Whatever queries, leases and consumers do, the usage of the budget is exactly the bytes of the reservations that some
  lease or holder still refers to, in total, per instance and for the speculative ones, and it stays within the limits;
  no operation underflows a counter.\<close>

theorem query_bytes_accounted:
  assumes "reach query_start query_step s"
  shows "let b = qs_budget s; u = qb_usage b; cells = qb_cells b in
    dom cells = qr_cell ` (set (qs_held s) \<union> set (lease_handles (qs_leases s))) \<and>
    us_total u = share (\<lambda>_. True) cells \<and> us_total u \<le> qb_global b \<and>
    (\<forall>i. used (us_instances u) i = share (\<lambda>v. rv_instance v = i) cells \<and> used (us_instances u) i \<le> qb_per_instance b) \<and>
    us_warming u = share is_speculative cells \<and> us_warming u \<le> qb_global b div 4 \<and>
    (\<forall>i. used (us_warming_instances u) i = share (\<lambda>v. is_speculative v \<and> rv_instance v = i) cells \<and>
      used (us_warming_instances u) i \<le> qb_per_instance b div 4) \<and>
    (\<forall>i ns n mode. reserve_query b i ns n mode \<noteq> None) \<and> (\<forall>P. retain_leases P s \<noteq> None) \<and>
    (\<forall>token. claim_lease token s \<noteq> None) \<and>
    (\<forall>r \<in> set (qs_held s). (\<forall>n. ready_query b r n \<noteq> None) \<and> restoring_query b r \<noteq> None \<and> finish_query r s \<noteq> None)"
proof -
  have inv: "query_inv s" using assms by (rule ql.reach_inv)
  then have b: "budget_inv (qs_budget s)" by (simp add: query_inv_def)
  have "reserve_query (qs_budget s) i ns n mode \<noteq> None" for i ns n mode using admit_works [OF inv, of i ns n mode] by auto
  moreover have "retain_leases P s \<noteq> None" for P using retain_keeps [OF inv, of P] by (metis option.simps(3))
  moreover have "claim_lease token s \<noteq> None" for token using claim_works [OF inv, of token] by auto
  moreover have "ready_query (qs_budget s) r n \<noteq> None \<and> restoring_query (qs_budget s) r \<noteq> None \<and> finish_query r s \<noteq> None"
    if "r \<in> set (qs_held s)" for r n
    using ready_query_inv [OF b held_live [OF inv that], of n] restoring_query_inv [OF b held_live [OF inv that]]
      finish_works [OF inv that] by (metis option.simps(3))
  ultimately show ?thesis using inv b by (simp add: Let_def query_inv_def budget_inv_def accounts_def)
qed

text \<open>A run: a query of instance \<open>[65]\<close> reserves ten bytes of a hundred, its two blocks are left in a lease for two consumers.\<close>

definition demo_cell :: reservation where
  "demo_cell = \<lparr>rv_instance = [65], rv_namespace = [66], rv_bytes = 10, rv_phase = Preparing\<rparr>"

definition demo_handle :: query_reservation where
  "demo_handle = \<lparr>qr_cell = 0, qr_generation = None\<rparr>"

definition demo_admitted :: "nat query_run" where
  "demo_admitted = \<lparr>qs_budget = \<lparr>qb_global = 100, qb_per_instance = 50,
       qb_usage = \<lparr>us_total = 10, us_instances = [[65] \<mapsto> 10], us_warming = 0, us_warming_instances = Map.empty\<rparr>,
       qb_total_peak = 10, qb_instance_peak = 10, qb_cells = [0 \<mapsto> demo_cell], qb_next_cell = 1\<rparr>,
     qs_leases = [], qs_held = [demo_handle], qs_issued = Map.empty, qs_taken = (\<lambda>_. 0)\<rparr>"

lemma demo_admitted_reach: "reach query_start query_step demo_admitted"
proof -
  let ?b = "\<lparr>qb_global = 100, qb_per_instance = 50,
       qb_usage = \<lparr>us_total = 0, us_instances = Map.empty, us_warming = 0, us_warming_instances = Map.empty\<rparr>,
       qb_total_peak = 0, qb_instance_peak = 0, qb_cells = Map.empty, qb_next_cell = 0\<rparr>"
  let ?s = "\<lparr>qs_budget = ?b, qs_leases = [], qs_held = [], qs_issued = Map.empty, qs_taken = (\<lambda>_. 0)\<rparr> :: nat query_run"
  have "budget_new 100 50 = Inr ?b" by (simp add: budget_new_def i64_max_def)
  then have "query_start ?s" unfolding query_start_def by (intro exI conjI) (assumption, rule refl)
  then have 0: "reach query_start query_step ?s" by (rule reach_start)
  have "reserve_query (qs_budget ?s) [65] [66] 10 Demand = Some (qs_budget demo_admitted, Admitted demo_handle)"
    by (simp add: reserve_query_def does_not_fit_def over_def checked_add_def add_used_def used_def machine_defs warm_mode_def
        admit_phase_def demo_admitted_def demo_handle_def demo_cell_def)
  then have "query_step ?s (?s\<lparr>qs_budget := qs_budget demo_admitted,
      qs_held := (case Admitted demo_handle of Admitted r \<Rightarrow> [r] | _ \<Rightarrow> []) @ qs_held ?s\<rparr>)"
    by (rule admit)
  moreover have "?s\<lparr>qs_budget := qs_budget demo_admitted,
      qs_held := (case Admitted demo_handle of Admitted r \<Rightarrow> [r] | _ \<Rightarrow> []) @ qs_held ?s\<rparr> = demo_admitted"
    by (simp add: demo_admitted_def)
  ultimately show ?thesis using reach_step [OF 0] by metis
qed

theorem query_bytes_accounted_witness:
  "us_total (qb_usage (qs_budget demo_admitted)) = 10 \<and> share (\<lambda>_. True) (qb_cells (qs_budget demo_admitted)) = 10 \<and>
   finish_query demo_handle demo_admitted \<noteq> None"
proof -
  have "us_total (qb_usage (qs_budget demo_admitted)) = 10" "demo_handle \<in> set (qs_held demo_admitted)" by (simp_all add: demo_admitted_def)
  then show ?thesis using query_bytes_accounted [OF demo_admitted_reach] unfolding Let_def by metis
qed

definition demo_leased :: "nat query_run" where
  "demo_leased = demo_admitted\<lparr>qs_leases := [([1], \<lparr>ql_instance_id = [65], ql_blocks = [7, 8], ql_remaining_consumers = 2,
       ql_expires_at = 600000000000, ql_ownership = Some (\<lparr>qo_session = 1, qo_operation = 2, qo_revision = 3\<rparr>, demo_handle)\<rparr>)],
     qs_held := [], qs_issued := [[1] \<mapsto> 2]\<rparr>"

lemma demo_leased_reach: "reach query_start query_step demo_leased"
proof -
  let ?own = "Some (\<lparr>qo_session = 1, qo_operation = 2, qo_revision = 3\<rparr>, demo_handle)"
  have "create_run 0 0 [1] [65] [7, 8] 2 ?own demo_admitted = Some demo_leased"
    by (simp add: create_run_def sweep_expired_def retain_leases_def lease_handles_def map_filter_simps create_lease_def
        put_lease_def DEFAULT_LEASE_TTL_def instant_max_def demo_leased_def demo_admitted_def) (simp add: numeral_2_eq_2)
  then have "query_step demo_admitted demo_leased"
    by (intro create [of ?own demo_admitted "[1]" 0 0 "[65]" "[7, 8]" 2]) (auto simp: demo_admitted_def)
  then show ?thesis by (rule reach_step [OF demo_admitted_reach])
qed

text \<open>C14. The blocks of a lease are handed out at most as often as it has consumers. A batch never panics; it is refused and
  changes nothing, or its tokens are distinct leases of the instance that have not expired, and one share of each is
  handed out, with all their blocks in order.\<close>

theorem lease_shares_bounded:
  fixes validate :: "'b list list \<Rightarrow> engine_error + unit"
  assumes "reach query_start query_step s"
  shows "(\<forall>x. qs_taken s x \<le> (case qs_issued s x of None \<Rightarrow> 0 | Some n \<Rightarrow> n)) \<and>
    (\<forall>x l. map_of (qs_leases s) x = Some l \<longrightarrow> qs_issued s x = Some (qs_taken s x + ql_remaining_consumers l)) \<and>
    (\<exists>t res. consume_run i tokens validate now s = Some (t, res) \<and>
      (case res of
         Inl _ \<Rightarrow> t = s
       | Inr (_, blocks) \<Rightarrow> distinct tokens \<and>
           (\<forall>x \<in> set tokens. \<exists>l. map_of (qs_leases s) x = Some l \<and> now < ql_expires_at l \<and> ql_instance_id l = i) \<and>
           blocks = concat (map (\<lambda>x. ql_blocks (the (map_of (qs_leases s) x))) tokens) \<and>
           qs_taken t = (\<lambda>x. qs_taken s x + (if x \<in> set tokens then 1 else 0))))"
proof -
  have inv: "query_inv s" using assms by (rule ql.reach_inv)
  have "\<exists>t res. consume_run i tokens validate now s = Some (t, res) \<and>
      (case res of
         Inl _ \<Rightarrow> t = s
       | Inr (_, blocks) \<Rightarrow> distinct tokens \<and>
           (\<forall>x \<in> set tokens. \<exists>l. map_of (qs_leases s) x = Some l \<and> now < ql_expires_at l \<and> ql_instance_id l = i) \<and>
           blocks = concat (map (\<lambda>x. ql_blocks (the (map_of (qs_leases s) x))) tokens) \<and>
           qs_taken t = (\<lambda>x. qs_taken s x + (if x \<in> set tokens then 1 else 0)))"
    by (cases rule: consume_works [OF inv, of i tokens validate now]) (simp_all add: check_batch_iff)
  then show ?thesis using inv by (simp add: query_inv_def)
qed

theorem lease_shares_bounded_witness:
  "\<exists>t. consume_run [65] [[1]] (\<lambda>_. Inr ()) 5 demo_leased = Some (t, Inr ((), [7, 8])) \<and> qs_taken t [1] = 1"
proof -
  obtain t where t: "consume_run [65] [[1]] (\<lambda>_. Inr ()) 5 demo_leased = Some (t, Inr ((), [7, 8]))"
    by (simp add: consume_run_def consume_batch_def put_lease_def demo_leased_def)
  moreover have "qs_taken demo_leased [1] = 0" by (simp add: demo_leased_def demo_admitted_def)
  ultimately show ?thesis
    using lease_shares_bounded [OF demo_leased_reach, of "[65]" "[[1]]" "\<lambda>_. Inr ()" 5] by auto
qed

end
