(* ===== verification/Spec2Isabelle.thy ===== *)
theory Spec2Isabelle
  imports Orbit_Prelude State_Identity Recovery Membership Global_Index Index_Invariant Index_Properties Segment_Codec Ssd_Ring Residency_Inventory
    Inventory_Wire Inventory_Source Inventory_Receiver Snapshot_Transfer Cache_Codec Descriptor_Arena Restore_Grants
    Grant_Protocol Restore_Reaper Query_Budget Query_Leases
begin

text \<open>
  Verification of OrbitKV.
\<close>

end
